(* ===== verification/Kernel_Prelude.thy ===== *)
theory Kernel_Prelude
  imports Main "HOL-Library.Word" "HOL-Library.Monad_Syntax"
begin

text \<open>
  Shared vocabulary of the development: the C integer types of \<^verbatim>\<open>include/types.h\<close> as
  machine words, the collections of simplification rules the component theories fill, and the
  generic facts on words that they share.
\<close>

unbundle bit_operations_syntax

subsection \<open>C types\<close>

type_synonym u8 = "8 word"
type_synonym u16 = "16 word"
type_synonym u32 = "32 word"
type_synonym u64 = "64 word"

subsection \<open>Collections\<close>

named_theorems field_simps_k \<open>equations for the index and descriptor macros\<close>
named_theorems mem_simps \<open>loads after stores\<close>
named_theorems frame_simps \<open>parts of the state an operation leaves alone\<close>

subsection \<open>Words\<close>

lemma word_less_8_cases:
  fixes x :: u64
  assumes "x < 8"
  shows "x = 0 \<or> x = 1 \<or> x = 2 \<or> x = 3 \<or> x = 4 \<or> x = 5 \<or> x = 6 \<or> x = 7"
proof -
  have "unat x < 8" using assms by (simp add: word_less_nat_alt)
  then have "unat x = 0 \<or> unat x = 1 \<or> unat x = 2 \<or> unat x = 3 \<or> unat x = 4 \<or> unat x = 5
      \<or> unat x = 6 \<or> unat x = 7" by arith
  then show ?thesis by (auto simp: word_unat_eq_iff)
qed

lemma word_diff_eq_iff: "(x - a = k) = (x = a + k)" for x a k :: "'a::len word"
  by (auto simp: algebra_simps)

lemma unat_add_small:
  fixes a b :: "'a::len word"
  assumes "unat a + unat b < 2 ^ LENGTH('a)"
  shows "unat (a + b) = unat a + unat b"
  using assms by (simp add: unat_word_ariths)

lemma unat_diff_small:
  fixes a b :: "'a::len word"
  assumes "b \<le> a"
  shows "unat (a - b) = unat a - unat b"
  using assms by (rule unat_sub)

lemma unat64_less: "unat (x :: u64) < 2 ^ 64"
  using unsigned_less [of x] by simp

end
