(* ===== verification/C_Memory.thy ===== *)
theory C_Memory
  imports Kernel_Prelude
begin

text \<open>
  The byte-addressed memory the kernel works on, its 64-bit little-endian accesses, and the two
  block routines of \<^verbatim>\<open>lib/helpfunct.c\<close>: \<open>bcopy\<close> and \<open>bzero\<close>. A loop of these routines
  that runs round the address space for ever is the value \<open>None\<close>; the theorems give the ranges
  for which they return, and what they return.
\<close>

type_synonym memory = "u64 \<Rightarrow> u8"

subsection \<open>Accesses\<close>

definition load64 :: "memory \<Rightarrow> u64 \<Rightarrow> u64" where
  "load64 m a =
     ucast (m a) OR push_bit 8 (ucast (m (a + 1))) OR push_bit 16 (ucast (m (a + 2)))
     OR push_bit 24 (ucast (m (a + 3))) OR push_bit 32 (ucast (m (a + 4)))
     OR push_bit 40 (ucast (m (a + 5))) OR push_bit 48 (ucast (m (a + 6)))
     OR push_bit 56 (ucast (m (a + 7)))"

definition store64 :: "memory \<Rightarrow> u64 \<Rightarrow> u64 \<Rightarrow> memory" where
  "store64 m a v = m(
     a := ucast v, a + 1 := ucast (drop_bit 8 v), a + 2 := ucast (drop_bit 16 v),
     a + 3 := ucast (drop_bit 24 v), a + 4 := ucast (drop_bit 32 v),
     a + 5 := ucast (drop_bit 40 v), a + 6 := ucast (drop_bit 48 v),
     a + 7 := ucast (drop_bit 56 v))"

subsection \<open>\<^verbatim>\<open>bcopy\<close>\<close>

partial_function (option) bcopy_longs ::
  "u64 \<Rightarrow> memory \<Rightarrow> u64 \<Rightarrow> u64 \<Rightarrow> (memory \<times> u64 \<times> u64) option" where
  "bcopy_longs mx m dst src =
     (if dst + 7 < mx
      then bcopy_longs mx (store64 m dst (load64 m src)) (dst + 8) (src + 8)
      else Some (m, dst, src))"

partial_function (option) bcopy_bytes ::
  "u64 \<Rightarrow> memory \<Rightarrow> u64 \<Rightarrow> u64 \<Rightarrow> memory option" where
  "bcopy_bytes mx m dst src =
     (if dst < mx
      then bcopy_bytes mx (m(dst := m src)) (dst + 1) (src + 1)
      else Some m)"

definition bcopy :: "memory \<Rightarrow> u64 \<Rightarrow> u64 \<Rightarrow> u64 \<Rightarrow> memory option" where
  "bcopy m src dst len =
     (let mx = dst + len in
      do { (m', dst', src') \<leftarrow> bcopy_longs mx m dst src;
           bcopy_bytes mx m' dst' src' })"

subsection \<open>\<^verbatim>\<open>bzero\<close>\<close>

partial_function (option) bzero_longs :: "u64 \<Rightarrow> memory \<Rightarrow> u64 \<Rightarrow> (memory \<times> u64) option" where
  "bzero_longs mx m b =
     (if b + 7 < mx then bzero_longs mx (store64 m b 0) (b + 8) else Some (m, b))"

partial_function (option) bzero_bytes :: "u64 \<Rightarrow> memory \<Rightarrow> u64 \<Rightarrow> memory option" where
  "bzero_bytes mx m b =
     (if b < mx then bzero_bytes mx (m(b := 0)) (b + 1) else Some m)"

definition bzero :: "memory \<Rightarrow> u64 \<Rightarrow> u64 \<Rightarrow> memory option" where
  "bzero m b len =
     (let mx = b + len in
      do { (m', b') \<leftarrow> bzero_longs mx m b;
           bzero_bytes mx m' b' })"

subsection \<open>Loads and stores\<close>

lemma store64_apply:
  "store64 m a v x = (if x - a < 8 then ucast (drop_bit (8 * unat (x - a)) v) else m x)"
proof (cases "x - a < 8")
  case True
  from word_less_8_cases [OF this] show ?thesis
    by (elim disjE) (auto simp: store64_def word_diff_eq_iff)
next
  case False
  have "x \<noteq> a + k" if "k < 8" for k
    using False that by auto
  from this [of 0] this [of 1] this [of 2] this [of 3] this [of 4] this [of 5] this [of 6]
    this [of 7] False
  show ?thesis by (simp add: store64_def)
qed

lemma bit_u8_ge: "8 \<le> n \<Longrightarrow> \<not> bit w n" for w :: u8
  by (auto dest: bit_imp_le_length)

text \<open>Bit \<open>n\<close> of a 64-bit load is bit \<open>n mod 8\<close> of byte \<open>n div 8\<close>.\<close>

lemma bit_load64:
  "bit (load64 m a) n \<longleftrightarrow> n < 64 \<and> bit (m (a + of_nat (n div 8))) (n mod 8)"
proof (cases "n < 64")
  case True
  define q r where "q = n div 8" and "r = n mod 8"
  have n: "n = 8 * q + r" and r: "r < 8" and q: "q < 8"
    using True by (auto simp: q_def r_def)
  have "q = 0 \<or> q = 1 \<or> q = 2 \<or> q = 3 \<or> q = 4 \<or> q = 5 \<or> q = 6 \<or> q = 7"
    using q by arith
  then have "bit (load64 m a) (8 * q + r) \<longleftrightarrow> bit (m (a + of_nat q)) r"
    using r by (elim disjE) (simp_all add: load64_def bit_simps bit_u8_ge)
  then show ?thesis using True unfolding n [symmetric] by (simp add: q_def r_def)
next
  case False
  then show ?thesis by (auto dest: bit_imp_le_length)
qed

lemma load64_eqI:
  assumes "\<And>k. k < 8 \<Longrightarrow> m (a + k) = m' (b + k)"
  shows "load64 m a = load64 m' b"
  using assms [of 0] assms [of 1] assms [of 2] assms [of 3] assms [of 4] assms [of 5]
    assms [of 6] assms [of 7]
  by (simp add: load64_def)

lemma load64_byte:
  assumes "k < 8"
  shows "ucast (drop_bit (8 * unat k) (load64 m a)) = m (a + k)"
proof -
  from assms have "unat k < 8" by (simp add: word_less_nat_alt)
  then show ?thesis
    by (intro bit_word_eqI) (auto simp: bit_simps bit_load64 dest: bit_imp_le_length)
qed

lemma load64_store64_same [simp, mem_simps]: "load64 (store64 m a v) a = v"
proof (rule bit_word_eqI)
  fix n :: nat
  assume "n < LENGTH(64)"
  then have n: "n < 64" by simp
  then have "n div 8 < 8" by simp
  then have u: "unat (word_of_nat (n div 8) :: u64) = n div 8"
    by (simp add: unat_of_nat)
  then have "(word_of_nat (n div 8) :: u64) < 8"
    using \<open>n div 8 < 8\<close> by (simp add: word_less_nat_alt)
  then show "bit (load64 (store64 m a v) a) n = bit v n"
    using n u by (simp add: bit_load64 store64_apply bit_simps)
qed

subsection \<open>Block routines\<close>

text \<open>
  \<open>in_block b len x\<close>: address \<open>x\<close> is one of the \<open>len\<close> addresses from \<open>b\<close> on. The closed
  forms of the two routines are stated with it, byte by byte.
\<close>

definition in_block :: "u64 \<Rightarrow> u64 \<Rightarrow> u64 \<Rightarrow> bool" where
  "in_block b len x \<longleftrightarrow> x - b < len"

definition zeroed :: "memory \<Rightarrow> u64 \<Rightarrow> u64 \<Rightarrow> memory" where
  "zeroed m b len = (\<lambda>x. if in_block b len x then 0 else m x)"

definition copied :: "memory \<Rightarrow> u64 \<Rightarrow> u64 \<Rightarrow> u64 \<Rightarrow> memory" where
  "copied m src dst len = (\<lambda>x. if in_block dst len x then m (src + (x - dst)) else m x)"

lemma step_in_block:
  fixes b len k x :: u64
  assumes "k \<le> len"
  shows "x - b < len \<longleftrightarrow> x - b < k \<or> x - (b + k) < len - k"
proof -
  define t where "t = x - b"
  have "x - (b + k) = t - k" by (simp add: t_def)
  moreover have "t < len \<longleftrightarrow> t < k \<or> t - k < len - k"
    using assms by unat_arith
  ultimately show ?thesis unfolding t_def by metis
qed

lemma loop_guard:
  fixes b len k :: u64
  assumes "unat b + unat len + unat k < 2 ^ 64"
  shows "b + k < b + len \<longleftrightarrow> k < len"
  using assms by (simp add: word_less_nat_alt unat_add_small)

lemma block_step:
  fixes b len k :: u64
  assumes "unat b + unat len + c < 2 ^ 64" and "k \<le> len"
  shows "b + k + (len - k) = b + len" "unat (b + k) + unat (len - k) + c < 2 ^ 64"
    "unat (len - k) = unat len - unat k"
proof -
  have k: "unat k \<le> unat len" using assms(2) by (simp add: word_le_nat_alt)
  show "b + k + (len - k) = b + len" by simp
  show d: "unat (len - k) = unat len - unat k" using assms(2) by (rule unat_diff_small)
  have "unat (b + k) = unat b + unat k"
    using assms(1) k by (intro unat_add_small) simp
  then show "unat (b + k) + unat (len - k) + c < 2 ^ 64" using d assms(1) k by simp
qed

lemma zeroed_0 [simp]: "zeroed m b 0 = m"
  by (simp add: zeroed_def in_block_def)

lemma zeroed_step:
  assumes "k \<le> len" and "\<And>x. m' x = (if x - b < k then 0 else m x)"
  shows "zeroed m' (b + k) (len - k) = zeroed m b len"
  by (rule ext) (simp add: zeroed_def in_block_def assms(2) step_in_block [OF assms(1), of _ b])

lemma bzero_bytes_eq:
  "unat b + unat len < 2 ^ 64 \<Longrightarrow> bzero_bytes (b + len) m b = Some (zeroed m b len)"
proof (induction "unat len" arbitrary: b len m)
  case 0
  then have "len = 0" by (simp add: unat_eq_0)
  then show ?case by (subst bzero_bytes.simps) simp
next
  case (Suc n)
  then have one: "1 \<le> len" by (simp add: word_le_nat_alt)
  have g: "b < b + len" using loop_guard [of b len 0] Suc one by (simp add: word_le_nat_alt word_less_nat_alt)
  have st: "unat (b + 1) + unat (len - 1) < 2 ^ 64" "unat (len - 1) = unat len - 1"
    using block_step [of b len 0 1] Suc.prems one by auto
  have "bzero_bytes (b + 1 + (len - 1)) (m(b := 0)) (b + 1)
      = Some (zeroed (m(b := 0)) (b + 1) (len - 1))"
    using Suc.hyps(2) st by (intro Suc.hyps(1)) auto
  moreover have "zeroed (m(b := 0)) (b + 1) (len - 1) = zeroed m b len"
    by (rule zeroed_step [OF one]) (auto simp: word_less_nat_alt unat_eq_0)
  ultimately show ?case using g by (subst bzero_bytes.simps) simp
qed

lemma bzero_eq:
  "unat b + unat len + 7 < 2 ^ 64 \<Longrightarrow> bzero m b len = Some (zeroed m b len)"
  unfolding bzero_def Let_def
proof (induction "unat len" arbitrary: b len m rule: less_induct)
  case less
  have g: "b + 7 < b + len \<longleftrightarrow> 7 < len"
    using less.prems by (intro loop_guard) simp
  show ?case
  proof (cases "7 < len")
    case True
    then have k: "8 \<le> len" by (simp add: word_le_nat_alt word_less_nat_alt)
    note st = block_step [OF less.prems k]
    have "unat (len - 8) < unat len" using st(3) k by (simp add: word_le_nat_alt)
    from less.hyps [OF this st(2), of "store64 m b 0"]
    have "do { (m', b') \<leftarrow> bzero_longs (b + len) (store64 m b 0) (b + 8);
        bzero_bytes (b + len) m' b' } = Some (zeroed (store64 m b 0) (b + 8) (len - 8))"
      by (simp add: algebra_simps)
    moreover have "zeroed (store64 m b 0) (b + 8) (len - 8) = zeroed m b len"
      by (rule zeroed_step [OF k]) (simp add: store64_apply)
    ultimately show ?thesis using True g by (simp add: bzero_longs.simps [of "b + len" m b])
  next
    case False
    then show ?thesis
      using g less.prems by (simp add: bzero_longs.simps [of "b + len" m b] bzero_bytes_eq)
  qed
qed

text \<open>
  \<open>bcopy\<close> copies upwards. It clobbers bytes it has still to read exactly when the destination
  starts inside the source block, behind its first byte.
\<close>

definition no_clobber :: "u64 \<Rightarrow> u64 \<Rightarrow> u64 \<Rightarrow> bool" where
  "no_clobber src dst len \<longleftrightarrow> dst = src \<or> len \<le> dst - src"

lemma no_clobber_step:
  "no_clobber src dst len \<Longrightarrow> k \<le> len \<Longrightarrow> no_clobber (src + k) (dst + k) (len - k)"
  unfolding no_clobber_def by unat_arith

lemma step_offset:
  fixes t k len :: u64
  assumes "t - k < len - k" and "k \<le> len"
  shows "k \<le> t" "t < len"
  using assms by unat_arith+

lemma step_not_clobbered:
  fixes t k len d :: u64
  assumes "k \<le> t" and "t < len" and "d = 0 \<or> len \<le> d"
  shows "\<not> t - d < k"
  using assms by unat_arith

lemma copied_0 [simp]: "copied m src dst 0 = m"
  by (simp add: copied_def in_block_def)

lemma copied_step:
  assumes k: "k \<le> len" and nc: "no_clobber src dst len"
    and m': "\<And>x. m' x = (if x - dst < k then m (src + (x - dst)) else m x)"
  shows "copied m' (src + k) (dst + k) (len - k) = copied m src dst len"
proof (rule ext)
  fix x
  define t where "t = x - dst"
  have x: "x - (dst + k) = t - k" and tk: "src + k + (t - k) = src + t" by (simp_all add: t_def)
  have L: "copied m' (src + k) (dst + k) (len - k) x
      = (if t - k < len - k then m' (src + t) else m' x)"
    by (simp only: copied_def in_block_def x tk)
  have R: "copied m src dst len x = (if t < len then m (src + t) else m x)"
    by (simp only: copied_def in_block_def t_def)
  have M: "m' x = (if t < k then m (src + t) else m x)"
    by (simp only: m' t_def)
  show "copied m' (src + k) (dst + k) (len - k) x = copied m src dst len x"
  proof (cases "t - k < len - k")
    case True
    note t = step_offset [OF this k]
    have "\<not> t - (dst - src) < k"
      using nc by (intro step_not_clobbered [OF t]) (auto simp: no_clobber_def)
    moreover have "src + t - dst = t - (dst - src)" by simp
    ultimately have "\<not> src + t - dst < k" by metis
    then have "m' (src + t) = m (src + t)" using m' [of "src + t"] by simp
    then show ?thesis using True t(2) by (simp only: L R if_True)
  next
    case False
    then have "t < len \<longleftrightarrow> t < k" using step_in_block [OF k, of x dst] x t_def by metis
    then show ?thesis using False by (simp only: L R M if_False)
  qed
qed

lemma bcopy_bytes_eq:
  "unat dst + unat len < 2 ^ 64 \<Longrightarrow> no_clobber src dst len \<Longrightarrow>
    bcopy_bytes (dst + len) m dst src = Some (copied m src dst len)"
proof (induction "unat len" arbitrary: dst src len m)
  case 0
  then have "len = 0" by (simp add: unat_eq_0)
  then show ?case by (subst bcopy_bytes.simps) simp
next
  case (Suc n)
  then have one: "1 \<le> len" by (simp add: word_le_nat_alt)
  have g: "dst < dst + len"
    using loop_guard [of dst len 0] Suc one by (simp add: word_le_nat_alt word_less_nat_alt)
  have st: "unat (dst + 1) + unat (len - 1) < 2 ^ 64" "unat (len - 1) = unat len - 1"
    using block_step [of dst len 0 1] Suc.prems one by auto
  have "bcopy_bytes (dst + 1 + (len - 1)) (m(dst := m src)) (dst + 1) (src + 1)
      = Some (copied (m(dst := m src)) (src + 1) (dst + 1) (len - 1))"
    using Suc.hyps(2) st no_clobber_step [OF Suc.prems(2) one] by (intro Suc.hyps(1)) auto
  moreover have "copied (m(dst := m src)) (src + 1) (dst + 1) (len - 1) = copied m src dst len"
    by (rule copied_step [OF one Suc.prems(2)]) (auto simp: word_less_nat_alt unat_eq_0)
  ultimately show ?case using g by (subst bcopy_bytes.simps) simp
qed

lemma store64_load64_apply:
  "store64 m dst (load64 m src) x = (if x - dst < 8 then m (src + (x - dst)) else m x)"
  by (simp add: store64_apply load64_byte)

lemma bcopy_eq:
  "unat dst + unat len + 7 < 2 ^ 64 \<Longrightarrow> no_clobber src dst len \<Longrightarrow>
    bcopy m src dst len = Some (copied m src dst len)"
  unfolding bcopy_def Let_def
proof (induction "unat len" arbitrary: dst src len m rule: less_induct)
  case less
  have g: "dst + 7 < dst + len \<longleftrightarrow> 7 < len"
    using less.prems by (intro loop_guard) simp
  show ?case
  proof (cases "7 < len")
    case True
    then have k: "8 \<le> len" by (simp add: word_le_nat_alt word_less_nat_alt)
    note st = block_step [OF less.prems(1) k]
    define m1 where "m1 = store64 m dst (load64 m src)"
    have "unat (len - 8) < unat len" using st(3) k by (simp add: word_le_nat_alt)
    from less.hyps [OF this st(2) no_clobber_step [OF less.prems(2) k], of m1]
    have "do { (m', d', s') \<leftarrow> bcopy_longs (dst + len) m1 (dst + 8) (src + 8);
        bcopy_bytes (dst + len) m' d' s' } = Some (copied m1 (src + 8) (dst + 8) (len - 8))"
      by (simp add: algebra_simps)
    moreover have "copied m1 (src + 8) (dst + 8) (len - 8) = copied m src dst len"
      by (rule copied_step [OF k less.prems(2)]) (simp add: m1_def store64_load64_apply)
    ultimately show ?thesis
      using True g by (simp add: bcopy_longs.simps [of "dst + len" m dst src] m1_def)
  next
    case False
    then show ?thesis
      using g less.prems by (simp add: bcopy_longs.simps [of "dst + len" m dst src] bcopy_bytes_eq)
  qed
qed

subsection \<open>Properties\<close>

text \<open>On a block that leaves seven bytes to the end of the address space, \<open>bzero\<close> returns, and it
  has cleared every byte of the block and no other byte, whatever its alignment and length.\<close>

lemma bzero_spec:
  assumes "unat b + unat len + 7 < 2 ^ 64"
  shows "\<exists>m'. bzero m b len = Some m' \<and> (\<forall>x. m' x = (if x - b < len then 0 else m x))"
  using bzero_eq [OF assms, of m] by (auto simp: zeroed_def in_block_def)

lemma bzero_spec_witness:
  "\<exists>m'. bzero (\<lambda>_. 0xFF) 0x1003 13 = Some m' \<and> m' 0x100F = 0 \<and> m' 0x1010 = 0xFF \<and> m' 0x1002 = 0xFF"
  using bzero_spec [where b = "0x1003" and len = 13 and m = "\<lambda>_. 0xFF"] by auto

text \<open>C35: \<open>bcopy\<close> returns, and has copied the source block byte by byte and changed no other byte,
  when the destination does not start inside the source block behind its first byte.\<close>

lemma bcopy_spec:
  assumes "unat dst + unat len + 7 < 2 ^ 64" and "dst = src \<or> len \<le> dst - src"
  shows "\<exists>m'. bcopy m src dst len = Some m' \<and>
    (\<forall>x. m' x = (if x - dst < len then m (src + (x - dst)) else m x))"
  using bcopy_eq [OF assms(1), of src m] assms(2) by (auto simp: copied_def in_block_def no_clobber_def)

lemma bcopy_spec_witness:
  "\<exists>m'. bcopy (\<lambda>x. ucast x) 0x1004 0x1001 11 = Some m' \<and> m' 0x1001 = 4 \<and> m' 0x100B = 0xE \<and> m' 0x100C = 0xC"
  using bcopy_spec [where dst = "0x1001" and len = 11 and src = "0x1004" and m = ucast] by auto

end
