(* ===== verification/Mmu_Defs.thy ===== *)
theory Mmu_Defs
  imports C_Memory
begin

text \<open>
  The constants and macros of \<^verbatim>\<open>include/mmu.h\<close> (and the page/address conversions of
  \<^verbatim>\<open>include/pmap.h\<close>), the arithmetic of page-table entry addresses, and the interface
  \<open>entry_store\<close>: a memory of aligned cells, which the page-table code relies on, provided by the
  64-bit accesses of \<^verbatim>\<open>C_Memory\<close>.
\<close>

subsection \<open>Constants\<close>

definition BY2PG :: u64 where "BY2PG = 4096"
definition PTE_V :: u64 where "PTE_V = 0x1"
definition TYPE_PAGE :: u64 where "TYPE_PAGE = 0x3"
definition TYPE_BLOCK :: u64 where "TYPE_BLOCK = 0x1"
definition PTE_NORMAL :: u64 where "PTE_NORMAL = push_bit 2 0"
definition PTE_DEVICE :: u64 where "PTE_DEVICE = push_bit 2 1"
definition PTE_AF :: u64 where "PTE_AF = push_bit 10 0x1"
definition PTE_RO :: u64 where "PTE_RO = push_bit 7 0x1"
definition PTE_USER :: u64 where "PTE_USER = push_bit 6 0x1"
definition PTE_ISH :: u64 where "PTE_ISH = push_bit 8 3"
definition UPAGES :: u64 where "UPAGES = 0x50000000"
definition UENVS :: u64 where "UENVS = 0x51000000"
definition TIMESTACK :: u64 where "TIMESTACK = 0x52000000"
definition KERNEL_SP :: u64 where "KERNEL_SP = 0x52000000 - BY2PG"
definition E_BAD_ENV :: int where "E_BAD_ENV = 2"
definition E_INVAL :: int where "E_INVAL = 3"
definition E_NO_MEM :: int where "E_NO_MEM = 4"
definition E_NO_FREE_ENV :: int where "E_NO_FREE_ENV = 5"
definition E_IPC_NOT_RECV :: int where "E_IPC_NOT_RECV = 6"

lemmas mmu_consts = BY2PG_def PTE_V_def TYPE_PAGE_def TYPE_BLOCK_def PTE_NORMAL_def PTE_DEVICE_def
  PTE_AF_def PTE_RO_def PTE_USER_def PTE_ISH_def

lemmas err_codes = E_BAD_ENV_def E_INVAL_def E_NO_MEM_def E_NO_FREE_ENV_def E_IPC_NOT_RECV_def

subsection \<open>Macros\<close>

definition ROUND :: "u64 \<Rightarrow> u64 \<Rightarrow> u64" where
  "ROUND a n = (a + n - 1) AND NOT (n - 1)"

definition ROUNDDOWN :: "u64 \<Rightarrow> u64 \<Rightarrow> u64" where
  "ROUNDDOWN a n = a AND NOT (n - 1)"

definition PUDX :: "u64 \<Rightarrow> u64" where "PUDX va = drop_bit 30 va AND 0x1ff"
definition PMDX :: "u64 \<Rightarrow> u64" where "PMDX va = drop_bit 21 va AND 0x1ff"
definition PTEX :: "u64 \<Rightarrow> u64" where "PTEX va = drop_bit 12 va AND 0x1ff"
definition PTE_ADDR :: "u64 \<Rightarrow> u64" where "PTE_ADDR pte = pte AND NOT 0xFFF"
definition PPN :: "u64 \<Rightarrow> u64" where "PPN va = drop_bit 12 va"

definition page2ppn :: "u64 \<Rightarrow> u64" where "page2ppn pp = pp"
definition page2pa :: "u64 \<Rightarrow> u64" where "page2pa pp = push_bit 12 (page2ppn pp)"

text \<open>
  \<open>tbl + i\<close> on an \<^verbatim>\<open>unsigned long *\<close>: the address of entry \<open>i\<close> of the table at \<open>tbl\<close>.
\<close>

definition entry :: "u64 \<Rightarrow> u64 \<Rightarrow> u64" where "entry tbl i = tbl + 8 * i"

subsection \<open>Aligned addresses\<close>

definition aligned8 :: "u64 \<Rightarrow> bool" where "aligned8 a \<longleftrightarrow> 8 dvd unat a"
definition page_aligned :: "u64 \<Rightarrow> bool" where "page_aligned a \<longleftrightarrow> 4096 dvd unat a"

lemma aligned8_apart:
  assumes "aligned8 a" and "aligned8 b" and "a \<noteq> b" and "k < 8"
  shows "\<not> b + k - a < 8"
proof -
  define d where "d = b - a"
  have d0: "d \<noteq> 0" using assms(3) by (simp add: d_def)
  have "8 dvd unat d"
  proof -
    have "unat d = (if unat a \<le> unat b then unat b - unat a else unat b + 2 ^ 64 - unat a)"
      by (simp add: d_def unat_sub_if')
    then show ?thesis using assms(1,2) by (auto simp: aligned8_def)
  qed
  then obtain q where q: "unat d = 8 * q" ..
  have "unat d < 2 ^ 64" by (rule unat64_less)
  then have "8 * q + 8 \<le> 2 ^ 64" using q by simp
  moreover have "unat k < 8" using assms(4) by (simp add: word_less_nat_alt)
  ultimately have "unat (d + k) = 8 * q + unat k" using q by (subst unat_add_small) auto
  moreover have "0 < q" using q d0 by (cases q) (auto simp: unat_eq_0)
  ultimately have "\<not> d + k < 8" by (simp add: word_less_nat_alt)
  then show ?thesis by (simp add: d_def algebra_simps)
qed

lemma load64_store64_other:
  assumes "aligned8 a" and "aligned8 b" and "a \<noteq> b"
  shows "load64 (store64 m a v) b = load64 m b"
  by (rule load64_eqI) (simp add: store64_apply aligned8_apart [OF assms])

lemma aligned8_entry: "page_aligned t \<Longrightarrow> aligned8 (entry t i)"
proof -
  assume t: "page_aligned t"
  have "unat (entry t i) = (unat t + 8 * unat i) mod 2 ^ 64"
    by (simp add: entry_def unat_word_ariths mod_simps)
  moreover have "8 dvd unat t" using t unfolding page_aligned_def by (rule dvd_trans [rotated]) simp
  ultimately show ?thesis by (simp add: aligned8_def dvd_mod)
qed

lemma unat_entry:
  assumes "page_aligned t" and "i < 512"
  shows "unat (entry t i) = unat t + 8 * unat i" "unat t + 8 * unat i < 2 ^ 64"
proof -
  from assms(1) obtain q where q: "unat t = 4096 * q" unfolding page_aligned_def ..
  have "4096 * q + 4096 \<le> 2 ^ 64" using unat64_less [of t] q by simp
  moreover have i: "unat i < 512" using assms(2) by (simp add: word_less_nat_alt)
  ultimately show lt: "unat t + 8 * unat i < 2 ^ 64" using q by arith
  have "unat (8 * i) = 8 * unat i" using i by (simp add: unat_word_ariths)
  then show "unat (entry t i) = unat t + 8 * unat i"
    using lt by (simp add: entry_def unat_add_small)
qed

lemma entry_eq_iff:
  assumes "page_aligned t" "page_aligned t'" "i < 512" "j < 512"
  shows "entry t i = entry t' j \<longleftrightarrow> t = t' \<and> i = j"
proof
  assume "entry t i = entry t' j"
  then have e: "unat t + 8 * unat i = unat t' + 8 * unat j"
    using unat_entry assms by metis
  from assms obtain q q' where q: "unat t = 4096 * q" and q': "unat t' = 4096 * q'"
    unfolding page_aligned_def by (meson dvdE)
  have "unat i < 512" "unat j < 512" using assms(3,4) by (simp_all add: word_less_nat_alt)
  then have "(4096 * q + 8 * unat i) div 4096 = q" "(4096 * q' + 8 * unat j) div 4096 = q'"
    by simp_all
  with e q q' have "q = q'" by metis
  moreover from this e q q' have "unat i = unat j" by simp
  ultimately show "t = t' \<and> i = j" using q q' by (simp add: word_unat_eq_iff)
qed simp

lemma in_page_entry:
  assumes "page_aligned p" "page_aligned t" "i < 512" "k < 8"
  shows "in_block p BY2PG (entry t i + k) \<longleftrightarrow> p = t"
proof
  have i: "unat i < 512" and k: "unat k < 8" using assms(3,4) by (simp_all add: word_less_nat_alt)
  from assms obtain q q' where q: "unat p = 4096 * q" and q': "unat t = 4096 * q'"
    unfolding page_aligned_def by (meson dvdE)
  have lt: "4096 * q' + 4096 \<le> 2 ^ 64" using unat64_less [of t] q' by simp
  have u: "unat (entry t i + k) = 4096 * q' + 8 * unat i + unat k"
  proof -
    have "unat (entry t i) + unat k < 2 ^ 64"
      using unat_entry(1) [OF assms(2,3)] i k lt q' by linarith
    then show ?thesis using unat_entry(1) [OF assms(2,3)] q' by (simp add: unat_add_small)
  qed
  { assume "in_block p BY2PG (entry t i + k)"
    then have "unat (entry t i + k - p) < 4096"
      by (simp add: in_block_def BY2PG_def word_less_nat_alt)
    then have "q = q'"
      using u q i k lt unat64_less [of p] by (simp add: unat_sub_if' split: if_splits)
    then show "p = t" using q q' by (simp add: word_unat_eq_iff) }
  { assume "p = t"
    then have "unat (entry t i + k - p) = 8 * unat i + unat k"
      using u q' by (simp add: unat_sub_if')
    then show "in_block p BY2PG (entry t i + k)"
      using i k by (simp add: in_block_def BY2PG_def word_less_nat_alt) }
qed

lemma load64_zeroed_page:
  assumes "page_aligned p" "page_aligned t" "i < 512"
  shows "load64 (zeroed m p BY2PG) (entry t i) = (if p = t then 0 else load64 m (entry t i))"
proof (cases "p = t")
  case True
  have "load64 (zeroed m t BY2PG) (entry t i) = load64 (\<lambda>_. 0) (entry t i)"
    by (intro load64_eqI) (simp add: zeroed_def in_page_entry [OF assms(2,2,3)])
  then show ?thesis using True by (simp add: load64_def)
next
  case False
  then have "load64 (zeroed m p BY2PG) (entry t i) = load64 m (entry t i)"
    by (intro load64_eqI) (simp add: zeroed_def in_page_entry [OF assms])
  then show ?thesis using False by simp
qed

text \<open>Copying a page.\<close>

lemma load64_copied_page:
  assumes "page_aligned p" "page_aligned t" "i < 512"
  shows "load64 (copied m src p BY2PG) (entry t i) = (if p = t then load64 m (entry src i) else load64 m (entry t i))"
proof (cases "p = t")
  case True
  have "load64 (copied m src t BY2PG) (entry t i) = load64 m (entry src i)"
    by (intro load64_eqI) (simp add: copied_def in_page_entry [OF assms(2,2,3)], simp add: entry_def add.assoc)
  then show ?thesis using True by simp
next
  case False
  then have "load64 (copied m src p BY2PG) (entry t i) = load64 m (entry t i)"
    by (intro load64_eqI) (simp add: copied_def in_page_entry [OF assms])
  then show ?thesis using False by simp
qed

subsection \<open>Indices and descriptors\<close>

lemma and_511_less: "x AND 0x1ff < (512 :: u64)"
  using word_and_le1 [of x "0x1ff"] by (rule order.strict_trans1) simp

lemma index_less [simp, field_simps_k]: "PUDX va < 512" "PMDX va < 512" "PTEX va < 512"
  by (simp_all only: PUDX_def PMDX_def PTEX_def and_511_less)

lemma low12_eq: "(0xFFF :: u64) = mask 12"
  by (simp add: mask_eq_exp_minus_1)

lemma PTE_ADDR_eq: "PTE_ADDR x = push_bit 12 (drop_bit 12 x)"
  by (rule bit_word_eqI) (auto simp: PTE_ADDR_def low12_eq bit_simps)

lemma page_aligned_push_bit [simp]: "page_aligned (push_bit 12 x)"
  by (simp add: page_aligned_def unsigned_push_bit_eq take_bit_push_bit) (simp add: push_bit_eq_mult)

lemma page_aligned_PTE_ADDR [simp, field_simps_k]: "page_aligned (PTE_ADDR x)"
  by (simp add: PTE_ADDR_eq)

lemma page_aligned_page2pa [simp, field_simps_k]: "page_aligned (page2pa p)"
  by (simp add: page2pa_def)

lemma take_bit_self: "w < 2 ^ n \<Longrightarrow> take_bit n w = w" for w :: u64
proof (cases "n < 64")
  case True
  assume "w < 2 ^ n"
  moreover have "(2 :: nat) ^ n < 2 ^ 64" using True by (intro power_strict_increasing) auto
  then have "unat (2 ^ n :: u64) = 2 ^ n"
    using unat_of_nat [of "2 ^ n", where 'a = 64] by simp
  ultimately have "unat w < 2 ^ n" by (simp add: word_less_nat_alt)
  then have "unat (take_bit n w) = unat w"
    by (simp add: unsigned_take_bit_eq take_bit_nat_eq_self)
  then show ?thesis by (simp add: word_unat_eq_iff)
qed (simp add: take_bit_word_eq_self)

lemma not_bit_small: "w < 2 ^ n \<Longrightarrow> n \<le> k \<Longrightarrow> \<not> bit w k" for w :: u64
  by (metis take_bit_self bit_take_bit_iff not_le)

lemma bit_small_less: "w < 2 ^ n \<Longrightarrow> bit w k \<Longrightarrow> k < n" for w :: u64
  using not_bit_small [of w n k] by (meson not_le)

lemma PPN_page2pa [field_simps_k]: "p < 2 ^ 52 \<Longrightarrow> PPN (page2pa p) = p"
  unfolding PPN_def page2pa_def page2ppn_def
  by (rule bit_word_eqI) (auto simp: bit_simps dest: bit_small_less [of p 52, simplified])

text \<open>
  An attribute word below 4096 leaves the address field of a descriptor alone.
\<close>

lemma PTE_ADDR_or [field_simps_k]:
  assumes "attr < 4096"
  shows "PTE_ADDR (page2pa p OR attr) = page2pa p"
proof -
  have "\<not> bit attr n" if "12 \<le> n" for n
    using that assms by (intro not_bit_small [of _ 12]) auto
  then show ?thesis
    by (intro bit_word_eqI) (auto simp: PTE_ADDR_def page2pa_def page2ppn_def low12_eq bit_simps)
qed

lemma PPN_or [field_simps_k]:
  assumes "attr < 4096" and p: "p < 2 ^ 52"
  shows "PPN (page2pa p OR attr) = p"
proof -
  have "\<not> bit attr n" if "12 \<le> n" for n
    using that assms(1) by (intro not_bit_small [of _ 12]) auto
  then show ?thesis
    unfolding PPN_def page2pa_def page2ppn_def
    by (intro bit_word_eqI) (auto simp: bit_simps dest: bit_small_less [OF p])
qed

lemma page2pa_inj: "p < 2 ^ 52 \<Longrightarrow> q < 2 ^ 52 \<Longrightarrow> page2pa p = page2pa q \<longleftrightarrow> p = q"
  by (metis PPN_page2pa)

text \<open>The frame a descriptor names, as a page: \<open>PPN\<close> and \<open>PTE_ADDR\<close> agree.\<close>

lemma PTE_ADDR_PPN: "PTE_ADDR x = page2pa (PPN x)"
  by (simp add: PTE_ADDR_eq page2pa_def PPN_def page2ppn_def)

lemma PPN_less: "PPN x < 2 ^ 52"
proof -
  have "unat x div 4096 < 2 ^ 52" using unat64_less [of x] by (simp add: less_mult_imp_div_less)
  then show ?thesis by (simp add: PPN_def word_less_nat_alt drop_bit_eq_div unat_div)
qed

subsection \<open>Slots of a virtual address\<close>

text \<open>The three table indices of a 39-bit virtual address; they name its page.\<close>

type_synonym slot = "u64 \<times> u64 \<times> u64"

definition va_slot :: "u64 \<Rightarrow> slot" where
  "va_slot va = (PUDX va, PMDX va, PTEX va)"

lemma mask9_eq: "(0x1ff :: u64) = mask 9"
  by (simp add: mask_eq_exp_minus_1)

lemma bit_index:
  "bit (PUDX va) n \<longleftrightarrow> n < 9 \<and> bit va (30 + n)"
  "bit (PMDX va) n \<longleftrightarrow> n < 9 \<and> bit va (21 + n)"
  "bit (PTEX va) n \<longleftrightarrow> n < 9 \<and> bit va (12 + n)"
  by (auto simp: PUDX_def PMDX_def PTEX_def mask9_eq bit_simps)

lemma va_slot_eq_iff:
  assumes "va < 2 ^ 39" and "va' < 2 ^ 39"
  shows "va_slot va = va_slot va' \<longleftrightarrow> PPN va = PPN va'"
proof
  assume "PPN va = PPN va'"
  then have b: "bit va (12 + n) = bit va' (12 + n)" for n
    by (metis PPN_def bit_drop_bit_eq comp_def)
  have "bit va (30 + n) = bit va' (30 + n)" "bit va (21 + n) = bit va' (21 + n)" for n
    using b [of "18 + n"] b [of "9 + n"] by simp_all
  with b show "va_slot va = va_slot va'"
    by (auto simp: va_slot_def bit_index intro!: bit_word_eqI)
next
  assume s: "va_slot va = va_slot va'"
  have bits: "bit va (12 + n) = bit va' (12 + n)" for n
  proof -
    consider "n < 9" | "9 \<le> n" "n < 18" | "18 \<le> n" "n < 27" | "27 \<le> n" by linarith
    then show ?thesis
    proof cases
      case 1
      then show ?thesis using s bit_index(3) [of va n] bit_index(3) [of va' n]
        by (simp add: va_slot_def)
    next
      case 2
      then have "n - 9 < 9" by simp
      with 2 have "bit va (21 + (n - 9)) = bit va' (21 + (n - 9))"
        using s bit_index(2) [of va "n - 9"] bit_index(2) [of va' "n - 9"]
        by (simp add: va_slot_def)
      then show ?thesis using 2 by simp
    next
      case 3
      then have "n - 18 < 9" by simp
      with 3 have "bit va (30 + (n - 18)) = bit va' (30 + (n - 18))"
        using s bit_index(1) [of va "n - 18"] bit_index(1) [of va' "n - 18"]
        by (simp add: va_slot_def)
      then show ?thesis using 3 by simp
    next
      case 4
      then show ?thesis
        using not_bit_small [OF assms(1), of "12 + n"] not_bit_small [OF assms(2), of "12 + n"]
        by simp
    qed
  qed
  then show "PPN va = PPN va'"
    unfolding PPN_def by (intro bit_word_eqI) (simp add: bit_simps)
qed

subsection \<open>Rounding\<close>

lemma and_not_pow2:
  fixes x :: u64
  assumes "n < 64"
  shows "x AND NOT (2 ^ n - 1) = push_bit n (drop_bit n x)"
proof -
  have "(2 ^ n - 1 :: u64) = mask n" by (simp add: mask_eq_exp_minus_1)
  then show ?thesis by (auto intro!: bit_word_eqI simp: bit_simps)
qed

lemma unat_pow2: "n < 64 \<Longrightarrow> unat (2 ^ n :: u64) = 2 ^ n"
  using unat_of_nat [of "2 ^ n", where 'a = 64] power_strict_increasing [of n 64 "2 :: nat"]
  by simp

lemma unat_and_not_pow2:
  fixes x :: u64
  assumes "n < 64"
  shows "unat (x AND NOT (2 ^ n - 1)) = unat x div 2 ^ n * 2 ^ n"
proof -
  have "unat x div 2 ^ n * 2 ^ n < 2 ^ 64"
    using unat64_less [of x] by (metis div_times_less_eq_dividend order.strict_trans1)
  then have "take_bit 64 (push_bit n (unat x div 2 ^ n)) = unat x div 2 ^ n * 2 ^ n"
    by (simp add: push_bit_eq_mult take_bit_nat_eq_self)
  then show ?thesis
    by (simp add: and_not_pow2 [OF assms] unsigned_push_bit_eq unat_drop_bit_eq
        drop_bit_eq_div [of n "unat x"] del: drop_bit_eq_div)
qed

lemma ROUND_spec:
  assumes n: "n < 64" and fits: "unat a + 2 ^ n \<le> 2 ^ 64"
  shows "2 ^ n dvd unat (ROUND a (2 ^ n))" "a \<le> ROUND a (2 ^ n)"
    "unat (ROUND a (2 ^ n)) < unat a + 2 ^ n"
proof -
  define d :: nat where "d = 2 ^ n"
  have d: "0 < d" by (simp add: d_def)
  have "unat (a + (2 ^ n - 1)) = unat a + (d - 1)"
  proof -
    have "unat (2 ^ n - 1 :: u64) = d - 1"
      using d by (subst unat_sub) (auto simp: unat_pow2 n d_def word_le_nat_alt)
    then show ?thesis using fits d by (subst unat_add_small) (auto simp: d_def)
  qed
  then have u: "unat (ROUND a (2 ^ n)) = (unat a + (d - 1)) div d * d"
    using unat_and_not_pow2 [OF n, of "a + (2 ^ n - 1)"]
    by (simp add: ROUND_def d_def algebra_simps)
  show "2 ^ n dvd unat (ROUND a (2 ^ n))" by (simp add: u d_def)
  define r where "r = (unat a + (d - 1)) mod d"
  have "unat (ROUND a (2 ^ n)) + r = unat a + (d - 1)" by (simp only: u r_def div_mult_mod_eq)
  moreover have "r < d" using d by (simp add: r_def)
  ultimately show "a \<le> ROUND a (2 ^ n)" "unat (ROUND a (2 ^ n)) < unat a + 2 ^ n"
    using d by (simp_all add: word_le_nat_alt d_def [symmetric])
qed

subsection \<open>The interfaces of table memory\<close>

text \<open>
  A store of cells: a read returns the last value written to its cell. The loops that fill a
  table (\<^verbatim>\<open>env_setup_vm\<close>, \<^verbatim>\<open>boot_mmu_setup\<close>) are folds of writes, whose result is proved
  here once.
\<close>

locale entry_store =
  fixes get :: "'m \<Rightarrow> 'a \<Rightarrow> 'v"
    and put :: "'m \<Rightarrow> 'a \<Rightarrow> 'v \<Rightarrow> 'm"
    and ok :: "'a \<Rightarrow> bool"
  assumes get_put_same: "get (put m a v) a = v"
    and get_put_other: "ok a \<Longrightarrow> ok b \<Longrightarrow> a \<noteq> b \<Longrightarrow> get (put m a v) b = get m b"
begin

lemma get_put: "ok a \<Longrightarrow> ok b \<Longrightarrow> get (put m a v) b = (if a = b then v else get m b)"
  by (auto simp: get_put_same get_put_other)

lemma get_fill_other:
  assumes "\<And>i. i \<in> set is \<Longrightarrow> ok (addr i) \<and> addr i \<noteq> b" and "ok b"
  shows "get (fold (\<lambda>i m. put m (addr i) (val i m)) is m) b = get m b"
  using assms(1)
proof (induction "is" arbitrary: m)
  case Nil
  then show ?case by simp
next
  case (Cons i "is")
  then have "get (fold (\<lambda>i m. put m (addr i) (val i m)) (i # is) m) b
      = get (put m (addr i) (val i m)) b" by simp
  also have "\<dots> = get m b" using Cons.prems assms(2) by (intro get_put_other) auto
  finally show ?case .
qed

lemma get_fill:
  assumes "\<And>i. i \<in> set is \<Longrightarrow> ok (addr i)" and "inj_on addr (set is)" and "distinct is"
    and "i \<in> set is"
    and "\<And>m m'. (\<And>b. b \<notin> addr ` set is \<Longrightarrow> ok b \<Longrightarrow> get m b = get m' b) \<Longrightarrow> val i m = val i m'"
  shows "get (fold (\<lambda>i m. put m (addr i) (val i m)) is m) (addr i) = val i m"
proof -
  from assms(4) obtain us vs where sp: "is = us @ i # vs" by (auto simp: in_set_conv_decomp)
  define m1 where "m1 = fold (\<lambda>i m. put m (addr i) (val i m)) us m"
  have "get (fold (\<lambda>i m. put m (addr i) (val i m)) is m) (addr i)
      = get (fold (\<lambda>i m. put m (addr i) (val i m)) vs (put m1 (addr i) (val i m1))) (addr i)"
    by (simp add: sp m1_def)
  also have "\<dots> = get (put m1 (addr i) (val i m1)) (addr i)"
    using assms(1,2,3) by (intro get_fill_other) (auto simp: sp inj_on_def)
  also have "\<dots> = val i m1" by (rule get_put_same)
  also have "\<dots> = val i m"
    unfolding m1_def using assms(1) by (intro assms(5) get_fill_other) (auto simp: sp)
  finally show ?thesis .
qed

end

text \<open>
  A store whose cells are grouped in tables of entries, with an operation that clears a table:
  what the page-table walk and the page allocator rely on.
\<close>

locale table_store = entry_store get put ok
  for get :: "'m \<Rightarrow> 'a \<Rightarrow> 'v" and put :: "'m \<Rightarrow> 'a \<Rightarrow> 'v \<Rightarrow> 'm" and ok :: "'a \<Rightarrow> bool" +
  fixes cell :: "'t \<Rightarrow> 'i \<Rightarrow> 'a"
    and is_table :: "'t \<Rightarrow> bool"
    and is_index :: "'i \<Rightarrow> bool"
    and clear :: "'m \<Rightarrow> 't \<Rightarrow> 'm"
    and zero :: 'v
  assumes cell_ok: "is_table t \<Longrightarrow> ok (cell t i)"
    and cell_inj: "is_table t \<Longrightarrow> is_table t' \<Longrightarrow> is_index i \<Longrightarrow> is_index j \<Longrightarrow>
      cell t i = cell t' j \<longleftrightarrow> t = t' \<and> i = j"
    and get_clear: "is_table t \<Longrightarrow> is_table t' \<Longrightarrow> is_index i \<Longrightarrow>
      get (clear m t) (cell t' i) = (if t = t' then zero else get m (cell t' i))"
begin

lemma get_put_cell:
  assumes "is_table t" "is_table t'" "is_index i" "is_index j"
  shows "get (put m (cell t i) v) (cell t' j) = (if t = t' \<and> i = j then v else get m (cell t' j))"
  using assms by (simp add: get_put cell_ok cell_inj)

lemma get_put_clear:
  assumes "is_table t" "is_table t'" "is_table f" "is_index i" "is_index j" "f \<noteq> t"
  shows "get (put (clear m f) (cell t i) v) (cell t' j)
    = (if t = t' \<and> i = j then v else if f = t' then zero else get m (cell t' j))"
  using assms by (auto simp: get_put_cell get_clear)

end

text \<open>The 64-bit accesses and the page-clearing \<open>bzero\<close> provide these interfaces.\<close>

interpretation es: entry_store load64 store64 aligned8
  by unfold_locales (simp_all add: load64_store64_other)

interpretation ts: table_store load64 store64 aligned8 entry page_aligned "\<lambda>i. i < 512"
  "\<lambda>m t. zeroed m t BY2PG" 0
  by unfold_locales (simp_all add: aligned8_entry entry_eq_iff load64_zeroed_page)

end
