(* ===== verification/Sys_Queue.thy ===== *)
theory Sys_Queue
  imports Kernel_Prelude
begin

text \<open>
  The intrusive doubly linked lists of \<^verbatim>\<open>include/queue.h\<close>. A link does not hold the address of
  the previous element but the address of the pointer that points at this element: the head's
  \<^verbatim>\<open>lh_first\<close> or the previous element's \<^verbatim>\<open>le_next\<close>. Several heads may share one link field
  (\<^verbatim>\<open>env_sched_list[2]\<close>), so heads are indexed. Following a NULL \<^verbatim>\<open>le_prev\<close> is \<open>None\<close>.

  The macros keep their names and the order of their assignments. \<open>lst q h xs\<close> says that the
  list at head \<open>h\<close> holds \<open>xs\<close>; the macros are proved to implement the operations on \<open>xs\<close>, and
  the interface \<open>intrusive_lists\<close> hands that to the page and environment pools.
\<close>

subsection \<open>Data\<close>

datatype ('h, 'a) lref = Head 'h | Next 'a
  \<comment> \<open>\<^verbatim>\<open>&head->lh_first\<close> or \<^verbatim>\<open>&elm->field.le_next\<close>\<close>

record ('h, 'a) list_entry =
  le_next :: "'a option"
  le_prev :: "('h, 'a) lref option"

record ('h, 'a) lists =
  lh_first :: "'h \<Rightarrow> 'a option"
  link :: "'a \<Rightarrow> ('h, 'a) list_entry"

definition set_first :: "'h \<Rightarrow> 'a option \<Rightarrow> ('h, 'a) lists \<Rightarrow> ('h, 'a) lists" where
  "set_first h v q = q\<lparr>lh_first := (lh_first q)(h := v)\<rparr>"

definition set_next :: "'a \<Rightarrow> 'a option \<Rightarrow> ('h, 'a) lists \<Rightarrow> ('h, 'a) lists" where
  "set_next x v q = q\<lparr>link := (link q)(x := (link q x)\<lparr>le_next := v\<rparr>)\<rparr>"

definition set_prev :: "'a \<Rightarrow> ('h, 'a) lref option \<Rightarrow> ('h, 'a) lists \<Rightarrow> ('h, 'a) lists" where
  "set_prev x v q = q\<lparr>link := (link q)(x := (link q x)\<lparr>le_prev := v\<rparr>)\<rparr>"

text \<open>\<open>*r = v\<close> for the address \<open>r\<close> of a pointer.\<close>

definition assign :: "('h, 'a) lref \<Rightarrow> 'a option \<Rightarrow> ('h, 'a) lists \<Rightarrow> ('h, 'a) lists" where
  "assign r v q = (case r of Head h \<Rightarrow> set_first h v q | Next x \<Rightarrow> set_next x v q)"

subsection \<open>The macros\<close>

definition LIST_FIRST :: "('h, 'a) lists \<Rightarrow> 'h \<Rightarrow> 'a option" where
  "LIST_FIRST q h = lh_first q h"

definition LIST_EMPTY :: "('h, 'a) lists \<Rightarrow> 'h \<Rightarrow> bool" where
  "LIST_EMPTY q h \<longleftrightarrow> lh_first q h = None"

definition LIST_NEXT :: "('h, 'a) lists \<Rightarrow> 'a \<Rightarrow> 'a option" where
  "LIST_NEXT q x = le_next (link q x)"

definition LIST_INIT :: "('h, 'a) lists \<Rightarrow> 'h \<Rightarrow> ('h, 'a) lists" where
  "LIST_INIT q h = set_first h None q"

definition LIST_INSERT_AFTER :: "('h, 'a) lists \<Rightarrow> 'a \<Rightarrow> 'a \<Rightarrow> ('h, 'a) lists" where
  "LIST_INSERT_AFTER q listelm elm =
     (let q = set_next elm (LIST_NEXT q listelm) q;
          q = set_prev elm (Some (Next listelm)) q;
          q = (case LIST_NEXT q listelm of
                 None \<Rightarrow> q
               | Some n \<Rightarrow> set_prev n (Some (Next elm)) q)
      in set_next listelm (Some elm) q)"

definition LIST_INSERT_BEFORE ::
  "('h, 'a) lists \<Rightarrow> 'a \<Rightarrow> 'a \<Rightarrow> ('h, 'a) lists option" where
  "LIST_INSERT_BEFORE q listelm elm =
     (let q = set_prev elm (le_prev (link q listelm)) q;
          q = set_next elm (Some listelm) q
      in case le_prev (link q listelm) of
           None \<Rightarrow> None
         | Some r \<Rightarrow> (let q = assign r (Some elm) q
                     in Some (set_prev listelm (Some (Next elm)) q)))"

definition LIST_INSERT_HEAD :: "('h, 'a) lists \<Rightarrow> 'h \<Rightarrow> 'a \<Rightarrow> ('h, 'a) lists" where
  "LIST_INSERT_HEAD q h elm =
     (let q = set_next elm (LIST_FIRST q h) q;
          q = (case LIST_NEXT q elm of
                 None \<Rightarrow> q
               | Some _ \<Rightarrow> (case LIST_FIRST q h of
                             None \<Rightarrow> q
                           | Some f \<Rightarrow> set_prev f (Some (Next elm)) q));
          q = set_first h (Some elm) q
      in set_prev elm (Some (Head h)) q)"

text \<open>
  The walk of \<^verbatim>\<open>LIST_INSERT_TAIL\<close> keeps its cursor \<open>n\<close> in \<open>elm\<close>'s own \<^verbatim>\<open>le_next\<close>. It does not
  end on a cyclic list.
\<close>

partial_function (option) insert_tail_walk ::
  "('h, 'a) lists \<Rightarrow> 'a \<Rightarrow> 'a \<Rightarrow> (('h, 'a) lists \<times> 'a) option" where
  "insert_tail_walk q elm n =
     (let q = set_next elm (Some n) q in
      case LIST_NEXT q n of
        None \<Rightarrow> Some (q, n)
      | Some n' \<Rightarrow> insert_tail_walk q elm n')"

definition LIST_INSERT_TAIL ::
  "('h, 'a) lists \<Rightarrow> 'h \<Rightarrow> 'a \<Rightarrow> ('h, 'a) lists option" where
  "LIST_INSERT_TAIL q h elm =
     (case LIST_FIRST q h of
        None \<Rightarrow> Some (LIST_INSERT_HEAD q h elm)
      | Some f \<Rightarrow>
          do { (q, n) \<leftarrow> insert_tail_walk q elm f;
               let q = set_prev elm (Some (Next n)) q;
               let q = set_next n (Some elm) q;
               Some (set_next elm None q) })"

definition LIST_REMOVE :: "('h, 'a) lists \<Rightarrow> 'a \<Rightarrow> ('h, 'a) lists option" where
  "LIST_REMOVE q elm =
     (let q = (case LIST_NEXT q elm of
                 None \<Rightarrow> q
               | Some n \<Rightarrow> set_prev n (le_prev (link q elm)) q)
      in case le_prev (link q elm) of
           None \<Rightarrow> None
         | Some r \<Rightarrow> Some (assign r (LIST_NEXT q elm) q))"

text \<open>The elements \<^verbatim>\<open>LIST_FOREACH\<close> visits, in order.\<close>

partial_function (option) foreach_from ::
  "('h, 'a) lists \<Rightarrow> 'a option \<Rightarrow> 'a list option" where
  "foreach_from q p =
     (case p of
        None \<Rightarrow> Some []
      | Some x \<Rightarrow> do { xs \<leftarrow> foreach_from q (LIST_NEXT q x); Some (x # xs) })"

definition LIST_FOREACH :: "('h, 'a) lists \<Rightarrow> 'h \<Rightarrow> 'a list option" where
  "LIST_FOREACH q h = foreach_from q (LIST_FIRST q h)"

lemmas queue_upd = set_first_def set_next_def set_prev_def assign_def
lemmas queue_macros = LIST_FIRST_def LIST_EMPTY_def LIST_NEXT_def LIST_INIT_def

subsection \<open>What a list holds\<close>

text \<open>
  \<open>dseg q r p xs r' p'\<close>: starting from the pointer value \<open>p\<close> found at address \<open>r\<close>, the chain
  runs through \<open>xs\<close> and ends with the value \<open>p'\<close> at address \<open>r'\<close>.
\<close>

primrec dseg :: "('h, 'a) lists \<Rightarrow> ('h, 'a) lref \<Rightarrow> 'a option \<Rightarrow> 'a list \<Rightarrow>
    ('h, 'a) lref \<Rightarrow> 'a option \<Rightarrow> bool" where
  "dseg q r p [] r' p' \<longleftrightarrow> r = r' \<and> p = p'"
| "dseg q r p (x # xs) r' p' \<longleftrightarrow> p = Some x \<and> le_prev (link q x) = Some r \<and>
     dseg q (Next x) (le_next (link q x)) xs r' p'"

definition end_ref :: "('h, 'a) lref \<Rightarrow> 'a list \<Rightarrow> ('h, 'a) lref" where
  "end_ref r xs = (if xs = [] then r else Next (last xs))"

definition lst :: "('h, 'a) lists \<Rightarrow> 'h \<Rightarrow> 'a list \<Rightarrow> bool" where
  "lst q h xs \<longleftrightarrow> distinct xs \<and> dseg q (Head h) (lh_first q h) xs (end_ref (Head h) xs) None"

lemma dseg_append:
  "dseg q r p (us @ ws) r'' p'' \<longleftrightarrow> (\<exists>r' p'. dseg q r p us r' p' \<and> dseg q r' p' ws r'' p'')"
  by (induction us arbitrary: r p) auto

lemma dseg_end: "dseg q r p xs r' p' \<Longrightarrow> r' = end_ref r xs"
  by (induction xs arbitrary: r p) (auto simp: end_ref_def)

lemma dseg_cong:
  "(\<And>x. x \<in> set xs \<Longrightarrow> link q x = link q' x) \<Longrightarrow> dseg q r p xs r' p' = dseg q' r p xs r' p'"
  by (induction xs arbitrary: r p) auto

lemma lstI: "distinct xs \<Longrightarrow> dseg q (Head h) (lh_first q h) xs r None \<Longrightarrow> lst q h xs"
  by (metis dseg_end lst_def)

lemma lst_distinct: "lst q h xs \<Longrightarrow> distinct xs"
  by (simp add: lst_def)

lemma lst_first: "lst q h xs \<Longrightarrow> lh_first q h = (case xs of [] \<Rightarrow> None | x # _ \<Rightarrow> Some x)"
  by (auto simp: lst_def split: list.splits)

text \<open>A list keeps its content when its head and the links of its elements are left alone.\<close>

lemma lst_frame:
  assumes "lst q h xs" and "lh_first q' h = lh_first q h"
    and "\<And>x. x \<in> set xs \<Longrightarrow> link q' x = link q x"
  shows "lst q' h xs"
proof -
  have "dseg q' (Head h) (lh_first q h) xs (end_ref (Head h) xs) None"
    using assms(1) dseg_cong [of xs q' q] assms(3) by (simp add: lst_def)
  then show ?thesis using assms by (simp add: lst_def)
qed

subsection \<open>Insertion at the head\<close>

text \<open>
  A chain can be hung at another address \<open>r\<close>: only the back link of its first element changes.
\<close>

lemma dseg_relink:
  assumes "dseg q r0 p xs e None" and "distinct xs"
    and "\<And>y. y \<in> set xs \<Longrightarrow> link q' y =
      (if p = Some y then (link q y)\<lparr>le_prev := Some r\<rparr> else link q y)"
  shows "dseg q' r p xs (end_ref r xs) None"
proof (cases xs)
  case Nil
  then show ?thesis using assms(1) by (simp add: end_ref_def)
next
  case (Cons y ys)
  then have p: "p = Some y" and t: "dseg q (Next y) (le_next (link q y)) ys e None"
    using assms(1) by auto
  have "dseg q' (Next y) (le_next (link q y)) ys e None"
    using t assms(2,3) Cons p by (subst dseg_cong [where q' = q]) auto
  moreover have "e = end_ref r xs" using Cons dseg_end [OF assms(1)] by (simp add: end_ref_def)
  ultimately show ?thesis using Cons p assms(3) by simp
qed

lemma insert_head_first: "lh_first (LIST_INSERT_HEAD q h x) = (lh_first q)(h := Some x)"
  by (simp add: LIST_INSERT_HEAD_def queue_macros queue_upd Let_def split: option.splits)

lemma insert_head_link:
  "lh_first q h \<noteq> Some x \<Longrightarrow> link (LIST_INSERT_HEAD q h x) y =
    (if y = x then \<lparr>le_next = lh_first q h, le_prev = Some (Head h)\<rparr>
     else if lh_first q h = Some y then (link q y)\<lparr>le_prev := Some (Next x)\<rparr>
     else link q y)"
  by (auto simp: LIST_INSERT_HEAD_def queue_macros queue_upd Let_def split: option.splits)

lemma lst_insert_head:
  assumes "lst q h xs" and "x \<notin> set xs"
  shows "lst (LIST_INSERT_HEAD q h x) h (x # xs)"
proof -
  let ?q = "LIST_INSERT_HEAD q h x"
  have ne: "lh_first q h \<noteq> Some x" using assms by (auto simp: lst_first split: list.splits)
  note lk = insert_head_link [of q h x, OF ne]
  have "dseg ?q (Next x) (lh_first q h) xs (end_ref (Next x) xs) None"
  proof (rule dseg_relink)
    show "dseg q (Head h) (lh_first q h) xs (end_ref (Head h) xs) None"
      using assms(1) by (simp add: lst_def)
    show "link ?q y = (if lh_first q h = Some y then (link q y)\<lparr>le_prev := Some (Next x)\<rparr> else link q y)"
      if "y \<in> set xs" for y using that assms(2) by (auto simp: lk)
  qed (rule lst_distinct [OF assms(1)])
  then show ?thesis using assms lk
    by (intro lstI [where r = "end_ref (Next x) xs"]) (auto simp: insert_head_first lst_def)
qed

lemma lst_insert_head_other:
  assumes "lst q h xs" and "lst q h' ys" and "h \<noteq> h'" and "x \<notin> set ys" and "set xs \<inter> set ys = {}"
    and "x \<notin> set xs"
  shows "lst (LIST_INSERT_HEAD q h x) h' ys"
proof -
  have ne: "lh_first q h \<noteq> Some x" using assms by (auto simp: lst_first split: list.splits)
  have "lh_first q h \<noteq> Some y" if "y \<in> set ys" for y
    using that assms(1,5) by (auto simp: lst_first split: list.splits)
  then show ?thesis using assms(3,4)
    by (intro lst_frame [OF assms(2)]) (auto simp: insert_head_first insert_head_link [OF ne])
qed

subsection \<open>Removal\<close>

text \<open>The links around an element of a list.\<close>

lemma lst_around:
  assumes "lst q h (us @ x # vs)"
  shows "le_prev (link q x) = Some (end_ref (Head h) us)"
    and "le_next (link q x) = (case vs of [] \<Rightarrow> None | y # _ \<Rightarrow> Some y)"
    and "dseg q (Head h) (lh_first q h) us (end_ref (Head h) us) (Some x)"
    and "\<exists>e. dseg q (Next x) (le_next (link q x)) vs e None"
proof -
  let ?e = "end_ref (Head h) (us @ x # vs)"
  from assms have "dseg q (Head h) (lh_first q h) (us @ x # vs) ?e None" by (simp add: lst_def)
  then obtain r p where us: "dseg q (Head h) (lh_first q h) us r p"
    and x: "dseg q r p (x # vs) ?e None" by (auto simp: dseg_append)
  from us have r: "r = end_ref (Head h) us" by (rule dseg_end)
  then show "le_prev (link q x) = Some (end_ref (Head h) us)"
    "dseg q (Head h) (lh_first q h) us (end_ref (Head h) us) (Some x)"
    "\<exists>e. dseg q (Next x) (le_next (link q x)) vs e None" using us x by auto
  from x show "le_next (link q x) = (case vs of [] \<Rightarrow> None | y # _ \<Rightarrow> Some y)"
    by (cases vs) auto
qed

text \<open>
  What removing an element of a list does, field by field: the predecessor's pointer skips it
  and its successor's back link is redirected.
\<close>

lemma remove_effect:
  assumes "lst q h (us @ x # vs)"
  defines "n \<equiv> (case vs of [] \<Rightarrow> None | y # _ \<Rightarrow> Some y)" and "r \<equiv> end_ref (Head h) us"
  shows "\<exists>q'. LIST_REMOVE q x = Some q' \<and>
    lh_first q' = (if us = [] then (lh_first q)(h := n) else lh_first q) \<and>
    (\<forall>y. le_next (link q' y) =
      (if us \<noteq> [] \<and> y = last us then n else le_next (link q y))) \<and>
    (\<forall>y. le_prev (link q' y) = (if n = Some y then Some r else le_prev (link q y)))"
proof -
  note around = lst_around [OF assms(1), folded n_def r_def]
  let ?q = "assign r n (case n of None \<Rightarrow> q | Some y \<Rightarrow> set_prev y (Some r) q)"
  have "n \<noteq> Some x" using lst_distinct [OF assms(1)] by (auto simp: n_def split: list.splits)
  then have "LIST_REMOVE q x = Some ?q" using around(1,2)
    by (auto simp: LIST_REMOVE_def queue_macros Let_def set_prev_def split: option.splits)
  moreover have "lh_first ?q = (if us = [] then (lh_first q)(h := n) else lh_first q)"
    by (auto simp: r_def end_ref_def queue_upd split: option.splits)
  moreover have "le_next (link ?q y) = (if us \<noteq> [] \<and> y = last us then n else le_next (link q y))"
    "le_prev (link ?q y) = (if n = Some y then Some r else le_prev (link q y))" for y
    by (auto simp: r_def end_ref_def queue_upd split: option.splits)
  ultimately show ?thesis by blast
qed

lemma lst_remove_prefix:
  assumes "lst q h (us @ x # vs)" and "us \<noteq> []"
    and n: "\<And>y. y \<in> set us \<Longrightarrow> le_next (link q' y) = (if y = last us then n else le_next (link q y))"
    and p: "\<And>y. y \<in> set us \<Longrightarrow> le_prev (link q' y) = le_prev (link q y)"
  shows "dseg q' (Head h) (lh_first q h) us (end_ref (Head h) us) n"
proof -
  obtain us0 u where us: "us = us0 @ [u]" using assms(2) by (cases us rule: rev_cases) auto
  have d: "u \<notin> set us0" using lst_distinct [OF assms(1)] us by auto
  from lst_around(3) [OF assms(1)] obtain r0
    where s0: "dseg q (Head h) (lh_first q h) us0 r0 (Some u)" and "le_prev (link q u) = Some r0"
    by (auto simp: us dseg_append)
  moreover have "dseg q' (Head h) (lh_first q h) us0 r0 (Some u)"
    using s0 n p d us by (subst dseg_cong [where q' = q]) (auto intro: list_entry.equality)
  ultimately show ?thesis using n [of u] p [of u] us by (auto simp: dseg_append end_ref_def)
qed

lemma lst_remove:
  assumes "lst q h (us @ x # vs)"
  shows "\<exists>q'. LIST_REMOVE q x = Some q' \<and> lst q' h (us @ vs) \<and>
    (\<forall>h'. h' \<noteq> h \<longrightarrow> lh_first q' h' = lh_first q h') \<and>
    (\<forall>y. y \<notin> set (us @ x # vs) \<longrightarrow> link q' y = link q y)"
proof -
  define n where "n = (case vs of [] \<Rightarrow> None | y # _ \<Rightarrow> Some y)"
  define r where "r = end_ref (Head h) us"
  from remove_effect [OF assms, folded n_def r_def] obtain q' where rem: "LIST_REMOVE q x = Some q'"
    and f: "lh_first q' = (if us = [] then (lh_first q)(h := n) else lh_first q)"
    and ln: "\<And>y. le_next (link q' y) = (if us \<noteq> [] \<and> y = last us then n else le_next (link q y))"
    and lp: "\<And>y. le_prev (link q' y) = (if n = Some y then Some r else le_prev (link q y))"
    by blast
  have d: "distinct (us @ x # vs)" by (rule lst_distinct [OF assms])
  have n_in: "y \<in> set vs" if "n = Some y" for y using that by (auto simp: n_def split: list.splits)
  have last_in: "y \<in> set us" if "us \<noteq> []" "y = last us" for y using that by simp
  then have last_out: "last us \<notin> set vs" if "us \<noteq> []"
    using d last_in [OF that refl] by auto
  from lst_around(2,4) [OF assms, folded n_def] obtain e where "dseg q (Next x) n vs e None" by auto
  then have "dseg q' r n vs (end_ref r vs) None"
  proof (rule dseg_relink)
    show "link q' y = (if n = Some y then (link q y)\<lparr>le_prev := Some r\<rparr> else link q y)"
      if "y \<in> set vs" for y
      using that last_out by (intro list_entry.equality) (auto simp: ln lp)
  qed (use d in simp)
  moreover have "dseg q' (Head h) (lh_first q' h) us r n"
  proof (cases "us = []")
    case False
    then have "n \<noteq> Some y" if "y \<in> set us" for y using d n_in [of y] that by auto
    then show ?thesis
      using False lst_remove_prefix [OF assms, of q' n] by (simp add: f ln lp r_def)
  qed (simp add: f r_def end_ref_def)
  ultimately have "lst q' h (us @ vs)" using d by (intro lstI) (auto simp: dseg_append)
  moreover have "link q' y = link q y" if "y \<notin> set (us @ x # vs)" for y
    using that n_in [of y] last_in [of y] by (auto simp: ln lp intro!: list_entry.equality)
  ultimately show ?thesis using rem f by auto
qed

subsection \<open>Insertion next to an element\<close>

lemma insert_after_first [simp]: "lh_first (LIST_INSERT_AFTER q x e) = lh_first q"
  by (simp add: LIST_INSERT_AFTER_def queue_macros queue_upd Let_def split: option.splits)

lemma insert_after_link:
  assumes "x \<noteq> e" and "le_next (link q x) \<noteq> Some e" and "le_next (link q x) \<noteq> Some x"
  shows "link (LIST_INSERT_AFTER q x e) y =
    (if y = e then \<lparr>le_next = le_next (link q x), le_prev = Some (Next x)\<rparr>
     else if y = x then (link q x)\<lparr>le_next := Some e\<rparr>
     else if le_next (link q x) = Some y then (link q y)\<lparr>le_prev := Some (Next e)\<rparr>
     else link q y)"
  using assms by (auto simp: LIST_INSERT_AFTER_def queue_macros queue_upd Let_def split: option.splits)

lemma lst_insert_after:
  assumes "lst q h (us @ x # vs)" and "e \<notin> set (us @ x # vs)"
  shows "lst (LIST_INSERT_AFTER q x e) h (us @ x # e # vs)"
proof -
  let ?q = "LIST_INSERT_AFTER q x e"
  note around = lst_around [OF assms(1)]
  have d: "distinct (us @ x # vs)" by (rule lst_distinct [OF assms(1)])
  have n_in: "y \<in> set vs" if "le_next (link q x) = Some y" for y
    using that around(2) by (auto split: list.splits)
  then have "le_next (link q x) \<noteq> Some e" "le_next (link q x) \<noteq> Some x" "x \<noteq> e"
    using assms(2) d by auto
  note lk = insert_after_link [OF this(3,1,2)]
  have "dseg ?q (Head h) (lh_first q h) us (end_ref (Head h) us) (Some x)"
    using around(3) assms(2) d n_in by (subst dseg_cong [where q' = q]) (auto simp: lk)
  moreover from around(4) obtain r where "dseg q (Next x) (le_next (link q x)) vs r None" ..
  then have "dseg ?q (Next e) (le_next (link q x)) vs (end_ref (Next e) vs) None"
  proof (rule dseg_relink)
    show "link ?q y = (if le_next (link q x) = Some y
        then (link q y)\<lparr>le_prev := Some (Next e)\<rparr> else link q y)" if "y \<in> set vs" for y
      using that assms(2) d by (auto simp: lk)
  qed (use d in simp)
  ultimately have "dseg ?q (Head h) (lh_first ?q h) (us @ x # e # vs) (end_ref (Next e) vs) None"
    using around(1) \<open>x \<noteq> e\<close> by (auto simp: dseg_append lk)
  then show ?thesis using d assms(2) by (intro lstI) auto
qed

text \<open>Inserting before an element is inserting after its predecessor, or at the head.\<close>

lemma insert_before_eq:
  assumes "lst q h (us @ x # vs)" and "e \<notin> set (us @ x # vs)"
  shows "LIST_INSERT_BEFORE q x e =
    Some (if us = [] then LIST_INSERT_HEAD q h e else LIST_INSERT_AFTER q (last us) e)"
proof (cases us rule: rev_cases)
  case Nil
  then have "le_prev (link q x) = Some (Head h)" "lh_first q h = Some x"
    using lst_around(1,3) [OF assms(1)] by (simp_all add: end_ref_def)
  then show ?thesis using Nil assms(2)
    by (auto simp: LIST_INSERT_BEFORE_def LIST_INSERT_HEAD_def queue_macros queue_upd Let_def fun_eq_iff)
next
  case (snoc us0 u)
  then have "le_prev (link q x) = Some (Next u)" "le_next (link q u) = Some x"
    using lst_around(1) [OF assms(1)] lst_around(2) [of q h us0 u "x # vs"] assms(1)
    by (simp_all add: end_ref_def)
  moreover have "u \<noteq> x" "u \<noteq> e" "x \<noteq> e" using lst_distinct [OF assms(1)] snoc assms(2) by auto
  ultimately show ?thesis using snoc
    by (auto simp: LIST_INSERT_BEFORE_def LIST_INSERT_AFTER_def queue_macros queue_upd Let_def fun_eq_iff)
qed

lemma lst_insert_before:
  assumes "lst q h (us @ x # vs)" and "e \<notin> set (us @ x # vs)"
  shows "\<exists>q'. LIST_INSERT_BEFORE q x e = Some q' \<and> lst q' h (us @ e # x # vs)"
proof (cases us rule: rev_cases)
  case Nil
  then show ?thesis
    using insert_before_eq [OF assms] lst_insert_head [of q h "x # vs" e] assms by simp
next
  case (snoc us0 u)
  then show ?thesis
    using insert_before_eq [OF assms] lst_insert_after [of q h us0 u "x # vs" e] assms by simp
qed

lemma insert_tail_walk_eq:
  "dseg q r (Some n) (n # xs) r' None \<Longrightarrow> e \<notin> set (n # xs) \<Longrightarrow>
    insert_tail_walk q e n = Some (set_next e (Some (last (n # xs))) q, last (n # xs))"
proof (induction xs arbitrary: q r n)
  case Nil
  then show ?case
    by (subst insert_tail_walk.simps) (simp add: queue_macros queue_upd Let_def)
next
  case (Cons y ys)
  let ?q = "set_next e (Some n) q"
  have keep: "link ?q z = link q z" if "z \<noteq> e" for z using that by (simp add: set_next_def)
  from Cons.prems have y: "le_next (link q n) = Some y" "dseg q (Next n) (Some y) (y # ys) r' None"
    by auto
  have "dseg ?q (Next n) (Some y) (y # ys) r' None"
    using y(2) Cons.prems(2) by (subst dseg_cong [where q' = q]) (auto simp: set_next_def)
  then have "insert_tail_walk ?q e y = Some (set_next e (Some (last (y # ys))) ?q, last (y # ys))"
    using Cons.prems(2) by (intro Cons.IH) auto
  moreover have "set_next e v ?q = set_next e v q" for v by (simp add: set_next_def)
  moreover have "LIST_NEXT ?q n = Some y" using y(1) keep [of n] Cons.prems(2) by (auto simp: LIST_NEXT_def)
  ultimately show ?case by (subst insert_tail_walk.simps) (simp add: Let_def)
qed

lemma insert_tail_eq:
  assumes "lst q h xs" and "e \<notin> set xs" and "xs \<noteq> []"
  shows "LIST_INSERT_TAIL q h e = Some (LIST_INSERT_AFTER q (last xs) e)"
proof -
  obtain f fs where xs: "xs = f # fs" using assms(3) by (cases xs) auto
  obtain us l where l: "xs = us @ [l]" using assms(3) by (cases xs rule: rev_cases) auto
  have "dseg q (Head h) (Some f) (f # fs) (end_ref (Head h) xs) None" and f: "lh_first q h = Some f"
    using assms(1) xs by (auto simp: lst_def)
  have "last (f # fs) = l" using xs l by (metis last_snoc)
  with insert_tail_walk_eq [OF \<open>dseg q (Head h) (Some f) (f # fs) _ None\<close>, of e] have
    "insert_tail_walk q e f = Some (set_next e (Some l) q, l)" using assms(2) xs by simp
  moreover have "le_next (link q l) = None" using lst_around(2) [of q h us l "[]"] assms(1) l by simp
  moreover have "l \<noteq> e" using l assms(2) by auto
  ultimately show ?thesis using f l
    by (auto simp: LIST_INSERT_TAIL_def LIST_INSERT_AFTER_def queue_macros queue_upd Let_def fun_eq_iff)
qed

lemma lst_insert_tail:
  assumes "lst q h xs" and "e \<notin> set xs"
  shows "\<exists>q'. LIST_INSERT_TAIL q h e = Some q' \<and> lst q' h (xs @ [e])"
proof (cases xs rule: rev_cases)
  case Nil
  then show ?thesis using assms lst_insert_head [OF assms] lst_first [OF assms(1)]
    by (simp add: LIST_INSERT_TAIL_def LIST_FIRST_def)
next
  case (snoc us l)
  then show ?thesis using assms insert_tail_eq [OF assms] lst_insert_after [of q h us l "[]" e] by simp
qed

subsection \<open>Traversal\<close>

lemma foreach_dseg: "dseg q r p xs r' None \<Longrightarrow> foreach_from q p = Some xs"
proof (induction xs arbitrary: r p)
  case (Cons x xs)
  then show ?case by (subst foreach_from.simps) (auto simp: LIST_NEXT_def)
qed (simp add: foreach_from.simps)

lemma foreach_lst: "lst q h xs \<Longrightarrow> LIST_FOREACH q h = Some xs"
  by (auto simp: LIST_FOREACH_def LIST_FIRST_def lst_def intro: foreach_dseg)

text \<open>A list is determined by its head: no other sequence is held there.\<close>

lemma lst_unique: "lst q h xs \<Longrightarrow> lst q h ys \<Longrightarrow> xs = ys"
  by (metis foreach_lst option.inject)

lemma foreach_self_loop:
  assumes "LIST_NEXT q x = Some x"
  shows "foreach_from q (Some x) = None"
proof (rule ccontr)
  assume "foreach_from q (Some x) \<noteq> None"
  then obtain ys where ys: "foreach_from q (Some x) = Some ys" by auto
  have "foreach_from q (Some x) = do { xs \<leftarrow> foreach_from q (LIST_NEXT q x); Some (x # xs) }"
    by (subst foreach_from.simps) simp
  then have "Some ys = Some (x # ys)" using ys assms by simp
  then show False by simp
qed

subsection \<open>The interface of intrusive lists\<close>

text \<open>
  What the clients of the lists rely on: \<open>rep q h xs\<close> relates the links to the sequence at each
  head, insertion prepends, and removal of a member deletes it, each without disturbing the
  other heads' lists.
\<close>

locale intrusive_lists =
  fixes first :: "'q \<Rightarrow> 'h \<Rightarrow> 'a option"
    and insert_head :: "'q \<Rightarrow> 'h \<Rightarrow> 'a \<Rightarrow> 'q"
    and remove :: "'q \<Rightarrow> 'a \<Rightarrow> 'q option"
    and rep :: "'q \<Rightarrow> 'h \<Rightarrow> 'a list \<Rightarrow> bool"
  assumes rep_distinct: "rep q h xs \<Longrightarrow> distinct xs"
    and rep_first: "rep q h xs \<Longrightarrow> first q h = (case xs of [] \<Rightarrow> None | x # _ \<Rightarrow> Some x)"
    and rep_insert: "rep q h xs \<Longrightarrow> x \<notin> set xs \<Longrightarrow> rep (insert_head q h x) h (x # xs)"
    and rep_insert_other: "rep q h xs \<Longrightarrow> rep q h' ys \<Longrightarrow> h \<noteq> h' \<Longrightarrow> x \<notin> set xs \<union> set ys \<Longrightarrow>
      set xs \<inter> set ys = {} \<Longrightarrow> rep (insert_head q h x) h' ys"
    and rep_remove: "rep q h (us @ x # vs) \<Longrightarrow> \<exists>q'. remove q x = Some q' \<and> rep q' h (us @ vs) \<and>
      (\<forall>h' ys. h' \<noteq> h \<longrightarrow> rep q h' ys \<longrightarrow> set (us @ x # vs) \<inter> set ys = {} \<longrightarrow> rep q' h' ys)"
begin

text \<open>Taking the first element: what \<^verbatim>\<open>page_alloc\<close> and \<^verbatim>\<open>env_alloc\<close> do.\<close>

lemma rep_pop:
  assumes "rep q h (x # xs)"
  shows "first q h = Some x" "\<exists>q'. remove q x = Some q' \<and> rep q' h xs"
  using rep_first [OF assms] rep_remove [of q h "[]" x xs] assms by auto

lemma rep_empty: "rep q h [] \<Longrightarrow> first q h = None"
  by (simp add: rep_first)

lemma rep_remove1:
  assumes "rep q h xs" and "x \<in> set xs"
  shows "\<exists>q'. remove q x = Some q' \<and> rep q' h (remove1 x xs)"
proof -
  from assms(2) obtain us vs where xs: "xs = us @ x # vs" by (auto simp: in_set_conv_decomp)
  then have "x \<notin> set us" using rep_distinct [OF assms(1)] by auto
  then have "remove1 x xs = us @ vs" using xs by (simp add: remove1_append)
  then show ?thesis using rep_remove [of q h us x vs] assms(1) xs by auto
qed

text \<open>Freeing an element and allocating again gives it back and restores the list.\<close>

lemma rep_push_pop:
  assumes "rep q h xs" and "x \<notin> set xs"
  shows "first (insert_head q h x) h = Some x"
    "\<exists>q'. remove (insert_head q h x) x = Some q' \<and> rep q' h xs"
  using rep_pop [OF rep_insert [OF assms]] by auto

text \<open>The loops that fill a free list.\<close>

lemma rep_insert_all:
  "rep q h xs \<Longrightarrow> distinct ys \<Longrightarrow> set ys \<inter> set xs = {} \<Longrightarrow>
    rep (fold (\<lambda>y q. insert_head q h y) ys q) h (rev ys @ xs)"
proof (induction ys arbitrary: q xs)
  case (Cons y ys)
  then have "rep (insert_head q h y) h (y # xs)" by (intro rep_insert) auto
  then have "rep (fold (\<lambda>y q. insert_head q h y) ys (insert_head q h y)) h (rev ys @ (y # xs))"
    using Cons.prems by (intro Cons.IH) auto
  then show ?case by simp
qed simp

end

lemma lst_remove_rep:
  assumes "lst q h (us @ x # vs)"
  shows "\<exists>q'. LIST_REMOVE q x = Some q' \<and> lst q' h (us @ vs) \<and> (\<forall>h' ys. h' \<noteq> h \<longrightarrow>
      lst q h' ys \<longrightarrow> set (us @ x # vs) \<inter> set ys = {} \<longrightarrow> lst q' h' ys)"
proof -
  from lst_remove [OF assms] obtain q' where q': "LIST_REMOVE q x = Some q'" "lst q' h (us @ vs)"
    and f: "\<And>h'. h' \<noteq> h \<Longrightarrow> lh_first q' h' = lh_first q h'"
    and k: "\<And>y. y \<notin> set (us @ x # vs) \<Longrightarrow> link q' y = link q y" by blast
  have "lst q' h' ys" if "h' \<noteq> h" "lst q h' ys" "set (us @ x # vs) \<inter> set ys = {}" for h' ys
    using that by (intro lst_frame [OF that(2)] f k) auto
  with q' show ?thesis by blast
qed

interpretation il: intrusive_lists LIST_FIRST LIST_INSERT_HEAD LIST_REMOVE lst
proof (unfold_locales, goal_cases)
  case (5 q h us x vs)
  then show ?case by (rule lst_remove_rep)
qed (auto simp: lst_distinct lst_first LIST_FIRST_def lst_insert_head intro: lst_insert_head_other)

lemma lst_init: "lst (LIST_INIT q h) h []"
  by (simp add: lst_def LIST_INIT_def set_first_def end_ref_def)

subsection \<open>Inserting an element twice\<close>

text \<open>A chain of \<^verbatim>\<open>le_next\<close> pointers, and what a traversal makes of it.\<close>

fun chain :: "('h, 'a) lists \<Rightarrow> 'a \<Rightarrow> 'a list \<Rightarrow> 'a \<Rightarrow> bool" where
  "chain q x [] y \<longleftrightarrow> LIST_NEXT q x = Some y"
| "chain q x (z # zs) y \<longleftrightarrow> LIST_NEXT q x = Some z \<and> chain q z zs y"

lemma foreach_Some: "foreach_from q (Some x) = Some ys \<Longrightarrow>
    \<exists>zs. ys = x # zs \<and> foreach_from q (LIST_NEXT q x) = Some zs"
  by (subst (asm) foreach_from.simps) (auto simp: bind_eq_Some_conv)

lemma foreach_chain: "chain q x zs y \<Longrightarrow> foreach_from q (Some x) = Some ys \<Longrightarrow>
    \<exists>ys'. ys = x # zs @ ys' \<and> foreach_from q (Some y) = Some ys'"
proof (induction zs arbitrary: x ys)
  case Nil
  then show ?case by (auto dest!: foreach_Some)
next
  case (Cons z zs)
  then obtain ws where "ys = x # ws" "foreach_from q (Some z) = Some ws"
    by (auto dest!: foreach_Some)
  then show ?case using Cons.IH [of z ws] Cons.prems(1) by auto
qed

lemma foreach_cycle:
  assumes "chain q x zs x"
  shows "foreach_from q (Some x) = None"
proof (cases "foreach_from q (Some x)")
  case (Some ys)
  from foreach_chain [OF assms Some] Some obtain ys' where "ys = x # zs @ ys'" "ys' = ys" by auto
  then have "length ys = Suc (length zs + length ys)" by (metis length_Cons length_append)
  then show ?thesis by simp
qed

lemma chain_dseg:
  assumes "dseg q r (Some u) (u # us) r' (Some x)" and "x \<notin> set (u # us)"
    and "\<And>y. y \<in> set (u # us) \<Longrightarrow> LIST_NEXT q' y = LIST_NEXT q y"
  shows "chain q' u us x"
  using assms
proof (induction us arbitrary: r u)
  case (Cons v us)
  then have v: "LIST_NEXT q' u = Some v" by (auto simp: LIST_NEXT_def)
  have "chain q' v us x" using Cons.prems by (intro Cons.IH [of "Next u"]) auto
  then show ?case using v by simp
qed (simp add: LIST_NEXT_def)

lemma insert_head_next:
  "LIST_NEXT (LIST_INSERT_HEAD q h x) y = (if y = x then lh_first q h else LIST_NEXT q y)"
  by (auto simp: LIST_INSERT_HEAD_def queue_macros queue_upd Let_def split: option.splits)

lemma insert_head_member:
  assumes "lst q h xs" and "x \<in> set xs"
  shows "LIST_FOREACH (LIST_INSERT_HEAD q h x) h = None"
proof -
  let ?q = "LIST_INSERT_HEAD q h x"
  from assms(2) obtain us vs where xs: "xs = us @ x # vs" by (auto simp: in_set_conv_decomp)
  have ux: "x \<notin> set us" using lst_distinct [OF assms(1)] xs by auto
  note a = lst_around(3) [of q h us x vs, OF assms(1) [unfolded xs]]
  have "\<exists>zs. chain ?q x zs x"
  proof (cases us)
    case Nil
    then have "LIST_NEXT ?q x = Some x" using a by (simp add: insert_head_next)
    then show ?thesis by (intro exI [of _ "[]"]) simp
  next
    case (Cons u us')
    then have u: "lh_first q h = Some u" using a by simp
    have "chain ?q u us' x"
      using a ux Cons u by (intro chain_dseg [of q "Head h" _ _ _ x]) (auto simp: insert_head_next)
    then show ?thesis using u by (intro exI [of _ "u # us'"]) (simp add: insert_head_next)
  qed
  then show ?thesis using foreach_cycle by (auto simp: LIST_FOREACH_def LIST_FIRST_def insert_head_first)
qed

subsection \<open>Properties\<close>

definition no_lists :: "('h, 'a) lists" where
  "no_lists = \<lparr>lh_first = \<lambda>_. None, link = \<lambda>_. \<lparr>le_next = None, le_prev = None\<rparr>\<rparr>"

lemma lst_no_lists [simp]: "lst no_lists h []"
  by (simp add: lst_def no_lists_def end_ref_def)

definition one_list :: "(unit, u64) lists" where
  "one_list = LIST_INSERT_HEAD no_lists () 1"

lemma lst_one_list: "lst one_list () [1]"
  using lst_insert_head [of no_lists "()" "[]" "1 :: u64"] by (simp add: one_list_def)

text \<open>C28: the four insertion macros put an element that is not in a list at its place (at the head,
  at the end, before or after a member) and keep the order of the others: this is what a traversal
  of the new list visits, and it ends.\<close>

lemma queue_insertions:
  assumes "lst q h (us @ x # vs)" and "e \<notin> set (us @ x # vs)"
  shows "LIST_FOREACH (LIST_INSERT_HEAD q h e) h = Some (e # us @ x # vs) \<and>
    (\<exists>q'. LIST_INSERT_TAIL q h e = Some q' \<and> LIST_FOREACH q' h = Some (us @ x # vs @ [e])) \<and>
    (\<exists>q'. LIST_INSERT_BEFORE q x e = Some q' \<and> LIST_FOREACH q' h = Some (us @ e # x # vs)) \<and>
    LIST_FOREACH (LIST_INSERT_AFTER q x e) h = Some (us @ x # e # vs)"
  using foreach_lst [OF lst_insert_head [OF assms]] foreach_lst [OF lst_insert_after [OF assms]]
    lst_insert_tail [OF assms] lst_insert_before [OF assms] foreach_lst by fastforce

lemma queue_insertions_witness:
  "LIST_FOREACH (LIST_INSERT_AFTER one_list 1 2) () = Some [1, 2]"
  using queue_insertions [of one_list "()" "[]" 1 "[]" 2] lst_one_list by simp

text \<open>C27: \<open>LIST_REMOVE\<close> of a member, wherever it stands, leaves exactly the other members in
  order, and no other list that shares the link field changes.\<close>

lemma queue_remove:
  assumes "lst q h (us @ x # vs)"
  shows "\<exists>q'. LIST_REMOVE q x = Some q' \<and> LIST_FOREACH q' h = Some (us @ vs) \<and>
    (\<forall>h' ys. h' \<noteq> h \<longrightarrow> lst q h' ys \<longrightarrow> set (us @ x # vs) \<inter> set ys = {} \<longrightarrow>
      LIST_FOREACH q' h' = Some ys)"
  using lst_remove_rep [OF assms] foreach_lst by fast

lemma queue_remove_witness:
  "\<exists>q'. LIST_REMOVE (LIST_INSERT_HEAD one_list () 2) 1 = Some q' \<and> LIST_FOREACH q' () = Some [2]"
  using queue_remove [of "LIST_INSERT_HEAD one_list () 2" "()" "[2]" 1 "[]"]
    lst_insert_head [OF lst_one_list, of 2] by auto

text \<open>Inserting a member of a list at its head again closes a cycle: every later traversal of
  the list runs for ever.\<close>

lemma queue_double_insert:
  assumes "lst q h xs" and "x \<in> set xs"
  shows "LIST_FOREACH (LIST_INSERT_HEAD q h x) h = None"
  by (rule insert_head_member [OF assms])

lemma queue_double_insert_witness: "LIST_FOREACH (LIST_INSERT_HEAD one_list () 1) () = None"
  using queue_double_insert [OF lst_one_list, of 1] by simp

end
