(* ===== verification/Lp_Print.thy ===== *)
theory Lp_Print
  imports Kernel_Prelude "HOL-Library.Char_ord"
begin

text \<open>
  The formatted output of \<^verbatim>\<open>lib/print.c\<close> (with the output routine of \<^verbatim>\<open>lib/printf.c\<close>).
  A format string and the strings it prints are lists of characters without their terminating
  NUL; the fixed buffer of \<^verbatim>\<open>LP_MAX_BUF\<close> characters is a list, and a write outside it is
  \<open>None\<close>.

  \<open>PrintNum\<close> writes a number backwards, pads and reverses in place; it is proved equal to the
  direct rendering \<open>num_field\<close>.
\<close>

subsection \<open>The buffer\<close>

definition LP_MAX_BUF :: nat where "LP_MAX_BUF = 1000"

definition put :: "nat \<Rightarrow> char \<Rightarrow> string \<Rightarrow> string option" where
  "put i c buf = (if i < length buf then Some (buf[i := c]) else None)"

text \<open>\<open>for (i = a; i < b; i++) buf[i] = f(i)\<close>\<close>

function put_range :: "nat \<Rightarrow> nat \<Rightarrow> (nat \<Rightarrow> char) \<Rightarrow> string \<Rightarrow> string option" where
  "put_range a b f buf =
     (if a < b then do { buf \<leftarrow> put a (f a) buf; put_range (Suc a) b f buf } else Some buf)"
  by pat_completeness auto
termination
  by (relation "measure (\<lambda>(a, b, _). b - a)") auto

declare put_range.simps [simp del]

subsection \<open>Characters and strings\<close>

text \<open>The result is the length of the field and the buffer.\<close>

definition PrintChar :: "string \<Rightarrow> char \<Rightarrow> int \<Rightarrow> bool \<Rightarrow> (int \<times> string) option" where
  "PrintChar buf c width ladjust =
     (let width = (if width < 1 then 1 else width) in
      do { buf \<leftarrow>
             (if ladjust
              then do { buf \<leftarrow> put 0 c buf; put_range 1 (nat width) (\<lambda>_. CHR '' '') buf }
              else do { buf \<leftarrow> put_range 0 (nat (width - 1)) (\<lambda>_. CHR '' '') buf;
                        put (nat (width - 1)) c buf });
           Some (width, buf) })"

definition PrintString :: "string \<Rightarrow> string \<Rightarrow> int \<Rightarrow> bool \<Rightarrow> (int \<times> string) option" where
  "PrintString buf s width ladjust =
     (let len = length s;
          width = (if width < int len then int len else width);
          w = nat width in
      do { buf \<leftarrow>
             (if ladjust
              then do { buf \<leftarrow> put_range 0 len (\<lambda>i. s ! i) buf;
                        put_range len w (\<lambda>_. CHR '' '') buf }
              else do { buf \<leftarrow> put_range 0 (w - len) (\<lambda>_. CHR '' '') buf;
                        put_range (w - len) w (\<lambda>i. s ! (i + len - w)) buf });
           Some (width, buf) })"

subsection \<open>Numbers\<close>

definition digit_char :: "bool \<Rightarrow> nat \<Rightarrow> char" where
  "digit_char upcase tmp =
     (if tmp \<le> 9 then char_of (48 + tmp)
      else if upcase then char_of (65 + tmp - 10)
      else char_of (97 + tmp - 10))"

text \<open>
  The do-while loop: the characters written through \<open>*p++\<close>, least significant digit first. It
  does not return for base 1.
\<close>

partial_function (option) num_digits :: "u64 \<Rightarrow> bool \<Rightarrow> u64 \<Rightarrow> string option" where
  "num_digits base upcase u =
     (let c = digit_char upcase (unat (u mod base)); u = u div base in
      if u \<noteq> 0 then do { cs \<leftarrow> num_digits base upcase u; Some (c # cs) } else Some [c])"

fun reverse_range :: "string \<Rightarrow> nat \<Rightarrow> nat \<Rightarrow> string" where
  "reverse_range buf begn ed =
     (if ed > begn
      then reverse_range (buf[begn := buf ! ed, ed := buf ! begn]) (Suc begn) (ed - 1)
      else buf)"

declare reverse_range.simps [simp del]

definition PrintNum :: "string \<Rightarrow> u64 \<Rightarrow> u64 \<Rightarrow> bool \<Rightarrow> int \<Rightarrow> bool \<Rightarrow> char \<Rightarrow> bool \<Rightarrow>
    (int \<times> string) option" where
  "PrintNum buf u base negFlag width ladjust padc upcase =
     do { ds \<leftarrow> num_digits base upcase u;
          let cs = (if negFlag then ds @ [CHR ''-''] else ds);
          buf \<leftarrow> put_range 0 (length cs) (\<lambda>i. cs ! i) buf;
          let actualLength = length cs;
          let width = (if width < int actualLength then int actualLength else width);
          let w = nat width;
          let padc = (if ladjust then CHR '' '' else padc);
          buf \<leftarrow>
            (if negFlag \<and> \<not> ladjust \<and> padc = CHR ''0''
             then do { buf \<leftarrow> put_range (actualLength - 1) (w - 1) (\<lambda>_. padc) buf;
                       put (w - 1) (CHR ''-'') buf }
             else put_range actualLength w (\<lambda>_. padc) buf);
          let ed = (if ladjust then actualLength - 1 else w - 1);
          Some (width, reverse_range buf 0 ed) }"

subsection \<open>The format loop\<close>

text \<open>
  The argument list, one 64-bit slot per argument: a number, or a pointer to a string.
  \<open>va_int\<close> reads the low 32 bits of a slot as a signed \<^verbatim>\<open>int\<close> and widens it.
\<close>

datatype va_arg = VA_num u64 | VA_str string

definition va_int :: "u64 \<Rightarrow> u64" where
  "va_int a = scast (ucast a :: u32)"

text \<open>How a call of \<^verbatim>\<open>lp_Print\<close> ends: it returns, it prints the fatal message and loops for
  ever, or it does what C leaves undefined (a write outside the buffer, a missing argument, an
  overflowing width).\<close>

datatype lp_end = Finished | Fatal | Undefined

definition theFatalMsg :: string where "theFatalMsg = ''fatal error in lp_Print!''"

text \<open>\<^verbatim>\<open>myoutput\<close>: the characters sent to the UART, none for the special termination call.\<close>

definition myoutput :: "string \<Rightarrow> nat \<Rightarrow> string" where
  "myoutput s l = (if l = 1 \<and> s ! 0 = CHR 0x00 then [] else take l s)"

text \<open>\<^verbatim>\<open>OUTPUT\<close>: the text, and whether the routine goes on.\<close>

definition OUTPUT :: "string \<Rightarrow> int \<Rightarrow> string \<times> bool" where
  "OUTPUT s l =
     (if l < 0 \<or> l > int LP_MAX_BUF
      then (myoutput theFatalMsg (length theFatalMsg), False)
      else (myoutput s (nat l), True))"

definition IsDigit :: "char \<Rightarrow> bool" where
  "IsDigit x \<longleftrightarrow> CHR ''0'' \<le> x \<and> x \<le> CHR ''9''"

definition Ctod :: "char \<Rightarrow> int" where
  "Ctod x = int (of_char x) - 48"

definition INT_MAX :: int where "INT_MAX = 2147483647"

text \<open>The digit loops of width and precision: the number read, \<open>None\<close> when an \<^verbatim>\<open>int\<close> overflows,
  and the rest of the format.\<close>

fun scan_num :: "int \<Rightarrow> string \<Rightarrow> (int \<times> string) option" where
  "scan_num n [] = Some (n, [])"
| "scan_num n (c # cs) =
     (if IsDigit c
      then (if 10 * n + Ctod c > INT_MAX then None else scan_num (10 * n + Ctod c) cs)
      else Some (n, c # cs))"

text \<open>The prefixes after a percent sign.\<close>

record spec =
  longFlag :: bool
  ladjust :: bool
  padc :: char
  width :: int

definition eat :: "char \<Rightarrow> string \<Rightarrow> bool \<times> string" where
  "eat c s = (case s of [] \<Rightarrow> (False, []) | x # xs \<Rightarrow> if x = c then (True, xs) else (False, s))"

definition scan_spec :: "string \<Rightarrow> (spec \<times> string) option" where
  "scan_spec fmt =
     (let (lg, fmt) = eat (CHR ''l'') fmt;
          (la, fmt) = eat (CHR ''-'') fmt;
          (zero, fmt) = eat (CHR ''0'') fmt in
      do { (w, fmt) \<leftarrow> scan_num 0 fmt;
           let (dot, fmt) = eat (CHR ''.'') fmt;
           (_, fmt) \<leftarrow> (if dot then scan_num 0 fmt else Some (0, fmt));
           Some (\<lparr>longFlag = lg, ladjust = la, padc = (if zero then CHR ''0'' else CHR '' ''),
                  width = w\<rparr>, fmt) })"

text \<open>
  The field a conversion prints from the first remaining argument, by the conversion character.
  The buffer's old content never reaches the output, so it starts as any \<^verbatim>\<open>LP_MAX_BUF\<close> characters.
  Negating the most negative \<^verbatim>\<open>long\<close>, which C leaves undefined, wraps round here.
\<close>

definition blank_buf :: string where "blank_buf = replicate LP_MAX_BUF (CHR 0x00)"

definition number_field :: "spec \<Rightarrow> char \<Rightarrow> u64 \<Rightarrow> (int \<times> string) option" where
  "number_field sp c slot =
     (let num = (if longFlag sp then slot else va_int slot);
          conv = (\<lambda>num base neg up. PrintNum blank_buf num base neg (width sp) (ladjust sp) (padc sp) up) in
      if c = CHR ''b'' then conv num 2 False False
      else if c \<in> {CHR ''i'', CHR ''d'', CHR ''D''} then
        (if sint num < 0 then conv (- num) 10 True False else conv num 10 False False)
      else if c \<in> {CHR ''o'', CHR ''O''} then conv num 8 False False
      else if c \<in> {CHR ''u'', CHR ''U''} then conv num 10 False False
      else if c = CHR ''x'' then conv num 16 False False
      else conv num 16 False True)"

definition conversion :: "spec \<Rightarrow> char \<Rightarrow> va_arg list \<Rightarrow> ((int \<times> string) \<times> va_arg list) option" where
  "conversion sp c ap =
     (case ap of
        VA_num n # ap' \<Rightarrow>
          (if c = CHR ''s'' then None
           else map_option (\<lambda>r. (r, ap'))
             (if c = CHR ''c'' then PrintChar blank_buf (char_of (unat (ucast n :: u8))) (width sp) (ladjust sp)
              else number_field sp c n))
      | VA_str s # ap' \<Rightarrow>
          (if c = CHR ''s''
           then map_option (\<lambda>r. (r, ap')) (PrintString blank_buf s (width sp) (ladjust sp))
           else None)
      | [] \<Rightarrow> None)"

definition is_conversion :: "char \<Rightarrow> bool" where
  "is_conversion c \<longleftrightarrow> c \<in> set ''bidDoOuUxXcs''"

lemma scan_num_length: "scan_num n cs = Some (m, cs') \<Longrightarrow> length cs' \<le> length cs"
  by (induction n cs rule: scan_num.induct) (auto split: if_splits)

lemma eat_length: "eat c s = (b, s') \<Longrightarrow> length s' \<le> length s"
  by (auto simp: eat_def split: list.splits if_splits)

lemma scan_spec_length: "scan_spec s = Some (sp, s') \<Longrightarrow> length s' \<le> length s"
  by (auto simp: scan_spec_def split: Option.bind_splits if_splits prod.splits
      dest!: scan_num_length eat_length)

lemma lp_loop_shrinks:
  assumes "dropWhile P fmt = x # fmt'" and "scan_spec fmt' = Some (sp, s)"
  shows "length s < length fmt"
proof -
  have "length (x # fmt') \<le> length fmt" using length_dropWhile_le [of P fmt] assms(1) by simp
  then show ?thesis using scan_spec_length [OF assms(2)] by simp
qed

function lp_loop :: "string \<Rightarrow> va_arg list \<Rightarrow> string \<times> lp_end" where
  "lp_loop fmt ap =
     (let run = takeWhile (\<lambda>c. c \<noteq> CHR ''%'') fmt;
          (txt, ok) = OUTPUT run (int (length run));
          emit = (\<lambda>t r. (t @ fst r, snd r)) in
      if \<not> ok then (txt, Fatal)
      else case dropWhile (\<lambda>c. c \<noteq> CHR ''%'') fmt of
        [] \<Rightarrow> (txt, Finished)
      | _ # fmt' \<Rightarrow>
          (case scan_spec fmt' of
             None \<Rightarrow> (txt, Undefined)
           | Some (sp, []) \<Rightarrow> emit txt (lp_loop [] ap)
           | Some (sp, c # rest) \<Rightarrow>
               if is_conversion c
               then (case conversion sp c ap of
                       None \<Rightarrow> (txt, Undefined)
                     | Some ((l, buf), ap') \<Rightarrow>
                         (let (t, ok) = OUTPUT buf l in
                          if ok then emit (txt @ t) (lp_loop rest ap') else (txt @ t, Fatal)))
               else emit (txt @ fst (OUTPUT (c # rest) 1)) (lp_loop rest ap)))"
  by pat_completeness auto
termination
  by (relation "measure (\<lambda>(fmt, _). length fmt)")
    (auto dest: lp_loop_shrinks Suc_lessD)

declare lp_loop.simps [simp del]

text \<open>The special termination call at the end prints nothing.\<close>

definition lp_Print :: "string \<Rightarrow> va_arg list \<Rightarrow> string \<times> lp_end" where
  "lp_Print fmt ap = lp_loop fmt ap"

subsection \<open>The loops on the buffer\<close>

lemma put_range_eq:
  "a \<le> b \<Longrightarrow> b \<le> length buf \<Longrightarrow>
    put_range a b f buf = Some (take a buf @ map f [a..<b] @ drop b buf)"
proof (induction a b f buf rule: put_range.induct)
  case (1 a b f buf)
  show ?case
  proof (cases "a < b")
    case True
    then have "put a (f a) buf = Some (buf[a := f a])" using 1(3) by (simp add: put_def)
    moreover from 1(1) [OF True calculation] True 1(3) have
      "put_range (Suc a) b f (buf[a := f a]) = Some (take a buf @ f a # map f [Suc a..<b] @ drop b buf)"
      by (simp add: take_Suc_conv_app_nth)
    ultimately show ?thesis using True by (simp add: put_range.simps [of a] upt_conv_Cons)
  next
    case False
    then show ?thesis using 1(2) by (simp add: put_range.simps)
  qed
qed

lemma put_range_out: "a < b \<Longrightarrow> length buf < b \<Longrightarrow> put_range a b f buf = None"
proof (induction a b f buf rule: put_range.induct)
  case (1 a b f buf)
  show ?case
  proof (cases "put a (f a) buf")
    case None
    then show ?thesis using 1(2) by (simp add: put_range.simps [of a])
  next
    case (Some buf')
    then have b: "length buf' = length buf" "a < length buf" by (auto simp: put_def split: if_splits)
    then have "put_range (Suc a) b f buf' = None" using 1(1) [OF 1(2) Some] 1(2,3) Some
      by (cases "Suc a < b") auto
    then show ?thesis using Some 1(2) by (simp add: put_range.simps [of a])
  qed
qed

lemma put_range_empty: "b \<le> a \<Longrightarrow> put_range a b f buf = Some buf"
  by (simp add: put_range.simps)

lemma reverse_range_eq:
  "b < length buf \<Longrightarrow> a \<le> Suc b \<Longrightarrow>
    reverse_range buf a b = take a buf @ rev (take (Suc b - a) (drop a buf)) @ drop (Suc b) buf"
proof (induction buf a b rule: reverse_range.induct)
  case (1 buf a b)
  show ?case
  proof (cases "a < b")
    case True
    let ?buf = "buf[a := buf ! b, b := buf ! a]"
    have "reverse_range buf a b = reverse_range ?buf (Suc a) (b - 1)"
      using True by (simp add: reverse_range.simps [of buf])
    also have "\<dots> = take (Suc a) ?buf @ rev (take (b - Suc a) (drop (Suc a) ?buf)) @ drop b ?buf"
      using 1(1) [OF True] 1(2) True by simp
    also have "take (Suc a) ?buf = take a buf @ [buf ! b]"
      using True 1(2) by (simp add: take_Suc_conv_app_nth)
    also have "drop b ?buf = buf ! a # drop (Suc b) buf"
      using True 1(2) by (simp add: Cons_nth_drop_Suc [symmetric])
    also have "take (b - Suc a) (drop (Suc a) ?buf) = take (b - Suc a) (drop (Suc a) buf)"
      using True by (simp add: drop_update_swap take_update_swap list_update_beyond)
    finally have lhs: "reverse_range buf a b =
      take a buf @ buf ! b # rev (take (b - Suc a) (drop (Suc a) buf)) @ buf ! a # drop (Suc b) buf" by simp
    have "Suc b - a = Suc (Suc (b - Suc a))" using True by simp
    moreover have "drop a buf = buf ! a # drop (Suc a) buf"
      using True 1(2) by (simp add: Cons_nth_drop_Suc)
    moreover have "take (Suc (b - Suc a)) (drop (Suc a) buf) =
      take (b - Suc a) (drop (Suc a) buf) @ [buf ! b]"
      using True 1(2) by (subst take_Suc_conv_app_nth) auto
    ultimately show ?thesis using lhs by simp
  next
    case False
    then have "a = b \<or> a = Suc b" using 1(3) by auto
    then show ?thesis using False 1(2)
      by (auto simp: reverse_range.simps [of buf] Cons_nth_drop_Suc take_Suc id_take_nth_drop
          hd_drop_conv_nth)
  qed
qed

subsection \<open>Numbers\<close>

text \<open>A number written in a base, most significant digit first, and the field it is printed in.\<close>

function numeral_in :: "nat \<Rightarrow> bool \<Rightarrow> nat \<Rightarrow> string" where
  "numeral_in b up n =
     (if n < b \<or> b < 2 then [digit_char up n] else numeral_in b up (n div b) @ [digit_char up (n mod b)])"
  by pat_completeness auto
termination
  by (relation "measure (\<lambda>(_, _, n). n)") auto

declare numeral_in.simps [simp del]

definition num_field :: "string \<Rightarrow> bool \<Rightarrow> nat \<Rightarrow> bool \<Rightarrow> char \<Rightarrow> string" where
  "num_field ds neg w left pad =
     (let sign = (if neg then ''-'' else []);
          fill = (\<lambda>c. replicate (w - length (sign @ ds)) c) in
      if left then sign @ ds @ fill (CHR '' '')
      else if pad = CHR ''0'' then sign @ fill pad @ ds
      else fill pad @ sign @ ds)"

lemma num_digits_eq:
  assumes "2 \<le> base"
  shows "num_digits base up u = Some (rev (numeral_in (unat base) up (unat u)))"
proof (induction "unat u" arbitrary: u rule: less_induct)
  case less
  have b: "2 \<le> unat base" using assms by (simp add: word_le_nat_alt)
  have d: "unat (u div base) = unat u div unat base" "unat (u mod base) = unat u mod unat base"
    by (simp_all add: unat_div unat_mod)
  show ?case
  proof (cases "u div base = 0")
    case True
    then have "unat u div unat base = 0" using d(1) by (metis unat_0)
    then have "unat u < unat base" using b by (auto simp: div_eq_0_iff)
    then show ?thesis using True d(2)
      by (simp add: num_digits.simps [of base] numeral_in.simps [of "unat base"] Let_def)
  next
    case False
    then have nz: "unat u div unat base \<noteq> 0" using d(1) by (metis unat_eq_0)
    then have ge: "\<not> unat u < unat base" by auto
    moreover from nz have "0 < unat u" by (cases "unat u") auto
    ultimately have "unat (u div base) < unat u" using b d(1) by simp
    from less.hyps [OF this] show ?thesis using False d ge b
      by (simp add: num_digits.simps [of base] numeral_in.simps [of "unat base" up "unat u"] Let_def)
  qed
qed

text \<open>The buffer after the digits and the padding, before it is reversed.\<close>

lemma pad_zero_neg:
  assumes "cs = xs @ [c]" "length cs \<le> w" "w \<le> length buf" "take (length cs) buf = cs"
  shows "do { buf \<leftarrow> put_range (length cs - 1) (w - 1) (\<lambda>_. z) buf; put (w - 1) c buf } =
    Some (xs @ replicate (w - length cs) z @ c # drop w buf)"
proof -
  have n: "length cs = Suc (length xs)" using assms(1) by simp
  have "take (length xs) buf = take (length xs) (take (length cs) buf)" by (simp add: n)
  also have "\<dots> = xs" using assms(1,4) by simp
  finally have t: "take (length xs) buf = xs" .
  have w: "w - 1 < length buf" "length xs \<le> w - 1" "w - 1 \<le> length buf" using assms n by auto
  have "put_range (length cs - 1) (w - 1) (\<lambda>_. z) buf =
    Some (xs @ replicate (w - length cs) z @ drop (w - 1) buf)"
    using put_range_eq [OF w(2,3), of "\<lambda>_. z"] n t by (simp add: map_replicate_const)
  moreover have "drop (w - 1) buf = buf ! (w - 1) # drop w buf"
    using Cons_nth_drop_Suc [OF w(1)] assms(2) n by simp
  ultimately show ?thesis using assms(2) n
    by (auto simp: put_def list_update_append)
qed

lemma pad_right:
  assumes "length cs \<le> w" "w \<le> length buf" "take (length cs) buf = cs"
  shows "put_range (length cs) w (\<lambda>_. z) buf = Some (cs @ replicate (w - length cs) z @ drop w buf)"
  using put_range_eq [OF assms(1,2), of "\<lambda>_. z"] assms(3) by (simp add: map_replicate_const)

lemma PrintNum_run:
  fixes u base :: u64 and up neg left :: bool and wd :: int and pad :: char and buf :: string
  defines "ds \<equiv> numeral_in (unat base) up (unat u)"
  defines "cs \<equiv> (if neg then rev ds @ [CHR ''-''] else rev ds)"
  defines "w \<equiv> max (length ds + of_bool neg) (nat wd)" and "pd \<equiv> (if left then CHR '' '' else pad)"
  defines "buf1 \<equiv> cs @ drop (length cs) buf"
  assumes b: "2 \<le> base" and fit: "w \<le> length buf"
  shows "PrintNum buf u base neg wd left pad up =
    map_option (\<lambda>buf. (int w, reverse_range buf 0 (if left then length cs - 1 else w - 1)))
      (if neg \<and> \<not> left \<and> pd = CHR ''0''
       then do { buf \<leftarrow> put_range (length cs - 1) (w - 1) (\<lambda>_. pd) buf1; put (w - 1) (CHR ''-'') buf }
       else put_range (length cs) w (\<lambda>_. pd) buf1)"
proof -
  have n: "length cs = length ds + of_bool neg" by (simp add: cs_def)
  have wi: "(if wd < int (length cs) then int (length cs) else wd) = int w"
    by (auto simp: w_def n max_def)
  have "length cs \<le> length buf" using fit by (simp add: n w_def)
  then have p1: "put_range 0 (length cs) (\<lambda>i. cs ! i) buf = Some buf1"
    using put_range_eq [of 0 "length cs" buf] by (simp add: buf1_def map_nth)
  show ?thesis
    unfolding PrintNum_def num_digits_eq [OF b] ds_def [symmetric]
    by (simp only: Let_def cs_def [symmetric] bind.bind_lunit p1 wi pd_def [symmetric] nat_int
        map_conv_bind_option comp_def)
qed

lemma PrintNum_eq:
  fixes u :: u64 and up neg :: bool and wd :: int
  assumes b: "2 \<le> base"
  defines "ds \<equiv> numeral_in (unat base) up (unat u)"
  defines "w \<equiv> max (length ds + of_bool neg) (nat wd)"
  assumes fit: "w \<le> length buf"
  shows "\<exists>tl. PrintNum buf u base neg wd left pad up = Some (int w, num_field ds neg w left pad @ tl)"
    "length (num_field ds neg w left pad) = w"
proof -
  define cs where "cs = (if neg then rev ds @ [CHR ''-''] else rev ds)"
  have n: "length cs = length ds + of_bool neg" by (simp add: cs_def)
  have nw: "length cs \<le> w" by (simp add: n w_def)
  have pos: "0 < length cs"
    by (cases "unat u < unat base \<or> unat base < 2")
      (simp_all add: n ds_def numeral_in.simps [of "unat base" up "unat u"])
  define buf1 where "buf1 = cs @ drop (length cs) buf"
  have l1: "w \<le> length buf1" "take (length cs) buf1 = cs" using nw fit by (simp_all add: buf1_def)
  define pd where "pd = (if left then CHR '' '' else pad)"
  define tl where "tl = drop w buf1"
  note run = PrintNum_run [OF b fit [unfolded w_def ds_def], where left = left and pad = pad,
      folded ds_def, folded w_def cs_def pd_def, folded buf1_def]
  show "length (num_field ds neg w left pad) = w"
    using nw n by (auto simp: num_field_def Let_def)
  show "\<exists>tl. PrintNum buf u base neg wd left pad up = Some (int w, num_field ds neg w left pad @ tl)"
  proof (cases "neg \<and> \<not> left \<and> pd = CHR ''0''")
    case True
    then have cs: "cs = rev ds @ [CHR ''-'']" and p: "pad = CHR ''0''" by (auto simp: cs_def pd_def)
    have "PrintNum buf u base neg wd left pad up = Some (int w,
      reverse_range (rev ds @ replicate (w - length cs) pd @ CHR ''-'' # tl) 0 (w - 1))"
      using run True pad_zero_neg [OF cs nw l1] by (simp add: tl_def)
    moreover have "w - 1 < w" using nw pos by linarith
    ultimately show ?thesis using True nw pos cs p
      by (simp add: reverse_range_eq num_field_def Let_def pd_def)
  next
    case False
    then have r: "PrintNum buf u base neg wd left pad up = Some (int w,
      reverse_range (cs @ replicate (w - length cs) pd @ tl) 0 (if left then length cs - 1 else w - 1))"
      using run by (simp only: if_not_P [OF False] if_False pad_right [OF nw l1] option.map tl_def)
    show ?thesis
    proof (cases left)
      case True
      then show ?thesis using r nw pos
        by (simp add: reverse_range_eq num_field_def Let_def pd_def cs_def)
    next
      case l: False
      then show ?thesis using r nw pos False
        by (auto simp: reverse_range_eq num_field_def Let_def pd_def cs_def)
    qed
  qed
qed

lemma PrintNum_overflow:
  assumes "2 \<le> base" and "length buf < nat wd" and "neg = False"
  shows "PrintNum buf u base neg wd left pad up = None"
proof -
  define cs where "cs = rev (numeral_in (unat base) up (unat u))"
  show ?thesis
  proof (cases "length cs \<le> length buf")
    case True
    then have "put_range 0 (length cs) (\<lambda>i. cs ! i) buf = Some (cs @ drop (length cs) buf)"
      using put_range_eq [of 0 "length cs" buf "\<lambda>i. cs ! i"] by (simp add: map_nth)
    moreover have "put_range (length cs) (nat wd) f (cs @ drop (length cs) buf) = None" for f
      using True assms(2) by (intro put_range_out) auto
    moreover have "\<not> wd < int (length cs)" using True assms(2) by linarith
    ultimately show ?thesis using assms(3)
      by (simp add: PrintNum_def num_digits_eq [OF assms(1)] cs_def [symmetric] Let_def del: length_rev)
  next
    case False
    then have "put_range 0 (length cs) (\<lambda>i. cs ! i) buf = None" by (intro put_range_out) auto
    then show ?thesis using assms(3)
      by (simp add: PrintNum_def num_digits_eq [OF assms(1)] cs_def [symmetric] Let_def del: length_rev)
  qed
qed

subsection \<open>Reading a number back\<close>

definition digit_val :: "char \<Rightarrow> nat" where
  "digit_val c = (let n = of_char c in if n < 58 then n - 48 else if n < 91 then n - 55 else n - 87)"

definition read_in :: "nat \<Rightarrow> string \<Rightarrow> nat" where
  "read_in b s = foldl (\<lambda>a c. b * a + digit_val c) 0 s"

lemma digit_val: "d < 16 \<Longrightarrow> digit_val (digit_char up d) = d"
proof -
  assume d: "d < 16"
  have c: "of_char (char_of n :: char) = n" if "n < 256" for n :: nat
    using that by simp
  show ?thesis using d by (auto simp: digit_val_def digit_char_def Let_def c)
qed

lemma read_numeral: "2 \<le> b \<Longrightarrow> b \<le> 16 \<Longrightarrow> read_in b (numeral_in b up n) = n"
proof (induction b up n rule: numeral_in.induct)
  case (1 b up n)
  show ?case
  proof (cases "n < b")
    case True
    then show ?thesis using 1(3) by (simp add: numeral_in.simps [of b] read_in_def digit_val)
  next
    case False
    then have "read_in b (numeral_in b up (n div b)) = n div b" using 1 by simp
    moreover have "n mod b < b" using 1(2) by simp
    then have "n mod b < 16" using 1(3) by linarith
    ultimately show ?thesis using False 1(2)
      by (simp add: numeral_in.simps [of b] read_in_def digit_val)
  qed
qed

lemma numeral_width: "2 \<le> b \<Longrightarrow> n < 2 ^ k \<Longrightarrow> 0 < k \<Longrightarrow> length (numeral_in b up n) \<le> k"
proof (induction k arbitrary: n)
  case (Suc k)
  show ?case
  proof (cases "n < b")
    case False
    have "n div b \<le> n div 2" using Suc.prems(1) by (intro div_le_mono2) auto
    then have "n div b < 2 ^ k" using Suc.prems(2) by simp
    moreover have "0 < k" using False Suc.prems by (cases k) auto
    ultimately have "length (numeral_in b up (n div b)) \<le> k" using Suc by simp
    then show ?thesis using False Suc.prems(1) by (simp add: numeral_in.simps [of _ _ n])
  qed (simp add: numeral_in.simps)
qed simp

lemma numeral_digits:
  "2 \<le> b \<Longrightarrow> b \<le> 16 \<Longrightarrow> set (numeral_in b up n) \<subseteq> digit_char up ` {..<b}"
proof (induction b up n rule: numeral_in.induct)
  case (1 b up n)
  then show ?case by (subst numeral_in.simps) auto
qed

subsection \<open>Strings, characters and plain text\<close>

definition text_field :: "string \<Rightarrow> nat \<Rightarrow> bool \<Rightarrow> string" where
  "text_field s w left =
     (let fill = replicate (w - length s) (CHR '' '') in if left then s @ fill else fill @ s)"

lemma PrintString_eq:
  assumes "max (length s) (nat wd) \<le> length buf"
  shows "PrintString buf s wd left = (let w = max (length s) (nat wd) in
    Some (int w, text_field s w left @ drop w buf))"
proof -
  define w where "w = max (length s) (nat wd)"
  have wi: "(if wd < int (length s) then int (length s) else wd) = int w"
    by (cases "0 \<le> wd") (auto simp: w_def max_def)
  have le: "length s \<le> w" "w \<le> length buf" "w - length s \<le> w" "w - length s \<le> length buf"
    using assms by (auto simp: w_def)
  have s: "map ((!) s) [0..<length s] = s" by (rule map_nth)
  show ?thesis
  proof (cases left)
    case True
    have "put_range 0 (length s) ((!) s) buf = Some (s @ drop (length s) buf)"
      using put_range_eq [of 0 "length s" buf] le s by simp
    moreover have "put_range (length s) w (\<lambda>_. CHR '' '') (s @ drop (length s) buf) =
      Some (s @ replicate (w - length s) (CHR '' '') @ drop w buf)"
      using pad_right [of s w "s @ drop (length s) buf" "CHR '' ''"] le by simp
    ultimately show ?thesis using True
      by (simp only: PrintString_def Let_def wi nat_int if_True bind.bind_lunit text_field_def
          w_def [symmetric]) simp
  next
    case False
    have "put_range 0 (w - length s) (\<lambda>_. CHR '' '') buf =
      Some (replicate (w - length s) (CHR '' '') @ drop (w - length s) buf)"
      using put_range_eq [of 0 "w - length s" buf] le by (simp add: map_replicate_const)
    moreover have "put_range (w - length s) w (\<lambda>i. s ! (i + length s - w))
        (replicate (w - length s) (CHR '' '') @ drop (w - length s) buf) =
      Some (replicate (w - length s) (CHR '' '') @ s @ drop w buf)"
    proof -
      have "map (\<lambda>i. s ! (i + length s - w)) [w - length s..<w] = s"
        using le(1) by (intro nth_equalityI) auto
      then show ?thesis
        using put_range_eq [of "w - length s" w
            "replicate (w - length s) (CHR '' '') @ drop (w - length s) buf"] le by simp
    qed
    ultimately show ?thesis using False
      by (simp only: PrintString_def Let_def wi nat_int if_False bind.bind_lunit text_field_def
          w_def [symmetric]) simp
  qed
qed

lemma PrintChar_eq:
  assumes "max 1 (nat wd) \<le> length buf"
  shows "PrintChar buf c wd left = (let w = max 1 (nat wd) in
    Some (int w, text_field [c] w left @ drop w buf))"
proof -
  define w where "w = max 1 (nat wd)"
  have wi: "(if wd < 1 then 1 else wd) = int w" by (auto simp: w_def max_def)
  have w: "1 \<le> w" "w \<le> length buf" "w - 1 < length buf" "nat (int w - 1) = w - 1"
    using assms by (auto simp: w_def)
  have "put 0 c buf = Some (c # drop 1 buf)" using w by (cases buf) (auto simp: put_def)
  moreover have "put_range 1 w (\<lambda>_. CHR '' '') (c # drop 1 buf) =
    Some (c # replicate (w - 1) (CHR '' '') @ drop w buf)"
    using pad_right [of "[c]" w "c # drop 1 buf" "CHR '' ''"] w by (cases w) auto
  moreover have "put_range 0 (w - 1) (\<lambda>_. CHR '' '') buf =
    Some (replicate (w - 1) (CHR '' '') @ drop (w - 1) buf)"
    using put_range_eq [of 0 "w - 1" buf] w by (simp add: map_replicate_const)
  moreover have "put (w - 1) c (replicate (w - 1) (CHR '' '') @ drop (w - 1) buf) =
    Some (replicate (w - 1) (CHR '' '') @ c # drop w buf)"
    using Cons_nth_drop_Suc [OF w(3), symmetric] w by (auto simp: put_def list_update_append)
  ultimately show ?thesis
    by (simp only: PrintChar_def Let_def wi nat_int w(4) bind.bind_lunit text_field_def
        w_def [symmetric]) simp
qed

subsection \<open>Properties\<close>

lemma OUTPUT_field:
  assumes "length t = w" and "0 < w" and "w \<le> 1000" and "t \<noteq> [CHR 0x00]"
  shows "OUTPUT (t @ rest) (int w) = (t, True)"
proof -
  have "\<not> (w = 1 \<and> (t @ rest) ! 0 = CHR 0x00)" using assms by (cases t) auto
  then show ?thesis using assms by (auto simp: OUTPUT_def myoutput_def LP_MAX_BUF_def)
qed

lemma lp_loop_Nil: "lp_loop [] ap = ([], Finished)"
  by (simp add: lp_loop.simps OUTPUT_def myoutput_def LP_MAX_BUF_def)

text \<open>C29: \<open>PrintNum\<close> leaves in the buffer exactly the number in its base, with its sign and padding: to
  the right with blanks, or to the left with blanks before the sign or zeros behind it. Its result
  is the length of that field, the larger of the requested width and what the number needs.\<close>

lemma PrintNum_spec:
  assumes "2 \<le> base" and "ds = numeral_in (unat base) up (unat u)"
    and "w = max (length ds + of_bool neg) (nat wd)" and "w \<le> length buf"
  shows "\<exists>buf'. PrintNum buf u base neg wd left pad up = Some (int w, buf') \<and>
    take w buf' = num_field ds neg w left pad"
  using PrintNum_eq [where base = base and buf = buf and wd = wd and neg = neg and up = up and u = u and left = left and pad = pad] assms by auto

lemma PrintNum_spec_witness:
  "\<exists>buf'. PrintNum blank_buf 42 10 True 6 False (CHR ''0'') False = Some (6, buf') \<and>
    take 6 buf' = ''-00042''"
proof -
  have d: "numeral_in 10 False 42 = ''42''" by code_simp
  have f: "num_field ''42'' True 6 False (CHR ''0'') = ''-00042''" by code_simp
  show ?thesis
    using PrintNum_spec [where base = 10 and u = 42 and up = False and neg = True and wd = 6
        and ds = "''42''" and w = 6 and buf = blank_buf and left = False and pad = "CHR ''0''"] d f
    by (simp add: blank_buf_def LP_MAX_BUF_def)
qed

text \<open>C34: the digits \<open>PrintNum\<close> prints denote the number: read back in the same base they give it.\<close>

lemma PrintNum_reads_back:
  assumes "2 \<le> base" and "base \<le> 16"
  shows "\<exists>l buf'. PrintNum (replicate 64 c) u base False 0 left pad up = Some (l, buf') \<and>
    (nat l \<le> 64 \<and> read_in (unat base) (take (nat l) buf') = unat u)"
proof -
  let ?ds = "numeral_in (unat base) up (unat u)"
  have b: "2 \<le> unat base" "unat base \<le> 16" using assms by (simp_all add: word_le_nat_alt)
  have "length ?ds \<le> 64" using unat64_less [of u] b by (intro numeral_width) simp_all
  then show ?thesis using PrintNum_eq [where base = base and buf = "replicate 64 c" and wd = 0 and neg = False and up = up
        and u = u and left = left and pad = pad] assms(1)
      read_numeral [OF b, of up "unat u"] by (auto simp: num_field_def Let_def split: if_splits)
qed

lemma PrintNum_reads_back_witness:
  "\<exists>l buf'. PrintNum (replicate 64 (CHR ''x'')) 0xCAFE 16 False 0 False (CHR ''0'') True = Some (l, buf') \<and>
    (nat l \<le> 64 \<and> read_in 16 (take (nat l) buf') = 0xCAFE)"
  using PrintNum_reads_back [of 16 "CHR ''x''" "0xCAFE" False "CHR ''0''" True] by simp

text \<open>A width larger than the buffer writes outside it: the length check of \<^verbatim>\<open>OUTPUT\<close> comes only
  after the field has been built.\<close>

lemma PrintNum_out_of_buffer:
  assumes "int LP_MAX_BUF < wd" and "2 \<le> base"
  shows "PrintNum blank_buf u base False wd left pad up = None"
  using assms by (intro PrintNum_overflow) (auto simp: blank_buf_def)

lemma PrintNum_out_of_buffer_witness:
  "PrintNum blank_buf 7 10 False 1001 False (CHR '' '') False = None"
  using PrintNum_out_of_buffer [of 1001 10 7 False "CHR '' ''" False] by (simp add: LP_MAX_BUF_def)

text \<open>\<open>PrintString\<close> and \<open>PrintChar\<close> leave the text in the buffer, padded with blanks on the side
  opposite to the adjustment, and return the length of the field.\<close>

lemma PrintString_PrintChar_spec:
  assumes "max (max 1 (length s)) (nat wd) \<le> length buf"
  shows "(\<exists>buf'. PrintString buf s wd left = Some (int (max (length s) (nat wd)), buf') \<and>
      take (max (length s) (nat wd)) buf' = text_field s (max (length s) (nat wd)) left) \<and>
    (\<exists>buf'. PrintChar buf c wd left = Some (int (max 1 (nat wd)), buf') \<and>
      take (max 1 (nat wd)) buf' = text_field [c] (max 1 (nat wd)) left)"
proof -
  have "length (text_field t (max (length t) n) left) = max (length t) n" for t n
    by (auto simp: text_field_def Let_def)
  from this [of s "nat wd"] this [of "[c]" "nat wd"] show ?thesis
    using assms PrintString_eq [of s wd buf left] PrintChar_eq [of wd buf c left]
    by (simp add: Let_def)
qed

lemma PrintString_PrintChar_spec_witness:
  "\<exists>buf'. PrintString blank_buf ''ab'' 5 True = Some (5, buf') \<and> take 5 buf' = ''ab   ''"
proof -
  have "text_field ''ab'' 5 True = ''ab   ''" by code_simp
  then show ?thesis
    using PrintString_PrintChar_spec [of "''ab''" 5 blank_buf True "CHR ''x''"]
    by (simp add: blank_buf_def LP_MAX_BUF_def)
qed

text \<open>Text without a percent sign is printed as it is, up to the size of the buffer; a longer run is
  not printed: the fatal message appears and the kernel loops.\<close>

lemma lp_Print_text:
  assumes "CHR ''%'' \<notin> set t" and "CHR 0x00 \<notin> set t"
  shows "lp_Print t ap = (if length t \<le> 1000 then (t, Finished) else (theFatalMsg, Fatal))"
proof -
  have r: "takeWhile (\<lambda>c. c \<noteq> CHR ''%'') t = t" "dropWhile (\<lambda>c. c \<noteq> CHR ''%'') t = []"
    using assms(1) by (auto simp: takeWhile_eq_all_conv dropWhile_eq_Nil_conv)
  have "\<not> (length t = 1 \<and> t ! 0 = CHR 0x00)" using assms(2) by (cases t) auto
  then show ?thesis
    by (auto simp: lp_Print_def lp_loop.simps [of t] r OUTPUT_def myoutput_def LP_MAX_BUF_def
        theFatalMsg_def)
qed

lemma lp_Print_text_witness: "lp_Print ''hello'' [] = (''hello'', Finished)"
  using lp_Print_text [of "''hello''" "[]"] by simp

subsection \<open>Conversions\<close>

lemma digit_char_nonzero: "d < 16 \<Longrightarrow> digit_char up d \<noteq> CHR 0x00"
proof
  assume "d < 16" and "digit_char up d = CHR 0x00"
  then have "of_char (digit_char up d) = (0 :: nat)" by simp
  then show False using \<open>d < 16\<close> by (auto simp: digit_char_def split: if_splits)
qed

lemma numeral_not_NUL: "2 \<le> b \<Longrightarrow> b \<le> 16 \<Longrightarrow> numeral_in b up n \<noteq> [CHR 0x00]"
proof
  assume b: "2 \<le> b" "b \<le> 16" and n: "numeral_in b up n = [CHR 0x00]"
  then show False using numeral_digits [OF b, of up n] digit_char_nonzero
    by (metis image_iff insert_subset lessThan_iff list.set(2) order.strict_trans2)
qed

lemma numeral_nonempty: "numeral_in b up n \<noteq> []"
  by (simp add: numeral_in.simps)

text \<open>What a number conversion without width prints.\<close>

lemma print_number:
  fixes u :: u64 and up neg :: bool
  assumes "2 \<le> base" and "base \<le> 16"
  defines "t \<equiv> (if neg then CHR ''-'' # numeral_in (unat base) up (unat u)
    else numeral_in (unat base) up (unat u))"
  shows "\<exists>l buf. PrintNum blank_buf u base neg 0 False (CHR '' '') up = Some (l, buf) \<and>
    OUTPUT buf l = (t, True)"
proof -
  let ?ds = "numeral_in (unat base) up (unat u)"
  have b: "2 \<le> unat base" "unat base \<le> 16" using assms by (simp_all add: word_le_nat_alt)
  have len: "length ?ds \<le> 64" using unat64_less [of u] b by (intro numeral_width) simp_all
  have w: "max (length ?ds + of_bool neg) (nat 0) = length t" by (simp add: t_def)
  have f: "num_field ?ds neg (length t) False (CHR '' '') = t"
    by (simp add: num_field_def t_def Let_def)
  from len have "length t \<le> 65" by (simp add: t_def)
  then have "length t \<le> length blank_buf" by (simp add: blank_buf_def LP_MAX_BUF_def)
  then obtain rest where
    "PrintNum blank_buf u base neg 0 False (CHR '' '') up = Some (int (length t), t @ rest)"
    using PrintNum_eq(1) [where base = base and u = u and up = up and neg = neg and wd = 0
        and buf = blank_buf and left = False and pad = "CHR '' ''", OF assms(1)]
    unfolding w f by auto
  moreover have "OUTPUT (t @ rest) (int (length t)) = (t, True)"
    using \<open>length t \<le> 65\<close> numeral_nonempty numeral_not_NUL [OF b]
    by (intro OUTPUT_field) (auto simp: t_def)
  ultimately show ?thesis by blast
qed

lemma lp_loop_conversion:
  assumes "CHR ''%'' \<notin> set pre" "CHR 0x00 \<notin> set pre" "length pre \<le> 1000"
    and spec: "scan_spec fmt = Some (sp, c # rest)" and c: "is_conversion c"
    and "conversion sp c ap = Some ((l, buf), ap')" and "OUTPUT buf l = (t, True)"
  shows "lp_loop (pre @ CHR ''%'' # fmt) ap =
    (pre @ t @ fst (lp_loop rest ap'), snd (lp_loop rest ap'))"
proof -
  have r: "takeWhile (\<lambda>c. c \<noteq> CHR ''%'') (pre @ CHR ''%'' # fmt) = pre"
    "dropWhile (\<lambda>c. c \<noteq> CHR ''%'') (pre @ CHR ''%'' # fmt) = CHR ''%'' # fmt"
    using assms(1) by (induction pre) auto
  have "\<not> (length pre = 1 \<and> pre ! 0 = CHR 0x00)" using assms(2) by (cases pre) auto
  then have "OUTPUT pre (int (length pre)) = (pre, True)"
    using assms(3) by (auto simp: OUTPUT_def myoutput_def LP_MAX_BUF_def)
  then show ?thesis using assms(4-7)
    by (simp add: lp_loop.simps [of "pre @ CHR ''%'' # fmt"] r Let_def)
qed

subsection \<open>Properties of formatted output\<close>

definition signed_text :: "u64 \<Rightarrow> string" where
  "signed_text n = (if sint n < 0 then CHR ''-'' # numeral_in 10 False (nat (- sint n))
     else numeral_in 10 False (nat (sint n)))"

lemma unat_sint: "0 \<le> sint n \<Longrightarrow> unat n = nat (sint n)" "sint n < 0 \<Longrightarrow> unat (- n) = nat (- sint n)"
  for n :: u64
proof -
  have u: "uint w = sint w mod 2 ^ 64" for w :: u64 by (simp add: uint_sint take_bit_eq_mod)
  have r: "- (2 ^ 63) \<le> sint n" "sint n < 2 ^ 63" using sint_ge [of n] sint_lt [of n] by simp_all
  show "unat n = nat (sint n)" if "0 \<le> sint n"
    using u [of n] r that by (simp flip: nat_uint_eq)
  have "uint (- n) = (- uint n) mod 2 ^ 64" by (simp add: uint_word_ariths)
  also have "\<dots> = (- sint n) mod 2 ^ 64" unfolding u by (rule mod_minus_eq)
  finally show "unat (- n) = nat (- sint n)" if "sint n < 0"
    using r that by (simp flip: nat_uint_eq)
qed

text \<open>C30: a conversion of a 64-bit argument in the middle of a text prints the text before it, the
  number in hexadecimal or, with its sign, in decimal, and then what the rest of the format prints
  of the other arguments.\<close>

lemma lp_Print_number:
  assumes "CHR ''%'' \<notin> set pre" and "CHR 0x00 \<notin> set pre" and "length pre \<le> 1000"
  shows "lp_Print (pre @ ''%lx'' @ rest) (VA_num n # ap) =
      (pre @ numeral_in 16 False (unat n) @ fst (lp_Print rest ap), snd (lp_Print rest ap)) \<and>
    lp_Print (pre @ ''%ld'' @ rest) (VA_num n # ap) =
      (pre @ signed_text n @ fst (lp_Print rest ap), snd (lp_Print rest ap))"
proof
  let ?sp = "\<lparr>longFlag = True, ladjust = False, padc = CHR '' '', width = 0\<rparr>"
  have s: "scan_spec (''lx'' @ rest) = Some (?sp, CHR ''x'' # rest)"
    "scan_spec (''ld'' @ rest) = Some (?sp, CHR ''d'' # rest)"
    by (simp_all add: scan_spec_def eat_def IsDigit_def less_eq_char_def)
  have ic: "is_conversion (CHR ''x'')" "is_conversion (CHR ''d'')" by (simp_all add: is_conversion_def)
  from print_number [where base = 16 and up = False and neg = False and u = n] obtain l buf where
    p: "PrintNum blank_buf n 16 False 0 False (CHR '' '') False = Some (l, buf)"
    "OUTPUT buf l = (numeral_in 16 False (unat n), True)" by auto
  have "conversion ?sp (CHR ''x'') (VA_num n # ap) = Some ((l, buf), ap)"
    using p(1) by (simp add: conversion_def number_field_def)
  from lp_loop_conversion [OF assms s(1) ic(1) this p(2)]
  show "lp_Print (pre @ ''%lx'' @ rest) (VA_num n # ap) =
      (pre @ numeral_in 16 False (unat n) @ fst (lp_Print rest ap), snd (lp_Print rest ap))"
    by (simp add: lp_Print_def)
  have "\<exists>l buf. number_field ?sp (CHR ''d'') n = Some (l, buf) \<and> OUTPUT buf l = (signed_text n, True)"
    using print_number [where base = 10 and up = False and neg = True and u = "- n"] print_number [where base = 10 and up = False and neg = False and u = n] unat_sint [of n]
    by (auto simp: number_field_def signed_text_def)
  then obtain l buf where d: "number_field ?sp (CHR ''d'') n = Some (l, buf)"
    "OUTPUT buf l = (signed_text n, True)" by blast
  then have "conversion ?sp (CHR ''d'') (VA_num n # ap) = Some ((l, buf), ap)"
    by (simp add: conversion_def)
  from lp_loop_conversion [OF assms s(2) ic(2) this d(2)]
  show "lp_Print (pre @ ''%ld'' @ rest) (VA_num n # ap) =
      (pre @ signed_text n @ fst (lp_Print rest ap), snd (lp_Print rest ap))"
    by (simp add: lp_Print_def)
qed

lemma lp_Print_number_witness: "lp_Print ''pc=%lx'' [VA_num 0x2A] = (''pc=2a'', Finished)"
proof -
  have d: "numeral_in 16 False 0x2A = ''2a''" by code_simp
  have e: "lp_Print [] [] = ([], Finished)" by (simp add: lp_Print_def lp_loop_Nil)
  have "CHR ''%'' \<notin> set ''pc=''" "CHR 0x00 \<notin> set ''pc=''" "length ''pc='' \<le> 1000" by simp_all
  from lp_Print_number [OF this, of "[]" "0x2A" "[]"] show ?thesis by (simp add: d e)
qed

text \<open>Without the long flag the argument is read as a signed 32-bit number for every conversion, so
  the unsigned conversion \<^verbatim>\<open>%u\<close> of an \<^verbatim>\<open>unsigned int\<close> with its top bit set prints the
  sign-extended 64-bit value, not the number.\<close>

lemma lp_Print_unsigned:
  "lp_Print ''%u'' [VA_num (ucast (n :: u32))] = (numeral_in 10 False (unat (scast n :: u64)), Finished)"
proof -
  let ?sp = "\<lparr>longFlag = False, ladjust = False, padc = CHR '' '', width = 0\<rparr>"
  have s: "scan_spec ''u'' = Some (?sp, CHR ''u'' # [])"
    by (simp add: scan_spec_def eat_def IsDigit_def less_eq_char_def)
  from print_number [where base = 10 and up = False and neg = False and u = "scast n"] obtain l buf where
    p: "PrintNum blank_buf (scast n) 10 False 0 False (CHR '' '') False = Some (l, buf)"
    "OUTPUT buf l = (numeral_in 10 False (unat (scast n :: u64)), True)" by auto
  have "ucast (ucast n :: u64) = n" by (rule bit_word_eqI) (auto simp: bit_simps)
  then have "va_int (ucast n) = scast n" by (simp add: va_int_def)
  then have "conversion ?sp (CHR ''u'') [VA_num (ucast n)] = Some ((l, buf), [])"
    using p(1) by (simp add: conversion_def number_field_def)
  from lp_loop_conversion [OF _ _ _ s _ this p(2), of "[]"] show ?thesis
    by (simp add: lp_Print_def is_conversion_def lp_loop_Nil)
qed

end
