(* ===== verification/Kernel_State.thy ===== *)
theory Kernel_State
  imports Mmu_Defs Sys_Queue Lp_Print
begin

text \<open>
  The state the kernel's functions share, and how a C function is a function on it.

  \<open>mem\<close> is the physical memory, which the kernel reaches at equal virtual addresses. The array
  \<^verbatim>\<open>pages\<close> (\<^verbatim>\<open>include/pmap.h\<close>) and the array \<^verbatim>\<open>envs\<close> (\<^verbatim>\<open>include/env.h\<close>) are kept one function
  per field, indexed by the position in the array: a \<^verbatim>\<open>struct Page *\<close> is its page number and a
  \<^verbatim>\<open>struct Env *\<close> its index, with NULL the value \<open>None\<close>. The link fields \<^verbatim>\<open>pp_link\<close>,
  \<^verbatim>\<open>env_link\<close> and \<^verbatim>\<open>env_sched_link\<close> with their heads are \<open>page_q\<close>, \<open>env_q\<close> and \<open>sched_q\<close>.
  The trap frames on top of the two kernel stacks are \<open>timestack_tf\<close> and \<open>kernel_tf\<close>.

  A function returns \<open>(Inr r, s)\<close>, or \<open>(Inl e, s)\<close> when it does not return to its caller.
  Output and TLB maintenance are recorded in \<open>trace\<close>, newest last.
\<close>

subsection \<open>Structures\<close>

record trapframe =
  tf_x :: "nat \<Rightarrow> u64"
  tf_sp :: u64
  tf_elr_el1 :: u64
  tf_pstate :: u64
  tf_pc :: u64

record env =
  env_tf :: trapframe
  env_id :: u64
  env_parent_id :: u64
  env_status :: u64
  env_pgdir :: u64
  env_pri :: u64
  env_ipc_value :: u64
  env_ipc_from :: u64
  env_ipc_recving :: u64
  env_ipc_dstva :: u64
  env_ipc_perm :: u64
  env_pgfault_handler :: u64
  env_xstacktop :: u64
  env_runs :: u64

datatype event =
    Ev_printf string "va_arg list"   \<comment> \<open>a call of \<^verbatim>\<open>printf\<close>\<close>
  | Ev_panic string "va_arg list"    \<comment> \<open>a call of \<^verbatim>\<open>panic\<close>\<close>
  | Ev_uart u32                      \<comment> \<open>\<^verbatim>\<open>uart_send_boot\<close>\<close>
  | Ev_tlbi                          \<comment> \<open>\<^verbatim>\<open>tlb_invalidate\<close>\<close>
  | Ev_timer                         \<comment> \<open>\<^verbatim>\<open>timer_init\<close>\<close>

record kstate =
  mem :: memory
  freemem :: u64
  maxpa :: u64
  npage :: u64
  basemem :: u64
  extmem :: u64
  pg_dir :: u64                       \<comment> \<open>the linker symbol \<^verbatim>\<open>_pg_dir\<close>\<close>
  pages :: u64                        \<comment> \<open>the pointer; its array is the next two fields\<close>
  pp_ref :: "u64 \<Rightarrow> u16"
  page_q :: "(unit, u64) lists"
  envs_ptr :: u64                     \<comment> \<open>the pointer \<^verbatim>\<open>envs\<close>\<close>
  envs :: "u64 \<Rightarrow> env"
  env_q :: "(unit, u64) lists"
  sched_q :: "(int, u64) lists"
  curenv :: "u64 option"
  cur_sched :: int
  remaining_time :: int
  next_env_id :: u64
  sched_pos :: int
  timestack_tf :: trapframe
  kernel_tf :: trapframe
  trace :: "event list"

subsection \<open>Control\<close>

datatype stop =
    Panicked        \<comment> \<open>\<^verbatim>\<open>_panic\<close>: the message is printed, then \<^verbatim>\<open>for(;;)\<close>\<close>
  | Hang            \<comment> \<open>a loop that never ends\<close>
  | Null_deref      \<comment> \<open>NULL is followed\<close>
  | Data_abort u64  \<comment> \<open>the address is not mapped\<close>
  | Wild_jump       \<comment> \<open>a call through memory behind \<^verbatim>\<open>sys_call_table\<close>\<close>
  | Enter_user      \<comment> \<open>\<^verbatim>\<open>env_pop_tf\<close>: \<^verbatim>\<open>eret\<close> into the environment \<^verbatim>\<open>curenv\<close>\<close>

type_synonym 'a kresult = "(stop + 'a) \<times> kstate"
type_synonym 'a kfun = "kstate \<Rightarrow> 'a kresult"

definition kret :: "'a \<Rightarrow> 'a kfun" where
  "kret x s = (Inr x, s)"

definition kstop :: "stop \<Rightarrow> 'a kfun" where
  "kstop e s = (Inl e, s)"

definition kbind :: "'a kfun \<Rightarrow> ('a \<Rightarrow> 'b kfun) \<Rightarrow> 'b kfun" where
  "kbind m f s = (case m s of (Inl e, s') \<Rightarrow> (Inl e, s') | (Inr x, s') \<Rightarrow> f x s')"

text \<open>A \<^verbatim>\<open>for\<close> loop over the values its counter takes.\<close>

fun kfor :: "'i list \<Rightarrow> ('i \<Rightarrow> unit kfun) \<Rightarrow> unit kfun" where
  "kfor [] f = kret ()"
| "kfor (i # is) f = kbind (f i) (\<lambda>_. kfor is f)"

text \<open>The counter of \<^verbatim>\<open>for (i = a; i < b; i++)\<close>.\<close>

definition counter :: "u64 \<Rightarrow> u64 \<Rightarrow> u64 list" where
  "counter a b = map word_of_nat [unat a..<unat b]"

subsection \<open>Effects outside the memory\<close>

definition log :: "event \<Rightarrow> kstate \<Rightarrow> kstate" where
  "log e s = s\<lparr>trace := trace s @ [e]\<rparr>"

definition kprintf :: "string \<Rightarrow> va_arg list \<Rightarrow> kstate \<Rightarrow> kstate" where
  "kprintf fmt args = log (Ev_printf fmt args)"

definition kpanic :: "string \<Rightarrow> va_arg list \<Rightarrow> 'a kfun" where
  "kpanic fmt args s = (Inl Panicked, log (Ev_panic fmt args) s)"

definition tlb_invalidate :: "kstate \<Rightarrow> kstate" where
  "tlb_invalidate = log Ev_tlbi"

text \<open>\<open>bzero\<close> on the physical memory.\<close>

definition kzero :: "u64 \<Rightarrow> u64 \<Rightarrow> unit kfun" where
  "kzero b len s = (case bzero (mem s) b len of
      None \<Rightarrow> (Inl Hang, s)
    | Some m \<Rightarrow> (Inr (), s\<lparr>mem := m\<rparr>))"

subsection \<open>The state at reset\<close>

text \<open>Static storage of a C program is zero but for the initialised \<^verbatim>\<open>pos\<close> of \<open>sched_yield\<close>, and no list is linked.\<close>

definition reset_tf :: trapframe where
  "reset_tf = \<lparr>tf_x = \<lambda>_. 0, tf_sp = 0, tf_elr_el1 = 0, tf_pstate = 0, tf_pc = 0\<rparr>"

definition reset_env :: env where
  "reset_env = \<lparr>env_tf = reset_tf, env_id = 0, env_parent_id = 0, env_status = 0, env_pgdir = 0,
     env_pri = 0, env_ipc_value = 0, env_ipc_from = 0, env_ipc_recving = 0, env_ipc_dstva = 0,
     env_ipc_perm = 0, env_pgfault_handler = 0, env_xstacktop = 0, env_runs = 0\<rparr>"

definition reset_state :: kstate where
  "reset_state = \<lparr>mem = \<lambda>_. 0, freemem = 0, maxpa = 0, npage = 0, basemem = 0, extmem = 0,
     pg_dir = 0, pages = 0, pp_ref = \<lambda>_. 0, page_q = no_lists, envs_ptr = 0, envs = \<lambda>_. reset_env,
     env_q = no_lists, sched_q = no_lists, curenv = None, cur_sched = 0, remaining_time = 0,
     next_env_id = 0, sched_pos = - 1, timestack_tf = reset_tf, kernel_tf = reset_tf, trace = []\<rparr>"

subsection \<open>Rules\<close>

lemma kbind_Inr [simp]: "m s = (Inr x, s') \<Longrightarrow> kbind m f s = f x s'"
  by (simp add: kbind_def)

lemma kbind_Inl [simp]: "m s = (Inl e, s') \<Longrightarrow> kbind m f s = (Inl e, s')"
  by (simp add: kbind_def)

lemma kret_apply [simp]: "kret x s = (Inr x, s)"
  by (simp add: kret_def)

lemma kstop_apply [simp]: "kstop e s = (Inl e, s)"
  by (simp add: kstop_def)

lemma log_fields [simp, frame_simps]:
  "mem (log e s) = mem s" "npage (log e s) = npage s" "pp_ref (log e s) = pp_ref s"
  "page_q (log e s) = page_q s" "envs (log e s) = envs s" "env_q (log e s) = env_q s"
  "sched_q (log e s) = sched_q s" "curenv (log e s) = curenv s" "freemem (log e s) = freemem s"
  "maxpa (log e s) = maxpa s" "pg_dir (log e s) = pg_dir s" "cur_sched (log e s) = cur_sched s"
  "next_env_id (log e s) = next_env_id s" "sched_pos (log e s) = sched_pos s"
  "remaining_time (log e s) = remaining_time s" "pages (log e s) = pages s"
  "envs_ptr (log e s) = envs_ptr s" "kernel_tf (log e s) = kernel_tf s"
  "timestack_tf (log e s) = timestack_tf s" "trace (log e s) = trace s @ [e]"
  by (simp_all add: log_def)

lemma tlb_invalidate_eq: "tlb_invalidate s = log Ev_tlbi s"
  by (simp add: tlb_invalidate_def)

lemma kprintf_eq: "kprintf fmt args s = log (Ev_printf fmt args) s"
  by (simp add: kprintf_def)

text \<open>An invariant of the body is an invariant of the loop.\<close>

lemma kfor_invariant:
  assumes "P s" and "\<And>i s. i \<in> set is \<Longrightarrow> P s \<Longrightarrow> \<exists>s'. f i s = (Inr (), s') \<and> P s'"
  shows "\<exists>s'. kfor is f s = (Inr (), s') \<and> P s'"
  using assms
proof (induction "is" arbitrary: s)
  case (Cons i "is")
  from Cons.prems obtain s' where "f i s = (Inr (), s')" "P s'" by (meson list.set_intros(1))
  moreover from this(2) Cons obtain s'' where "kfor is f s' = (Inr (), s'')" "P s''"
    by (meson list.set_intros(2))
  ultimately show ?case by auto
qed simp

lemma set_counter: "set (counter a b) = {x. a \<le> x \<and> x < b}"
proof -
  have "x \<in> word_of_nat ` {unat a..<unat b} \<longleftrightarrow> a \<le> x \<and> x < b" for x
  proof
    assume "a \<le> x \<and> x < b"
    then show "x \<in> word_of_nat ` {unat a..<unat b}"
      by (intro image_eqI [where x = "unat x"]) (auto simp: word_le_nat_alt word_less_nat_alt)
  next
    assume "x \<in> word_of_nat ` {unat a..<unat b}"
    then obtain n where n: "x = word_of_nat n" "unat a \<le> n" "n < unat b" by auto
    then have "unat x = n" using unat64_less [of b] by (simp add: unat_of_nat)
    then show "a \<le> x \<and> x < b" using n by (simp add: word_le_nat_alt word_less_nat_alt)
  qed
  then show ?thesis by (auto simp: counter_def)
qed

lemma distinct_counter: "distinct (counter a b)"
proof -
  have "inj_on (word_of_nat :: nat \<Rightarrow> u64) {unat a..<unat b}"
  proof (rule inj_on_inverseI)
    fix n assume "n \<in> {unat a..<unat b}"
    then show "unat (word_of_nat n :: u64) = n" using unat64_less [of b] by (simp add: unat_of_nat)
  qed
  then show ?thesis by (simp add: counter_def distinct_map)
qed

end
