(* ===== verification/Page_Alloc.thy ===== *)
theory Page_Alloc
  imports Kernel_State
begin

text \<open>
  Physical pages: the page conversions of \<^verbatim>\<open>include/pmap.h\<close> and, from \<^verbatim>\<open>mm/pmap.c\<close>, memory
  detection, the free list (\<open>page_init\<close>, \<open>page_alloc\<close>, \<open>page_free\<close>, \<open>page_decref\<close>).
\<close>

subsection \<open>Operations\<close>

definition pa2page :: "u64 \<Rightarrow> u64 kfun" where
  "pa2page pa s =
     (if npage s \<le> PPN pa
      then kpanic ''pa2page called with invalid pa: %x'' [VA_num pa] s
      else (Inr (PPN pa), s))"

definition mips_detect_memory :: "kstate \<Rightarrow> kstate" where
  "mips_detect_memory s =
     (let s = s\<lparr>maxpa := 0x40000000\<rparr>;
          s = s\<lparr>basemem := 1024 * 1024 * 1024\<rparr>;
          s = s\<lparr>npage := basemem s div (1024 * 4)\<rparr>;
          s = s\<lparr>extmem := 0\<rparr>;
          s = kprintf ''Physical memory: %dK available, '' [VA_num (maxpa s div 1024)] s
      in kprintf (''base = %dK, extended = %dK'' @ [CHR 0x0A])
           [VA_num (basemem s div 1024), VA_num (extmem s div 1024)] s)"

text \<open>The bodies of the two loops of \<open>page_init\<close>.\<close>

definition page_reserve :: "u64 \<Rightarrow> kstate \<Rightarrow> kstate" where
  "page_reserve i s = s\<lparr>pp_ref := (pp_ref s)(i := 1)\<rparr>"

definition page_release :: "u64 \<Rightarrow> kstate \<Rightarrow> kstate" where
  "page_release i s =
     s\<lparr>pp_ref := (pp_ref s)(i := 0), page_q := LIST_INSERT_HEAD (page_q s) () i\<rparr>"

definition page_init :: "kstate \<Rightarrow> kstate" where
  "page_init s =
     (let s = s\<lparr>page_q := LIST_INIT (page_q s) ()\<rparr>;
          s = s\<lparr>freemem := ROUND (freemem s) BY2PG\<rparr>;
          loopLength = freemem s div BY2PG;
          s = fold page_reserve (counter 0 loopLength) s
      in fold page_release (counter loopLength (npage s)) s)"

text \<open>The status and what is stored through \<^verbatim>\<open>pp\<close> (nothing on failure).\<close>

definition page_alloc :: "(int \<times> u64 option) kfun" where
  "page_alloc s =
     (case LIST_FIRST (page_q s) () of
        None \<Rightarrow> (Inr (- E_NO_MEM, None), s)
      | Some p \<Rightarrow>
          (case LIST_REMOVE (page_q s) p of
             None \<Rightarrow> (Inl Null_deref, s)
           | Some q \<Rightarrow>
               kbind (kzero (page2pa p) BY2PG) (\<lambda>_. kret (0, Some p)) (s\<lparr>page_q := q\<rparr>)))"

definition page_free :: "u64 \<Rightarrow> unit kfun" where
  "page_free pp s =
     (if 0 < pp_ref s pp then (Inr (), s)
      else if pp_ref s pp = 0 then (Inr (), s\<lparr>page_q := LIST_INSERT_HEAD (page_q s) () pp\<rparr>)
      else kpanic ('':pp->pp_ref is less than zero'' @ [CHR 0x0A]) [] s)"

definition page_decref :: "u64 \<Rightarrow> unit kfun" where
  "page_decref pp s =
     (let s = s\<lparr>pp_ref := (pp_ref s)(pp := pp_ref s pp - 1)\<rparr> in
      if pp_ref s pp = 0 then page_free pp s else (Inr (), s))"

definition incref :: "u64 \<Rightarrow> kstate \<Rightarrow> kstate" where
  "incref pp s = s\<lparr>pp_ref := (pp_ref s)(pp := pp_ref s pp + 1)\<rparr>"

subsection \<open>The pool\<close>

text \<open>
  \<open>pool_ok s fl\<close>: the free list holds the pages \<open>fl\<close>, all of them pages of the machine and
  without references. Page 0 is never among them, since a table at address 0 would look like NULL
  to the page-table code.
\<close>

definition pool_ok :: "kstate \<Rightarrow> u64 list \<Rightarrow> bool" where
  "pool_ok s fl \<longleftrightarrow> lst (page_q s) () fl \<and> npage s \<le> 2 ^ 40 \<and>
     (\<forall>p \<in> set fl. 0 < p \<and> p < npage s \<and> pp_ref s p = 0)"

lemma pool_distinct: "pool_ok s fl \<Longrightarrow> distinct fl"
  by (auto simp: pool_ok_def dest: lst_distinct)

lemma unat_page2pa: "p < 2 ^ 40 \<Longrightarrow> unat (page2pa p) = 4096 * unat p"
proof -
  assume "p < 2 ^ 40"
  then have "unat p < 2 ^ 40" by (simp add: word_less_nat_alt)
  then show ?thesis
    by (simp add: page2pa_def page2ppn_def push_bit_eq_mult unat_word_ariths)
qed

lemma kzero_page:
  assumes "p < 2 ^ 40"
  shows "kzero (page2pa p) BY2PG s = (Inr (), s\<lparr>mem := zeroed (mem s) (page2pa p) BY2PG\<rparr>)"
proof -
  have "unat p < 2 ^ 40" using assms by (simp add: word_less_nat_alt)
  then have "unat (page2pa p) + unat BY2PG + 7 < 2 ^ 64"
    using unat_page2pa [OF assms] by (simp add: BY2PG_def)
  from bzero_eq [OF this] show ?thesis by (simp add: kzero_def)
qed

lemma page_alloc_Nil: "pool_ok s [] \<Longrightarrow> page_alloc s = (Inr (- E_NO_MEM, None), s)"
  using il.rep_empty [of "page_q s" "()"] by (auto simp: pool_ok_def page_alloc_def)

lemma page_alloc_Cons:
  assumes "pool_ok s (p # fl)"
  shows "\<exists>q. page_alloc s = (Inr (0, Some p),
      s\<lparr>page_q := q, mem := zeroed (mem s) (page2pa p) BY2PG\<rparr>) \<and> lst q () fl"
proof -
  have l: "lst (page_q s) () (p # fl)" and "p < npage s" "npage s \<le> 2 ^ 40"
    using assms by (auto simp: pool_ok_def)
  then have p: "p < 2 ^ 40" by (meson order.strict_trans2)
  from il.rep_pop [OF l] obtain q where "LIST_FIRST (page_q s) () = Some p"
    "LIST_REMOVE (page_q s) p = Some q" "lst q () fl" by auto
  then show ?thesis using kzero_page [OF p, of "s\<lparr>page_q := q\<rparr>"]
    by (auto simp: page_alloc_def)
qed

lemma pool_ok_tl:
  "pool_ok s (p # fl) \<Longrightarrow> lst q () fl \<Longrightarrow> pool_ok (s\<lparr>page_q := q, mem := m\<rparr>) fl"
  by (simp add: pool_ok_def)

lemma page_free_eq:
  assumes "pool_ok s fl" and "pp_ref s p = 0" and "0 < p" and "p < npage s" and "p \<notin> set fl"
  shows "\<exists>q. page_free p s = (Inr (), s\<lparr>page_q := q\<rparr>) \<and> pool_ok (s\<lparr>page_q := q\<rparr>) (p # fl)"
  using assms il.rep_insert [of "page_q s" "()" fl p] by (auto simp: page_free_def pool_ok_def)

lemma page_free_ref: "0 < pp_ref s p \<Longrightarrow> page_free p s = (Inr (), s)"
  by (simp add: page_free_def)

text \<open>Allocating \<open>n\<close> times, or until the pool is empty.\<close>

fun alloc_many :: "('s \<Rightarrow> (stop + (int \<times> 'p option)) \<times> 's) \<Rightarrow> nat \<Rightarrow> 's \<Rightarrow> 'p list \<times> 's" where
  "alloc_many alloc 0 s = ([], s)"
| "alloc_many alloc (Suc n) s =
     (case alloc s of
        (Inr (_, Some p), s') \<Rightarrow> (let (ps, s'') = alloc_many alloc n s' in (p # ps, s''))
      | (_, s') \<Rightarrow> ([], s'))"

text \<open>The interface the page tables and the environments use.\<close>

locale page_pool =
  fixes pool :: "'s \<Rightarrow> 'p list \<Rightarrow> bool"
    and alloc :: "'s \<Rightarrow> (stop + (int \<times> 'p option)) \<times> 's"
    and free :: "'p \<Rightarrow> 's \<Rightarrow> (stop + unit) \<times> 's"
    and unused :: "'s \<Rightarrow> 'p \<Rightarrow> bool"
    and clean :: "'s \<Rightarrow> 'p \<Rightarrow> bool"
  assumes pool_distinct: "pool s fl \<Longrightarrow> distinct fl"
    and pool_unused: "pool s fl \<Longrightarrow> p \<in> set fl \<Longrightarrow> unused s p"
    and alloc_empty: "pool s [] \<Longrightarrow> alloc s = (Inr (- E_NO_MEM, None), s)"
    and alloc_first: "pool s (p # fl) \<Longrightarrow>
      \<exists>s'. alloc s = (Inr (0, Some p), s') \<and> pool s' fl \<and> clean s' p \<and> (\<forall>x. unused s' x = unused s x)"
    and free_unused: "pool s fl \<Longrightarrow> unused s p \<Longrightarrow> p \<notin> set fl \<Longrightarrow>
      \<exists>s'. free p s = (Inr (), s') \<and> pool s' (p # fl)"
begin

lemma alloc_many_pool:
  "pool s fl \<Longrightarrow> \<exists>s'. alloc_many alloc n s = (take n fl, s') \<and> pool s' (drop n fl)"
proof (induction n arbitrary: s fl)
  case (Suc n)
  show ?case
  proof (cases fl)
    case Nil
    then show ?thesis using Suc.prems alloc_empty [of s] by auto
  next
    case (Cons p ps)
    then obtain s1 where "alloc s = (Inr (0, Some p), s1)" "pool s1 ps"
      using Suc.prems alloc_first [of s p ps] by auto
    moreover from Suc.IH [OF this(2)] obtain s2
      where "alloc_many alloc n s1 = (take n ps, s2)" "pool s2 (drop n ps)" by auto
    ultimately show ?thesis using Cons by auto
  qed
qed auto

lemma alloc_free_roundtrip:
  assumes "pool s (p # fl)"
  shows "\<exists>s' s''. alloc s = (Inr (0, Some p), s') \<and> free p s' = (Inr (), s'') \<and> pool s'' (p # fl)"
proof -
  from alloc_first [OF assms] obtain s' where s': "alloc s = (Inr (0, Some p), s')" "pool s' fl"
    "unused s' p = unused s p" by auto
  moreover have "unused s p" using pool_unused [OF assms] by simp
  moreover have "p \<notin> set fl" using pool_distinct [OF assms] by simp
  ultimately show ?thesis using free_unused [of s' fl p] by auto
qed

end

definition page_clean :: "kstate \<Rightarrow> u64 \<Rightarrow> bool" where
  "page_clean s p \<longleftrightarrow> (\<forall>x. in_block (page2pa p) BY2PG x \<longrightarrow> mem s x = 0)"

interpretation pp: page_pool pool_ok page_alloc page_free
  "\<lambda>s p. 0 < p \<and> p < npage s \<and> pp_ref s p = 0" page_clean
proof (unfold_locales, goal_cases)
  case (4 s p fl)
  from page_alloc_Cons [OF 4] pool_ok_tl [OF 4] show ?case
    by (fastforce simp: page_clean_def zeroed_def)
next
  case (5 s fl p)
  then show ?case using page_free_eq [of s fl p] by auto
qed (auto simp: pool_distinct page_alloc_Nil, auto simp: pool_ok_def)

subsection \<open>Initialisation\<close>

lemma counter_step_release:
  "page_q (fold page_release is s) = fold (\<lambda>i q. LIST_INSERT_HEAD q () i) is (page_q s)"
  "npage (fold page_release is s) = npage s"
  "mem (fold page_release is s) = mem s"
  "pp_ref (fold page_release is s) = (\<lambda>p. if p \<in> set is then 0 else pp_ref s p)"
  by (induction "is" arbitrary: s) (auto simp: page_release_def fun_eq_iff)

lemma counter_step_reserve:
  "page_q (fold page_reserve is s) = page_q s"
  "npage (fold page_reserve is s) = npage s"
  "freemem (fold page_reserve is s) = freemem s"
  "mem (fold page_reserve is s) = mem s"
  "pp_ref (fold page_reserve is s) = (\<lambda>p. if p \<in> set is then 1 else pp_ref s p)"
  by (induction "is" arbitrary: s) (auto simp: page_reserve_def fun_eq_iff)

text \<open>\<open>page_init\<close> frees exactly the pages from the (rounded) end of the boot allocations on, the
  highest page first.\<close>

lemma page_init_pool:
  assumes "npage s \<le> 2 ^ 40" and "0 < ROUND (freemem s) BY2PG div BY2PG"
  defines "n \<equiv> ROUND (freemem s) BY2PG div BY2PG"
  shows "pool_ok (page_init s) (rev (counter n (npage s)))"
    "pp_ref (page_init s) p = (if n \<le> p \<and> p < npage s then 0 else if p < n then 1 else pp_ref s p)"
    "npage (page_init s) = npage s" "mem (page_init s) = mem s"
proof -
  define s1 where "s1 = fold page_reserve (counter 0 n)
    (s\<lparr>page_q := LIST_INIT (page_q s) (), freemem := ROUND (freemem s) BY2PG\<rparr>)"
  have init: "page_init s = fold page_release (counter n (npage s)) s1"
    by (simp add: page_init_def Let_def s1_def n_def counter_step_reserve)
  have s1: "page_q s1 = LIST_INIT (page_q s) ()" "npage s1 = npage s" "mem s1 = mem s"
    "pp_ref s1 = (\<lambda>p. if p < n then 1 else pp_ref s p)"
    by (simp_all add: s1_def counter_step_reserve set_counter cong: if_cong)
  have "lst (fold (\<lambda>i q. LIST_INSERT_HEAD q () i) (counter n (npage s)) (page_q s1)) ()
      (rev (counter n (npage s)) @ [])"
    unfolding s1 by (intro il.rep_insert_all) (simp_all add: lst_init distinct_counter)
  then show "pool_ok (page_init s) (rev (counter n (npage s)))"
    using assms by (auto simp: pool_ok_def init counter_step_release s1 set_counter)
  show "pp_ref (page_init s) p = (if n \<le> p \<and> p < npage s then 0 else if p < n then 1 else pp_ref s p)"
    "npage (page_init s) = npage s" "mem (page_init s) = mem s"
    by (simp_all add: init counter_step_release s1 set_counter)
qed

subsection \<open>Dropping a reference\<close>

definition freed_to :: "kstate \<Rightarrow> u64 \<Rightarrow> u64 list \<Rightarrow> u64 list" where
  "freed_to s p fl = (if pp_ref s p = 1 then p # fl else fl)"

lemma drop_ref:
  assumes pool: "pool_ok s fl" and p: "0 < p" "p < npage s" "pp_ref s p \<noteq> 0"
  defines "s1 \<equiv> s\<lparr>pp_ref := (pp_ref s)(p := pp_ref s p - 1)\<rparr>"
  shows "\<exists>q. (if pp_ref s1 p = 0 then page_free p s1 else (Inr (), s1)) = (Inr (), s1\<lparr>page_q := q\<rparr>) \<and>
    pool_ok (s1\<lparr>page_q := q\<rparr>) (freed_to s p fl)"
proof -
  have np: "p \<notin> set fl" using pool p(3) by (auto simp: pool_ok_def)
  then have pool1: "pool_ok s1 fl" using pool by (auto simp: pool_ok_def s1_def)
  have one: "pp_ref s1 p = 0 \<longleftrightarrow> pp_ref s p = 1" by (simp add: s1_def)
  show ?thesis
  proof (cases "pp_ref s p = 1")
    case True
    then show ?thesis using page_free_eq [OF pool1, of p] one p np
      by (auto simp: freed_to_def s1_def)
  next
    case False
    then have "s1\<lparr>page_q := page_q s1\<rparr> = s1" by simp
    then show ?thesis using False one pool1
      by (intro exI [where x = "page_q s1"]) (simp add: freed_to_def)
  qed
qed

subsection \<open>Properties\<close>

lemma counter_eq: "counter (word_of_nat m) (word_of_nat n) = map word_of_nat [m..<n]"
  if "m < 2 ^ 64" "n < 2 ^ 64"
  using that by (simp add: counter_def unat_of_nat)

text \<open>A small machine: eight pages, the first two taken at boot.\<close>

definition small_state :: kstate where
  "small_state = page_init (reset_state\<lparr>npage := 8, freemem := 0x2000\<rparr>)"

lemma small_boot_end: "ROUND 0x2000 BY2PG div BY2PG = 2"
  by (simp add: ROUND_def BY2PG_def)

lemma small_pool: "pool_ok small_state [7, 6, 5, 4, 3, 2]"
  "npage small_state = 8" "mem small_state = (\<lambda>_. 0)" "pp_ref small_state p = (if p < 2 then 1 else 0)"
proof -
  let ?s = "reset_state\<lparr>npage := 8, freemem := 0x2000\<rparr>"
  have "npage ?s \<le> 2 ^ 40" "0 < ROUND (freemem ?s) BY2PG div BY2PG" by (simp_all add: small_boot_end)
  note i = page_init_pool [OF this, folded small_state_def]
  show "pool_ok small_state [7, 6, 5, 4, 3, 2]"
    using i(1) by (simp add: small_boot_end counter_def upt_rec)
  show "npage small_state = 8" "mem small_state = (\<lambda>_. 0)"
    using i(3,4) by (simp_all add: reset_state_def)
  show "pp_ref small_state p = (if p < 2 then 1 else 0)"
    using i(2) [of p] by (auto simp: small_boot_end reset_state_def not_less)
qed

text \<open>C26: \<open>page_init\<close> hands every page behind the boot allocations, and no other, to the free list,
  which a traversal visits from the highest page down; these pages have no reference, the pages
  before them one.\<close>

lemma page_init_spec:
  assumes "npage s \<le> 2 ^ 40" and "n = ROUND (freemem s) BY2PG div BY2PG" and "0 < n"
  shows "LIST_FOREACH (page_q (page_init s)) () = Some (rev (counter n (npage s))) \<and>
    set (counter n (npage s)) = {p. n \<le> p \<and> p < npage s} \<and>
    (\<forall>p. n \<le> p \<and> p < npage s \<longrightarrow> pp_ref (page_init s) p = 0) \<and>
    (\<forall>p < n. p < npage s \<longrightarrow> pp_ref (page_init s) p = 1)"
proof -
  note i = page_init_pool [OF assms(1) assms(3) [unfolded assms(2)], folded assms(2)]
  have "LIST_FOREACH (page_q (page_init s)) () = Some (rev (counter n (npage s)))"
    using i(1) by (auto simp: pool_ok_def intro: foreach_lst)
  moreover have "pp_ref (page_init s) p = 1" if "p < n" for p
    using i(2) [of p] that by (simp add: leD)
  ultimately show ?thesis using i(2) by (simp add: set_counter) (meson leD)
qed

lemma page_init_spec_witness:
  "LIST_FOREACH (page_q (page_init (reset_state\<lparr>npage := 5, freemem := 0x2000\<rparr>))) () = Some [4, 3, 2]"
proof -
  let ?s = "reset_state\<lparr>npage := 5, freemem := 0x2000\<rparr>"
  have "npage ?s \<le> 2 ^ 40" "2 = ROUND (freemem ?s) BY2PG div BY2PG" "(0 :: u64) < 2"
    by (simp_all add: small_boot_end)
  from page_init_spec [OF this, THEN conjunct1] show ?thesis by (simp add: counter_def upt_rec)
qed

text \<open>C24: \<open>page_alloc\<close> takes the first page of the free list and clears it, changing no byte outside
  the page and no reference count; with an empty list it reports \<open>E_NO_MEM\<close> and changes nothing.\<close>

lemma page_alloc_spec:
  assumes "pool_ok s fl"
  shows "case fl of
      [] \<Rightarrow> page_alloc s = (Inr (- E_NO_MEM, None), s)
    | p # fl' \<Rightarrow> \<exists>s'. page_alloc s = (Inr (0, Some p), s') \<and> pool_ok s' fl' \<and>
        pp_ref s' = pp_ref s \<and>
        (\<forall>x. mem s' x = (if x - page2pa p < 4096 then 0 else mem s x))"
proof (cases fl)
  case Nil
  then show ?thesis using assms page_alloc_Nil by simp
next
  case (Cons p fl')
  from page_alloc_Cons [OF assms [unfolded Cons]] obtain q where q: "page_alloc s = (Inr (0, Some p),
      s\<lparr>page_q := q, mem := zeroed (mem s) (page2pa p) BY2PG\<rparr>)" "lst q () fl'" by blast
  then show ?thesis using pool_ok_tl [OF assms [unfolded Cons] q(2)] Cons
    by (simp add: zeroed_def in_block_def BY2PG_def)
qed

lemma page_alloc_spec_witness: "\<exists>s'. page_alloc small_state = (Inr (0, Some 7), s')"
  using page_alloc_spec [OF small_pool(1)] by auto

text \<open>C23: any number of allocations in a row hands out the pages of the free list, each once, and as
  many as there are: no page is lost and none is given twice.\<close>

lemma page_alloc_exhausts:
  assumes "pool_ok s fl"
  shows "\<exists>s'. alloc_many page_alloc n s = (take n fl, s') \<and> pool_ok s' (drop n fl) \<and> distinct (take n fl)"
  using pp.alloc_many_pool [OF assms, of n] pool_distinct [OF assms] by auto

lemma page_alloc_exhausts_witness:
  "\<exists>s'. alloc_many page_alloc 10 small_state = ([7, 6, 5, 4, 3, 2], s') \<and> pool_ok s' []"
  using page_alloc_exhausts [OF small_pool(1), of 10] by simp

text \<open>\<open>page_decref\<close> takes one reference from a page; the page goes to the front of the free list
  exactly when it was the last one.\<close>

lemma page_decref_spec:
  assumes "pool_ok s fl" and "0 < p" and "p < npage s" and "pp_ref s p \<noteq> 0"
  shows "\<exists>s'. page_decref p s = (Inr (), s') \<and> pp_ref s' = (pp_ref s)(p := pp_ref s p - 1) \<and>
    pool_ok s' (if pp_ref s p = 1 then p # fl else fl) \<and> mem s' = mem s"
proof -
  from drop_ref [OF assms] obtain q where
    "page_decref p s = (Inr (), s\<lparr>pp_ref := (pp_ref s)(p := pp_ref s p - 1), page_q := q\<rparr>)"
    "pool_ok (s\<lparr>pp_ref := (pp_ref s)(p := pp_ref s p - 1), page_q := q\<rparr>) (freed_to s p fl)"
    by (auto simp: page_decref_def Let_def)
  then show ?thesis by (simp add: freed_to_def)
qed

lemma page_decref_spec_witness:
  "\<exists>s'. page_decref 1 small_state = (Inr (), s') \<and> pool_ok s' [1, 7, 6, 5, 4, 3, 2]"
  using page_decref_spec [OF small_pool(1), of 1] small_pool(2,4) by auto

end
