(* ===== verification/Page_Table.thy ===== *)
theory Page_Table
  imports Page_Alloc
begin

text \<open>
  The three-level page tables of \<^verbatim>\<open>mm/pmap.c\<close>: \<open>pgdir_walk\<close>, \<open>page_lookup\<close>, \<open>page_insert\<close>,
  \<open>page_remove\<close>. They are specified against the view of a page directory as a map from slots
  (the three indices of a virtual address) to leaf descriptors, \<open>pt_view\<close>; the tables in memory
  form a tree whose pages are pairwise different and not free (\<open>pt_ok\<close>).
\<close>

subsection \<open>Operations\<close>

definition table_desc :: "u64 \<Rightarrow> u64" where
  "table_desc p = page2pa p OR TYPE_PAGE OR PTE_AF OR PTE_USER OR PTE_ISH OR PTE_NORMAL"

definition page_desc :: "u64 \<Rightarrow> u32 \<Rightarrow> u64" where
  "page_desc p PERM =
     page2pa p OR ucast PERM OR TYPE_PAGE OR PTE_AF OR PTE_USER OR PTE_ISH OR PTE_NORMAL"

text \<open>
  One level of \<open>pgdir_walk\<close>: the status and the next table. The code has it twice, for the
  upper and for the middle directory.
\<close>

definition walk_level :: "u64 \<Rightarrow> u64 \<Rightarrow> bool \<Rightarrow> (int \<times> u64) kfun" where
  "walk_level tbl i create s =
     (let entryp = entry tbl i; e = load64 (mem s) entryp in
      if e AND PTE_V = 0 \<and> create then
        kbind page_alloc (\<lambda>(r, pp) s.
          case pp of
            Some ppage \<Rightarrow>
              (if r \<noteq> 0 then (Inr (- E_NO_MEM, 0), s)
               else (Inr (0, page2pa ppage),
                     incref ppage (s\<lparr>mem := store64 (mem s) entryp (table_desc ppage)\<rparr>)))
          | None \<Rightarrow> (if r \<noteq> 0 then (Inr (- E_NO_MEM, 0), s) else (Inl Null_deref, s))) s
      else if e AND PTE_V = 0 then (Inr (- E_NO_MEM, 0), s)
      else (Inr (0, PTE_ADDR e), s))"

text \<open>The status and what is stored through \<^verbatim>\<open>ppte\<close>; NULL is 0.\<close>

definition pgdir_walk :: "u64 \<Rightarrow> u64 \<Rightarrow> bool \<Rightarrow> (int \<times> u64) kfun" where
  "pgdir_walk pud va create =
     kbind (walk_level pud (PUDX va) create) (\<lambda>(r, pmd).
       if r \<noteq> 0 then kret (- E_NO_MEM, 0)
       else kbind (walk_level pmd (PMDX va) create) (\<lambda>(r, pte).
         if r \<noteq> 0 then kret (- E_NO_MEM, 0)
         else kret (0, entry pte (PTEX va))))"

text \<open>
  The page, and what is stored through \<^verbatim>\<open>ppte\<close> (all callers pass a pointer) when there is one.
\<close>

definition page_lookup :: "u64 \<Rightarrow> u64 \<Rightarrow> (u64 \<times> u64) option kfun" where
  "page_lookup pud va =
     kbind (pgdir_walk pud va False) (\<lambda>(_, pte) s.
       if pte = 0 then (Inr None, s)
       else if load64 (mem s) pte AND PTE_V = 0 then (Inr None, s)
       else kbind (pa2page (load64 (mem s) pte)) (\<lambda>ppage. kret (Some (ppage, pte))) s)"

definition page_remove :: "u64 \<Rightarrow> u64 \<Rightarrow> unit kfun" where
  "page_remove pud va =
     kbind (page_lookup pud va) (\<lambda>r s.
       case r of
         None \<Rightarrow> (Inr (), s)
       | Some (ppage, ent) \<Rightarrow>
           (let s = s\<lparr>pp_ref := (pp_ref s)(ppage := pp_ref s ppage - 1)\<rparr> in
            kbind (\<lambda>s. if pp_ref s ppage = 0 then page_free ppage s else (Inr (), s))
              (\<lambda>_ s. let s = s\<lparr>mem := store64 (mem s) ent 0\<rparr> in (Inr (), tlb_invalidate s)) s))"

text \<open>
  The second half of \<open>page_insert\<close>: walk, making tables as needed, and write the leaf.
\<close>

definition install :: "u64 \<Rightarrow> u64 \<Rightarrow> u64 \<Rightarrow> u32 \<Rightarrow> int kfun" where
  "install pud pp va PERM =
     kbind (\<lambda>s. pgdir_walk pud va True (tlb_invalidate s)) (\<lambda>(status, ent) s.
       if status \<noteq> 0 then (Inr (- E_NO_MEM), s)
       else (let s = s\<lparr>mem := store64 (mem s) ent (page_desc pp PERM)\<rparr> in
             (Inr 0, incref pp s)))"

definition page_insert :: "u64 \<Rightarrow> u64 \<Rightarrow> u64 \<Rightarrow> u32 \<Rightarrow> int kfun" where
  "page_insert pud pp va perm =
     (let PERM = perm OR ucast PTE_V in
      kbind (pgdir_walk pud va False) (\<lambda>(_, ent) s.
        if ent \<noteq> 0 \<and> load64 (mem s) ent AND PTE_V \<noteq> 0 then
          kbind (pa2page (load64 (mem s) ent)) (\<lambda>old.
            if old \<noteq> pp then kbind (page_remove pud va) (\<lambda>_. install pud pp va PERM)
            else (\<lambda>s. let s = tlb_invalidate s;
                          s = s\<lparr>mem := store64 (mem s) ent (page_desc pp PERM)\<rparr>
                      in (Inr 0, s))) s
        else install pud pp va PERM s))"

subsection \<open>The tree of tables\<close>

definition is_table_desc :: "u64 \<Rightarrow> bool" where
  "is_table_desc e \<longleftrightarrow> e AND 3 = TYPE_PAGE"

definition next_tab :: "memory \<Rightarrow> u64 \<Rightarrow> u64 \<Rightarrow> u64 option" where
  "next_tab m t i = (let e = load64 m (entry t i) in
     if is_table_desc e then Some (PTE_ADDR e) else None)"

text \<open>The table reached from the table \<open>t\<close> along a path of indices.\<close>

fun tab :: "memory \<Rightarrow> u64 \<Rightarrow> u64 list \<Rightarrow> u64 option" where
  "tab m t [] = Some t"
| "tab m t (i # is) = do { t' \<leftarrow> next_tab m t i; tab m t' is }"

text \<open>Paths to the tables of a directory: itself, the middle directories, the leaf tables.\<close>

definition is_path :: "u64 list \<Rightarrow> bool" where
  "is_path p \<longleftrightarrow> length p \<le> 2 \<and> (\<forall>i \<in> set p. i < 512)"

definition pt_inj :: "memory \<Rightarrow> u64 \<Rightarrow> bool" where
  "pt_inj m pud \<longleftrightarrow> (\<forall>p q t. is_path p \<longrightarrow> is_path q \<longrightarrow>
     tab m pud p = Some t \<longrightarrow> tab m pud q = Some t \<longrightarrow> p = q)"

definition is_tab :: "memory \<Rightarrow> u64 \<Rightarrow> u64 \<Rightarrow> bool" where
  "is_tab m pud t \<longleftrightarrow> (\<exists>q. is_path q \<and> tab m pud q = Some t)"

definition pt_ok :: "memory \<Rightarrow> u64 \<Rightarrow> u64 list \<Rightarrow> bool" where
  "pt_ok m pud fl \<longleftrightarrow> page_aligned pud \<and> pt_inj m pud \<and>
     (\<forall>t. is_tab m pud t \<longrightarrow> t \<noteq> 0 \<and> t \<notin> page2pa ` set fl)"

definition vm_ok :: "kstate \<Rightarrow> u64 \<Rightarrow> u64 list \<Rightarrow> bool" where
  "vm_ok s pud fl \<longleftrightarrow> pool_ok s fl \<and> pt_ok (mem s) pud fl"

text \<open>The leaf descriptor of a slot; 0 where the tables do not reach that far.\<close>

fun pt_view :: "memory \<Rightarrow> u64 \<Rightarrow> slot \<Rightarrow> u64" where
  "pt_view m pud (i, j, k) =
     (case tab m pud [i, j] of None \<Rightarrow> 0 | Some t \<Rightarrow> load64 m (entry t k))"

definition is_slot :: "slot \<Rightarrow> bool" where
  "is_slot sl \<longleftrightarrow> (case sl of (i, j, k) \<Rightarrow> i < 512 \<and> j < 512 \<and> k < 512)"

text \<open>
  The code takes every valid entry of a directory for a table. \<open>no_block m pud va\<close>: the walk for
  \<open>va\<close> meets no block descriptor, which it would misread.
\<close>

definition ok_entry :: "u64 \<Rightarrow> bool" where
  "ok_entry e \<longleftrightarrow> e AND PTE_V = 0 \<or> is_table_desc e"

definition no_block :: "memory \<Rightarrow> u64 \<Rightarrow> u64 \<Rightarrow> bool" where
  "no_block m pud va \<longleftrightarrow> ok_entry (load64 m (entry pud (PUDX va))) \<and>
     (case next_tab m pud (PUDX va) of None \<Rightarrow> True
      | Some t \<Rightarrow> ok_entry (load64 m (entry t (PMDX va))))"

subsection \<open>Descriptors\<close>

lemma table_desc_eq: "table_desc p = page2pa p OR 0x743"
  by (simp add: table_desc_def mmu_consts or.assoc push_bit_eq_mult)

lemma page_desc_eq: "page_desc p perm = page2pa p OR (ucast perm OR 0x743)"
  by (simp add: page_desc_def mmu_consts or.assoc push_bit_eq_mult)

lemma low_bits_page2pa: "page2pa p AND 3 = 0" "page2pa p AND 1 = 0"
proof -
  have b: "\<not> bit (page2pa p) n" if "n < 12" for n
    using that by (simp add: page2pa_def bit_simps)
  have "(3 :: u64) = mask 2" by (simp add: mask_eq_exp_minus_1)
  then have "page2pa p AND 3 = take_bit 2 (page2pa p)" by (metis take_bit_eq_mask)
  also have "\<dots> = 0" by (intro bit_word_eqI) (auto simp: bit_take_bit_iff b)
  finally show "page2pa p AND 3 = 0" .
  have "even (page2pa p)" using b [of 0] by (simp add: bit_0)
  then show "page2pa p AND 1 = 0" by (simp add: and_one_eq mod_2_eq_odd)
qed

lemma or_and_low: "(page2pa p OR attr) AND 3 = attr AND 3" "(page2pa p OR attr) AND 1 = attr AND 1"
  by (simp_all only: bit.conj_disj_distrib2 low_bits_page2pa or.left_neutral)

lemma table_desc_props [simp]:
  "is_table_desc (table_desc p)" "PTE_ADDR (table_desc p) = page2pa p"
  "table_desc p AND PTE_V \<noteq> 0"
  unfolding is_table_desc_def table_desc_eq
  by (simp_all add: or_and_low PTE_ADDR_or mmu_consts)

lemma table_desc_valid: "is_table_desc e \<Longrightarrow> e AND PTE_V \<noteq> 0"
proof -
  assume "is_table_desc e"
  then have "(e AND 3) AND 1 = 1" unfolding is_table_desc_def by (simp add: mmu_consts)
  moreover have "(e AND 3) AND 1 = e AND 1" by (simp only: and.assoc) simp
  ultimately show ?thesis by (simp only: mmu_consts) simp
qed

lemma not_table_0 [simp]: "\<not> is_table_desc 0"
  by (simp add: is_table_desc_def mmu_consts)

lemma small_by_bits:
  fixes w :: u64
  assumes "\<And>k. n \<le> k \<Longrightarrow> \<not> bit w k" and "n < 64"
  shows "w < 2 ^ n"
proof -
  have "take_bit n w = w"
    using assms(1) by (intro bit_word_eqI) (auto simp: bit_simps not_le [symmetric])
  then have "unat w = take_bit n (unat w)" by (metis unsigned_take_bit_eq)
  then have "unat w < 2 ^ n" by (metis take_bit_nat_less_exp)
  then show ?thesis using assms(2) by (simp add: word_less_nat_alt unat_pow2)
qed

lemma attr_small:
  assumes "perm < 4096"
  shows "(ucast (perm :: u32) OR 0x743 :: u64) < 4096"
proof -
  have "(ucast perm :: u64) < 2 ^ 12"
    using assms by (simp add: word_less_nat_alt unsigned_ucast_eq take_bit_nat_eq_self)
  moreover have "(0x743 :: u64) < 2 ^ 12" by simp
  ultimately have "(ucast perm OR 0x743 :: u64) < 2 ^ 12"
    by (intro small_by_bits) (auto simp only: bit_or_iff not_bit_small)
  then show ?thesis by simp
qed

lemma page_desc_valid [simp]: "page_desc p perm AND PTE_V \<noteq> 0"
proof -
  have "bit (page_desc p perm AND 1) 0"
    by (simp add: page_desc_eq bit_and_iff bit_or_iff)
  then show ?thesis by (auto simp: mmu_consts)
qed

lemma PPN_page_desc: "perm < 4096 \<Longrightarrow> p < 2 ^ 52 \<Longrightarrow> PPN (page_desc p perm) = p"
  by (simp add: page_desc_eq PPN_or attr_small)

subsection \<open>Tables and paths\<close>

lemma tab_append: "tab m t (p @ q) = do { t' \<leftarrow> tab m t p; tab m t' q }"
  by (induction p arbitrary: t) simp_all

lemma tab_aligned: "page_aligned t \<Longrightarrow> tab m t p = Some t' \<Longrightarrow> page_aligned t'"
proof (induction p arbitrary: t)
  case (Cons i p)
  then obtain t1 where "next_tab m t i = Some t1" "tab m t1 p = Some t'"
    by (auto simp: bind_eq_Some_conv)
  then show ?case using Cons.IH [of t1] by (auto simp: next_tab_def Let_def split: if_splits)
qed simp

text \<open>A table is found again in a memory that agrees on the entries along the path.\<close>

lemma tab_cong:
  assumes "\<And>q i r t'. p = q @ i # r \<Longrightarrow> tab m t q = Some t' \<Longrightarrow>
    load64 m' (entry t' i) = load64 m (entry t' i)"
  shows "tab m' t p = tab m t p"
  using assms
proof (induction p arbitrary: t)
  case (Cons i p)
  have "load64 m' (entry t i) = load64 m (entry t i)" using Cons.prems [of "[]"] by simp
  then have n: "next_tab m' t i = next_tab m t i" by (simp add: next_tab_def)
  show ?case
  proof (cases "next_tab m t i")
    case (Some t')
    have "tab m' t' p = tab m t' p"
    proof (rule Cons.IH)
      fix q j r t'' assume "p = q @ j # r" and "tab m t' q = Some t''"
      then show "load64 m' (entry t'' j) = load64 m (entry t'' j)"
        using Cons.prems [of "i # q" j r t''] Some by simp
    qed
    then show ?thesis using n Some by simp
  qed (simp add: n)
qed simp

lemma is_path_prefix: "is_path (p @ q) \<Longrightarrow> is_path p"
  by (auto simp: is_path_def)

lemma pt_injD:
  "pt_inj m pud \<Longrightarrow> is_path p \<Longrightarrow> is_path q \<Longrightarrow> tab m pud p = Some t \<Longrightarrow>
    tab m pud q = Some t \<Longrightarrow> p = q"
  unfolding pt_inj_def by blast

text \<open>Writing an entry changes only the tables below it.\<close>

lemma tab_store:
  assumes "pt_inj m pud" "page_aligned pud" "is_path p" "tab m pud p = Some t" "i < 512"
    and "is_path q" and "\<And>r. q \<noteq> p @ i # r"
  shows "tab (store64 m (entry t i) v) pud q = tab m pud q"
proof (rule tab_cong)
  fix q1 j r t1 assume q: "q = q1 @ j # r" and t1: "tab m pud q1 = Some t1"
  have j: "j < 512" and q1: "is_path q1" using assms(6) q by (auto simp: is_path_def)
  have "t = t1 \<Longrightarrow> p = q1" using pt_injD [OF assms(1,3) q1 assms(4)] t1 by simp
  then have "\<not> (t = t1 \<and> i = j)" using assms(7) q by auto
  then show "load64 (store64 m (entry t i) v) (entry t1 j) = load64 m (entry t1 j)"
    using assms(2,4,5) t1 j tab_aligned by (auto simp: ts.get_put_cell)
qed

text \<open>Clearing a page that is no table changes none.\<close>

lemma tab_zeroed:
  assumes "page_aligned pud" "page_aligned f" "is_path q"
    and "\<And>q. is_path q \<Longrightarrow> tab m pud q \<noteq> Some f"
  shows "tab (zeroed m f BY2PG) pud q = tab m pud q"
proof (rule tab_cong)
  fix q1 j r t1 assume q: "q = q1 @ j # r" and t1: "tab m pud q1 = Some t1"
  have "j < 512" "is_path q1" using assms(3) q by (auto simp: is_path_def)
  then show "load64 (zeroed m f BY2PG) (entry t1 j) = load64 m (entry t1 j)"
    using assms(2,4) t1 tab_aligned [OF assms(1) t1] by (auto simp: ts.get_clear)
qed

subsection \<open>Growing the tree\<close>

text \<open>
  The memory after \<open>walk_level\<close> has hung the fresh page \<open>f\<close> at entry \<open>i\<close> of the table \<open>t\<close>,
  which lies at the path \<open>p\<close>: one more table, empty, and the same leaves.
\<close>

definition hang :: "memory \<Rightarrow> u64 \<Rightarrow> u64 \<Rightarrow> u64 \<Rightarrow> memory" where
  "hang m t i f = store64 (zeroed m (page2pa f) BY2PG) (entry t i) (table_desc f)"

lemma hang_entries:
  assumes "page_aligned t" "page_aligned t'" "i < 512" "j < 512" "t \<noteq> page2pa f"
  shows "load64 (hang m t i f) (entry t' j) =
    (if t = t' \<and> i = j then table_desc f else if page2pa f = t' then 0 else load64 m (entry t' j))"
  unfolding hang_def using assms by (intro ts.get_put_clear) auto

lemma tab_hang_below:
  assumes "page_aligned t" "i < 512" "t \<noteq> page2pa f" "is_path (i # r)"
  shows "tab (hang m t i f) t (i # r) = (if r = [] then Some (page2pa f) else None)"
proof -
  have n: "next_tab (hang m t i f) t i = Some (page2pa f)"
    using assms by (simp add: next_tab_def hang_entries)
  show ?thesis
  proof (cases r)
    case (Cons j r')
    then have "j < 512" using assms(4) by (simp add: is_path_def)
    then have "next_tab (hang m t i f) (page2pa f) j = None"
      using assms by (simp add: next_tab_def hang_entries)
    then show ?thesis using n Cons by simp
  qed (simp add: n)
qed

lemma tab_hang:
  assumes inj: "pt_inj m pud" and al: "page_aligned pud" and p: "is_path p"
    and t: "tab m pud p = Some t" and i: "i < 512"
    and fresh: "\<And>q. is_path q \<Longrightarrow> tab m pud q \<noteq> Some (page2pa f)"
    and q: "is_path q" "\<And>r. q \<noteq> p @ i # r"
  shows "tab (hang m t i f) pud q = tab m pud q"
proof -
  let ?z = "zeroed m (page2pa f) BY2PG"
  have z: "tab ?z pud q = tab m pud q" if "is_path q" for q
    using that fresh by (intro tab_zeroed [OF al]) auto
  then have "pt_inj ?z pud" using inj by (simp add: pt_inj_def)
  then show ?thesis unfolding hang_def
    using tab_store [of ?z pud p t i q "table_desc f"] al p t i q z by simp
qed

lemma tab_hang_Some:
  assumes inj: "pt_inj m pud" and al: "page_aligned pud" and p: "is_path (p @ [i])"
    and t: "tab m pud p = Some t" and nt: "next_tab m t i = None"
    and fresh: "\<And>q. is_path q \<Longrightarrow> tab m pud q \<noteq> Some (page2pa f)"
    and q: "is_path q"
  shows "tab (hang m t i f) pud q = (if q = p @ [i] then Some (page2pa f) else tab m pud q)"
proof (cases "\<exists>r. q = p @ i # r")
  case False
  then show ?thesis using tab_hang [OF inj al is_path_prefix [OF p] t _ fresh q] p
    by (auto simp: is_path_def)
next
  case True
  then obtain r where r: "q = p @ i # r" ..
  have i: "i < 512" "is_path p" using p by (auto simp: is_path_def)
  have "tab (hang m t i f) pud p = Some t"
    using tab_hang [OF inj al i(2) t i(1) fresh i(2)] t by simp
  moreover have "t \<noteq> page2pa f" using fresh [OF i(2)] t by auto
  ultimately have "tab (hang m t i f) pud q = (if r = [] then Some (page2pa f) else None)"
    using tab_hang_below [of t i f r m] tab_aligned [OF al t] i(1) q r
    by (auto simp: tab_append is_path_def)
  moreover have "tab m pud q = None" using r t nt by (simp add: tab_append)
  ultimately show ?thesis using r by simp
qed

lemma hang_inj:
  assumes inj: "pt_inj m pud" and al: "page_aligned pud" and p: "is_path (p @ [i])"
    and t: "tab m pud p = Some t" and nt: "next_tab m t i = None"
    and fresh: "\<And>q. is_path q \<Longrightarrow> tab m pud q \<noteq> Some (page2pa f)"
  shows "pt_inj (hang m t i f) pud"
proof -
  note h = tab_hang_Some [OF inj al p t nt fresh]
  show ?thesis unfolding pt_inj_def
    using h fresh pt_injD [OF inj] by (auto split: if_splits)
qed

lemma hang_view:
  assumes inj: "pt_inj m pud" and al: "page_aligned pud" and p: "is_path (p @ [i])" "length p \<le> 1"
    and t: "tab m pud p = Some t" and nt: "next_tab m t i = None"
    and fresh: "\<And>q. is_path q \<Longrightarrow> tab m pud q \<noteq> Some (page2pa f)"
    and sl: "is_slot sl"
  shows "pt_view (hang m t i f) pud sl = pt_view m pud sl"
proof -
  obtain a b c where s: "sl = (a, b, c)" by (cases sl)
  then have abc: "a < 512" "b < 512" "c < 512" and q: "is_path [a, b]"
    using sl by (auto simp: is_slot_def is_path_def)
  have ip: "is_path p" "i < 512" using p by (auto simp: is_path_def)
  have tf: "t \<noteq> page2pa f" using fresh [OF ip(1)] t by auto
  note h = tab_hang_Some [OF inj al p(1) t nt fresh q]
  note ent = hang_entries [OF tab_aligned [OF al t] _ ip(2) abc(3) tf]
  show ?thesis
  proof (cases "[a, b] = p @ [i]")
    case True
    then have "tab m pud [a, b] = None" using t nt by (simp only: tab_append) simp
    moreover have "load64 (hang m t i f) (entry (page2pa f) c) = 0" using ent tf by simp
    moreover have "tab (hang m t i f) pud [a, b] = Some (page2pa f)"
      by (rule trans [OF h]) (use True in simp_all)
    ultimately show ?thesis by (simp add: s del: tab.simps)
  next
    case False
    have "load64 (hang m t i f) (entry t' c) = load64 m (entry t' c)"
      if "tab m pud [a, b] = Some t'" for t'
    proof -
      have "t \<noteq> t'" using pt_injD [OF inj ip(1) q t] that p(2) by auto
      then show ?thesis using ent [of t' m] tab_aligned [OF al that] fresh [OF q] that by auto
    qed
    then show ?thesis using h False s by (simp del: tab.simps split: option.split)
  qed
qed

subsection \<open>One level of the walk\<close>

lemma next_tab_None: "ok_entry (load64 m (entry t i)) \<Longrightarrow>
    next_tab m t i = None \<longleftrightarrow> load64 m (entry t i) AND PTE_V = 0"
  using table_desc_valid by (auto simp: next_tab_def ok_entry_def Let_def)

lemma walk_level_found:
  assumes "next_tab (mem s) t i = Some t'"
  shows "walk_level t i create s = (Inr (0, t'), s)"
  using assms table_desc_valid by (auto simp: walk_level_def next_tab_def Let_def split: if_splits)

lemma walk_level_missing:
  assumes "ok_entry (load64 (mem s) (entry t i))" and "next_tab (mem s) t i = None"
  shows "walk_level t i False s = (Inr (- E_NO_MEM, 0), s)"
  using assms by (simp add: walk_level_def next_tab_None Let_def)

lemma walk_level_full:
  assumes "ok_entry (load64 (mem s) (entry t i))" and "next_tab (mem s) t i = None"
    and "pool_ok s []"
  shows "walk_level t i True s = (Inr (- E_NO_MEM, 0), s)"
  using assms by (simp add: walk_level_def next_tab_None Let_def page_alloc_Nil E_NO_MEM_def)

lemma walk_level_new:
  assumes "ok_entry (load64 (mem s) (entry t i))" and "next_tab (mem s) t i = None"
    and "pool_ok s (f # fl)"
  shows "\<exists>q. walk_level t i True s = (Inr (0, page2pa f),
      s\<lparr>page_q := q, mem := hang (mem s) t i f, pp_ref := (pp_ref s)(f := pp_ref s f + 1)\<rparr>) \<and>
    lst q () fl"
proof -
  from page_alloc_Cons [OF assms(3)] obtain q where
    "page_alloc s = (Inr (0, Some f), s\<lparr>page_q := q, mem := zeroed (mem s) (page2pa f) BY2PG\<rparr>)"
    "lst q () fl" by blast
  then show ?thesis using assms(1,2)
    by (auto simp: walk_level_def next_tab_None Let_def hang_def incref_def)
qed

subsection \<open>Walks that create tables\<close>

text \<open>Nothing but memory, page references, the free list and the trace has changed.\<close>

definition same_rest :: "kstate \<Rightarrow> kstate \<Rightarrow> bool" where
  "same_rest s s' \<longleftrightarrow>
     s'\<lparr>mem := mem s, page_q := page_q s, pp_ref := pp_ref s, trace := trace s\<rparr> = s"

text \<open>
  From \<open>s\<close> to \<open>s'\<close> the tree of \<open>pud\<close> has only grown: the pages \<open>used\<close>, the first ones of the free
  list, are new tables with one reference each; no leaf and no other memory has changed.
\<close>

definition grown :: "u64 \<Rightarrow> kstate \<Rightarrow> kstate \<Rightarrow> u64 list \<Rightarrow> bool" where
  "grown pud s s' used \<longleftrightarrow>
     (\<forall>sl. is_slot sl \<longrightarrow> pt_view (mem s') pud sl = pt_view (mem s) pud sl) \<and>
     (\<forall>x. pp_ref s' x = (if x \<in> set used then 1 else pp_ref s x)) \<and>
     (\<forall>t. is_tab (mem s') pud t \<longleftrightarrow> is_tab (mem s) pud t \<or> t \<in> page2pa ` set used) \<and>
     (\<forall>q t. is_path q \<longrightarrow> tab (mem s) pud q = Some t \<longrightarrow> tab (mem s') pud q = Some t) \<and>
     (\<forall>t c. page_aligned t \<longrightarrow> c < 512 \<longrightarrow> \<not> is_tab (mem s') pud t \<longrightarrow>
        load64 (mem s') (entry t c) = load64 (mem s) (entry t c))"

definition grows :: "u64 \<Rightarrow> kstate \<Rightarrow> u64 list \<Rightarrow> kstate \<Rightarrow> u64 list \<Rightarrow> bool" where
  "grows pud s fl s' fl' \<longleftrightarrow> vm_ok s' pud fl' \<and> same_rest s s' \<and>
     (\<exists>used. fl = used @ fl' \<and> grown pud s s' used)"

lemma same_rest_refl [simp]: "same_rest s s"
  by (simp add: same_rest_def)

lemma same_rest_npage: "same_rest s s' \<Longrightarrow> npage s' = npage s"
  unfolding same_rest_def by (drule arg_cong [where f = npage]) simp

lemma same_rest_trans:
  assumes "same_rest s s'" "same_rest s' s''"
  shows "same_rest s s''"
proof -
  have "s''\<lparr>mem := mem s, page_q := page_q s, pp_ref := pp_ref s, trace := trace s\<rparr> =
    (s''\<lparr>mem := mem s', page_q := page_q s', pp_ref := pp_ref s', trace := trace s'\<rparr>)
      \<lparr>mem := mem s, page_q := page_q s, pp_ref := pp_ref s, trace := trace s\<rparr>" by simp
  then show ?thesis using assms by (simp only: same_rest_def)
qed

lemma grown_refl: "grown pud s s []"
  by (simp add: grown_def)

lemma grown_trans:
  assumes "grown pud s s' us" "grown pud s' s'' vs"
  shows "grown pud s s'' (us @ vs)"
  using assms unfolding grown_def by (auto simp: image_Un)

lemma grows_refl: "vm_ok s pud fl \<Longrightarrow> grows pud s fl s fl"
  by (simp add: grows_def grown_refl)

lemma grows_trans: "grows pud s fl s' fl' \<Longrightarrow> grows pud s' fl' s'' fl'' \<Longrightarrow> grows pud s fl s'' fl''"
  unfolding grows_def by (metis append.assoc grown_trans same_rest_trans)

lemma is_tabI: "is_path q \<Longrightarrow> tab m pud q = Some t \<Longrightarrow> is_tab m pud t"
  by (auto simp: is_tab_def)

lemma pool_page: "pool_ok s fl \<Longrightarrow> f \<in> set fl \<Longrightarrow> 0 < f \<and> f < 2 ^ 40 \<and> pp_ref s f = 0"
  by (meson order.strict_trans2 pool_ok_def)

lemma page2pa_eq_iff: "p < 2 ^ 40 \<Longrightarrow> q < 2 ^ 40 \<Longrightarrow> page2pa p = page2pa q \<longleftrightarrow> p = q"
  by (rule page2pa_inj) (auto elim: order.strict_trans)

lemma page2pa_neq_0: "0 < p \<Longrightarrow> p < 2 ^ 40 \<Longrightarrow> page2pa p \<noteq> 0"
  using page2pa_eq_iff [of p 0] by (auto simp: page2pa_def page2ppn_def)

lemma is_tab_hang:
  assumes inj: "pt_inj m pud" and al: "page_aligned pud" and p: "is_path (p @ [i])"
    and t: "tab m pud p = Some t" and nt: "next_tab m t i = None"
    and fresh: "\<And>q. is_path q \<Longrightarrow> tab m pud q \<noteq> Some (page2pa f)"
  shows "is_tab (hang m t i f) pud x \<longleftrightarrow> is_tab m pud x \<or> x = page2pa f"
proof -
  note h = tab_hang_Some [OF inj al p t nt fresh]
  have "tab m pud (p @ [i]) = None" using t nt by (simp add: tab_append)
  then have "is_tab m pud x \<or> x = page2pa f \<Longrightarrow> is_tab (hang m t i f) pud x"
    using h p by (fastforce simp: is_tab_def)
  moreover have "is_tab (hang m t i f) pud x \<Longrightarrow> is_tab m pud x \<or> x = page2pa f"
    using h by (auto simp: is_tab_def split: if_splits)
  ultimately show ?thesis by blast
qed

lemma hang_grows:
  assumes vm: "vm_ok s pud (f # fl)" and p: "is_path (p @ [i])" "length p \<le> 1"
    and t: "tab (mem s) pud p = Some t" and nt: "next_tab (mem s) t i = None"
    and q: "lst q () fl"
  defines "s' \<equiv> s\<lparr>page_q := q, mem := hang (mem s) t i f, pp_ref := (pp_ref s)(f := pp_ref s f + 1)\<rparr>"
  shows "grows pud s (f # fl) s' fl"
proof -
  have pool: "pool_ok s (f # fl)" and al: "page_aligned pud" and inj: "pt_inj (mem s) pud"
    and nf: "\<And>x. is_tab (mem s) pud x \<Longrightarrow> x \<noteq> 0 \<and> x \<notin> page2pa ` set (f # fl)"
    using vm by (auto simp: vm_ok_def pt_ok_def)
  have fresh: "tab (mem s) pud q \<noteq> Some (page2pa f)" if "is_path q" for q
    using nf [of "page2pa f"] is_tabI [OF that] by auto
  note h = tab_hang_Some [OF inj al p(1) t nt fresh]
  have fd: "f \<notin> set fl" using pool_distinct [OF pool] by simp
  have tf: "t \<noteq> page2pa f" using fresh [OF is_path_prefix [OF p(1)]] t by auto
  note tabs = is_tab_hang [OF inj al p(1) t nt fresh]
  have "page2pa f \<notin> page2pa ` set fl" "page2pa f \<noteq> 0"
    using fd pool_page [OF pool] page2pa_neq_0 by (auto simp: page2pa_eq_iff)
  then have "pt_ok (hang (mem s) t i f) pud fl"
    using hang_inj [OF inj al p(1) t nt fresh] al nf tabs by (auto simp: pt_ok_def)
  moreover have "pool_ok s' fl" using pool q fd by (auto simp: pool_ok_def s'_def)
  moreover have "grown pud s s' [f]"
    unfolding grown_def
  proof (intro conjI allI impI)
    show "pt_view (mem s') pud sl = pt_view (mem s) pud sl" if "is_slot sl" for sl
      using hang_view [OF inj al p t nt fresh that] by (simp add: s'_def)
    show "pp_ref s' x = (if x \<in> set [f] then 1 else pp_ref s x)" for x
      using pool_page [OF pool, of f] by (simp add: s'_def)
    show "is_tab (mem s') pud x \<longleftrightarrow> is_tab (mem s) pud x \<or> x \<in> page2pa ` set [f]" for x
      using tabs by (simp add: s'_def)
    show "tab (mem s') pud q = Some x" if "is_path q" "tab (mem s) pud q = Some x" for q x
      using that h [OF _ that(1)] t nt by (auto simp: s'_def tab_append)
    show "load64 (mem s') (entry x c) = load64 (mem s) (entry x c)"
      if "page_aligned x" "c < 512" "\<not> is_tab (mem s') pud x" for x c
    proof -
      have "x \<noteq> t" "x \<noteq> page2pa f" using that(3) tabs is_tabI [OF is_path_prefix [OF p(1)] t]
        by (auto simp: s'_def)
      then show ?thesis
        using that p(1) hang_entries [OF tab_aligned [OF al t] that(1) _ that(2) tf]
        by (simp add: s'_def is_path_def)
    qed
  qed
  ultimately show ?thesis by (auto simp: grows_def vm_ok_def same_rest_def s'_def)
qed

lemma vm_okD:
  assumes "vm_ok s pud fl"
  shows "pool_ok s fl" "page_aligned pud" "pt_inj (mem s) pud"
    "is_tab (mem s) pud t \<Longrightarrow> t \<noteq> 0" "is_tab (mem s) pud t \<Longrightarrow> t \<notin> page2pa ` set fl"
  using assms by (auto simp: vm_ok_def pt_ok_def)

lemma walk_level_create:
  assumes vm: "vm_ok s pud fl" and p: "is_path (p @ [i])" "length p \<le> 1"
    and t: "tab (mem s) pud p = Some t" and ok: "ok_entry (load64 (mem s) (entry t i))"
  shows "(next_tab (mem s) t i = None \<and> fl = [] \<and> walk_level t i True s = (Inr (- E_NO_MEM, 0), s)) \<or>
    (\<exists>t' s' fl'. walk_level t i True s = (Inr (0, t'), s') \<and> grows pud s fl s' fl' \<and>
      (if next_tab (mem s) t i = None then fl \<noteq> [] \<and> fl' = tl fl else fl' = fl) \<and>
      tab (mem s') pud (p @ [i]) = Some t' \<and>
      (if next_tab (mem s) t i = None then \<forall>j<512. load64 (mem s') (entry t' j) = 0 else s' = s))"
proof (cases "next_tab (mem s) t i")
  case (Some t')
  then have "walk_level t i True s = (Inr (0, t'), s)" by (rule walk_level_found)
  moreover have "tab (mem s) pud (p @ [i]) = Some t'" using t Some by (simp add: tab_append)
  ultimately show ?thesis using Some grows_refl [OF vm] by auto
next
  case None
  note pool = vm_okD(1) [OF vm]
  show ?thesis
  proof (cases fl)
    case Nil
    then show ?thesis using walk_level_full [OF ok None] pool None by simp
  next
    case (Cons f fl')
    with walk_level_new [OF ok None, of f fl'] pool obtain q
      where w: "walk_level t i True s = (Inr (0, page2pa f), s\<lparr>page_q := q,
          mem := hang (mem s) t i f, pp_ref := (pp_ref s)(f := pp_ref s f + 1)\<rparr>)"
        and l: "lst q () fl'" by auto
    have g: "grows pud s fl (s\<lparr>page_q := q, mem := hang (mem s) t i f,
        pp_ref := (pp_ref s)(f := pp_ref s f + 1)\<rparr>) fl'"
      using hang_grows [OF vm [unfolded Cons] p t None l] Cons by simp
    have al: "page_aligned t" using tab_aligned vm_okD(2) [OF vm] t by blast
    have "is_tab (mem s) pud t" using is_tabI [OF is_path_prefix [OF p(1)] t] .
    then have tf: "t \<noteq> page2pa f" using vm_okD(5) [OF vm] Cons by auto
    have i: "i < 512" using p(1) by (simp add: is_path_def)
    have "load64 (hang (mem s) t i f) (entry (page2pa f) j) = 0" if "j < 512" for j
      using hang_entries [OF al _ i that tf] tf by simp
    moreover have "tab (hang (mem s) t i f) pud (p @ [i]) = Some (page2pa f)"
    proof -
      have "next_tab (hang (mem s) t i f) t i = Some (page2pa f)"
        using hang_entries [OF al al i i tf] by (simp add: next_tab_def)
      moreover have "tab (hang (mem s) t i f) pud p = Some t"
        using g t is_path_prefix [OF p(1)] by (auto simp: grows_def grown_def)
      ultimately show ?thesis by (simp add: tab_append)
    qed
    moreover have "fl \<noteq> [] \<and> fl' = tl fl" using Cons by simp
    ultimately show ?thesis using w g None
      by (intro disjI2 exI [of _ "page2pa f"] exI [of _ fl'] exI [of _ "s\<lparr>page_q := q,
          mem := hang (mem s) t i f, pp_ref := (pp_ref s)(f := pp_ref s f + 1)\<rparr>"]) simp
  qed
qed

text \<open>The walk without creation reads the tree.\<close>

definition va_path :: "u64 \<Rightarrow> u64 list" where
  "va_path va = [PUDX va, PMDX va]"

lemma is_path_va [simp]: "is_path (va_path va)" "is_path [PUDX va]" "is_path []"
  by (simp_all add: is_path_def va_path_def)

lemma pgdir_walk_lookup:
  assumes "no_block (mem s) pud va"
  shows "pgdir_walk pud va False s =
    (case tab (mem s) pud (va_path va) of
       None \<Rightarrow> (Inr (- E_NO_MEM, 0), s)
     | Some t \<Rightarrow> (Inr (0, entry t (PTEX va)), s))"
proof (cases "next_tab (mem s) pud (PUDX va)")
  case None
  then show ?thesis using assms walk_level_missing [of s pud "PUDX va"]
    by (simp add: pgdir_walk_def no_block_def va_path_def E_NO_MEM_def)
next
  case (Some t)
  then show ?thesis
    using assms walk_level_found [OF Some] walk_level_missing [of s t "PMDX va"]
      walk_level_found [of s t "PMDX va"]
    by (cases "next_tab (mem s) t (PMDX va)")
      (simp_all add: pgdir_walk_def no_block_def va_path_def E_NO_MEM_def)
qed

text \<open>The number of tables that the walk to an address would have to add.\<close>

definition tables_missing :: "memory \<Rightarrow> u64 \<Rightarrow> u64 \<Rightarrow> nat" where
  "tables_missing m pud va =
     (if tab m pud [PUDX va] = None then 2 else if tab m pud (va_path va) = None then 1 else 0)"

lemma tables_missing_0: "tab m pud (va_path va) = Some t \<Longrightarrow> tables_missing m pud va = 0"
  by (auto simp: tables_missing_def va_path_def bind_eq_Some_conv split: option.splits)

lemma tables_missing_cong:
  "(\<And>q. is_path q \<Longrightarrow> tab m' pud q = tab m pud q) \<Longrightarrow> tables_missing m' pud va = tables_missing m pud va"
  by (simp add: tables_missing_def del: tab.simps)

text \<open>
  The walk with creation: it finds or makes the leaf table when the free list has the pages for the
  tables that are missing, and otherwise reports that there is no memory after using up the list.
\<close>

lemma pgdir_walk_create:
  assumes vm: "vm_ok s pud fl" and nb: "no_block (mem s) pud va"
  defines "k \<equiv> tables_missing (mem s) pud va"
  shows "\<exists>r a s' fl'. pgdir_walk pud va True s = (Inr (r, a), s') \<and> grows pud s fl s' fl' \<and>
    length fl' = length fl - k \<and> (r = 0 \<longleftrightarrow> k \<le> length fl) \<and>
    (r = 0 \<and> (\<exists>t. tab (mem s') pud (va_path va) = Some t \<and> a = entry t (PTEX va)) \<or>
     r = - E_NO_MEM \<and> a = 0 \<and> fl' = [] \<and> tab (mem s) pud (va_path va) = None)"
proof -
  have k: "k = (case next_tab (mem s) pud (PUDX va) of None \<Rightarrow> 2
      | Some t \<Rightarrow> if next_tab (mem s) t (PMDX va) = None then 1 else 0)"
    by (auto simp: k_def tables_missing_def va_path_def split: option.split)
  have ok0: "ok_entry (load64 (mem s) (entry pud (PUDX va)))" using nb by (simp add: no_block_def)
  from walk_level_create [OF vm, of "[]" "PUDX va" pud] ok0
  consider (none) "next_tab (mem s) pud (PUDX va) = None" "fl = []"
      "walk_level pud (PUDX va) True s = (Inr (- E_NO_MEM, 0), s)"
    | (some) t1 s1 fl1 where "walk_level pud (PUDX va) True s = (Inr (0, t1), s1)"
      "grows pud s fl s1 fl1" "tab (mem s1) pud [PUDX va] = Some t1"
      "if next_tab (mem s) pud (PUDX va) = None then \<forall>j<512. load64 (mem s1) (entry t1 j) = 0
       else s1 = s"
      "if next_tab (mem s) pud (PUDX va) = None then fl \<noteq> [] \<and> fl1 = tl fl else fl1 = fl"
    by auto
  then show ?thesis
  proof cases
    case none
    then show ?thesis using grows_refl [OF vm]
      by (auto simp: pgdir_walk_def E_NO_MEM_def va_path_def k)
  next
    case some
    have ok1: "ok_entry (load64 (mem s1) (entry t1 (PMDX va)))"
      using some(3,4) nb by (auto simp: ok_entry_def no_block_def split: if_splits option.splits)
    have vm1: "vm_ok s1 pud fl1" using some(2) by (simp add: grows_def)
    have k1: "k = (if next_tab (mem s) pud (PUDX va) = None then 1 else 0) +
        (if next_tab (mem s1) t1 (PMDX va) = None then 1 else 0)"
      using some(3,4) index_less(2) [of va] by (auto simp: k next_tab_def split: if_splits option.splits)
    have d1: "length fl = length fl1 + (if next_tab (mem s) pud (PUDX va) = None then 1 else 0)"
      using some(5) by (cases fl) (simp_all split: if_splits)
    have none1: "tab (mem s) pud (va_path va) = None" if "next_tab (mem s1) t1 (PMDX va) = None"
      using that some(3,4) by (auto simp: va_path_def split: if_splits)
    from walk_level_create [OF vm1, of "[PUDX va]" "PMDX va" t1] ok1 some(3)
    consider (none2) "next_tab (mem s1) t1 (PMDX va) = None" "fl1 = []"
        "walk_level t1 (PMDX va) True s1 = (Inr (- E_NO_MEM, 0), s1)"
      | (some2) t2 s2 fl2 where "walk_level t1 (PMDX va) True s1 = (Inr (0, t2), s2)"
        "grows pud s1 fl1 s2 fl2" "tab (mem s2) pud (va_path va) = Some t2"
        "if next_tab (mem s1) t1 (PMDX va) = None then fl1 \<noteq> [] \<and> fl2 = tl fl1 else fl2 = fl1"
      by (auto simp: is_path_def va_path_def simp del: tab.simps)
    then show ?thesis
    proof cases
      case none2
      then have "length fl1 = length fl - k \<and> \<not> k \<le> length fl" using k1 d1 by simp
      moreover have "pgdir_walk pud va True s = (Inr (- E_NO_MEM, 0), s1)"
        using some(1) none2(3) by (simp add: pgdir_walk_def E_NO_MEM_def)
      moreover have "- E_NO_MEM \<noteq> 0" by (simp add: E_NO_MEM_def)
      ultimately show ?thesis using some(2) none1 [OF none2(1)] none2(2) by blast
    next
      case some2
      have "length fl2 = length fl - k \<and> k \<le> length fl"
        unfolding k1 using some2(4) d1 by (cases fl1) (simp_all split: if_splits)
      moreover have "pgdir_walk pud va True s = (Inr (0, entry t2 (PTEX va)), s2)"
        using some(1) some2(1) by (simp add: pgdir_walk_def)
      ultimately show ?thesis using grows_trans [OF some(2) some2(2)] some2(3) by blast
    qed
  qed
qed

subsection \<open>Memory that is no table\<close>

text \<open>A directory depends on the entries of its tables only.\<close>

lemma tables_frame:
  assumes eq: "\<And>t c. is_tab m pud t \<Longrightarrow> c < 512 \<Longrightarrow> load64 m' (entry t c) = load64 m (entry t c)"
  shows "is_path q \<Longrightarrow> tab m' pud q = tab m pud q" "is_tab m' pud t = is_tab m pud t"
    "is_slot sl \<Longrightarrow> pt_view m' pud sl = pt_view m pud sl" "pt_ok m' pud fl = pt_ok m pud fl"
    "no_block m' pud va = no_block m pud va"
proof -
  have cell: "load64 m' (entry t c) = load64 m (entry t c)" if "tab m pud q = Some t" "is_path q" "c < 512" for q t c
    using that by (intro eq is_tabI)
  show tabs: "tab m' pud q = tab m pud q" if "is_path q" for q
  proof (rule tab_cong)
    fix q1 j r t assume "q = q1 @ j # r" and t: "tab m pud q1 = Some t"
    then have "is_path q1" "j < 512" using that by (auto simp: is_path_def)
    then show "load64 m' (entry t j) = load64 m (entry t j)" using cell [OF t] by simp
  qed
  show it: "is_tab m' pud t = is_tab m pud t" for t using tabs by (auto simp: is_tab_def)
  show "pt_ok m' pud fl = pt_ok m pud fl" using tabs it by (simp add: pt_ok_def pt_inj_def)
  show "pt_view m' pud sl = pt_view m pud sl" if sl: "is_slot sl"
  proof -
    obtain a b c where s: "sl = (a, b, c)" by (cases sl)
    then have "is_path [a, b]" "c < 512" using sl by (auto simp: is_slot_def is_path_def)
    then show ?thesis using tabs [of "[a, b]"] cell s by (auto split: option.split simp del: tab.simps)
  qed
  have "next_tab m' pud (PUDX va) = next_tab m pud (PUDX va)" using tabs [of "[PUDX va]"] by (simp add: is_path_def)
  moreover have "load64 m' (entry pud (PUDX va)) = load64 m (entry pud (PUDX va))"
    using cell [of "[]" pud "PUDX va"] by (simp add: is_path_def)
  moreover have "load64 m' (entry t (PMDX va)) = load64 m (entry t (PMDX va))"
    if "next_tab m pud (PUDX va) = Some t" for t
    using cell [of "[PUDX va]" t "PMDX va"] that by (simp add: is_path_def)
  ultimately show "no_block m' pud va = no_block m pud va" by (auto simp: no_block_def split: option.split)
qed

subsection \<open>Writing a leaf\<close>

text \<open>From \<open>m\<close> to \<open>m'\<close> only the leaf of \<open>va\<close> has changed, to \<open>v\<close>.\<close>

definition leaf_set :: "u64 \<Rightarrow> u64 \<Rightarrow> u64 \<Rightarrow> memory \<Rightarrow> memory \<Rightarrow> bool" where
  "leaf_set pud va v m m' \<longleftrightarrow>
     (\<forall>sl. is_slot sl \<longrightarrow> pt_view m' pud sl = (if sl = va_slot va then v else pt_view m pud sl)) \<and>
     (\<forall>q. is_path q \<longrightarrow> tab m' pud q = tab m pud q) \<and>
     (\<forall>t c. page_aligned t \<longrightarrow> c < 512 \<longrightarrow> \<not> is_tab m pud t \<longrightarrow>
        load64 m' (entry t c) = load64 m (entry t c))"

lemma is_slot_va [simp]: "is_slot (va_slot va)"
  by (simp add: is_slot_def va_slot_def)

lemma pt_view_va:
  "pt_view m pud (va_slot va) =
    (case tab m pud (va_path va) of None \<Rightarrow> 0 | Some t \<Rightarrow> load64 m (entry t (PTEX va)))"
  by (simp add: va_slot_def va_path_def del: tab.simps)

lemma leaf_set_store:
  assumes inj: "pt_inj m pud" and al: "page_aligned pud"
    and t: "tab m pud (va_path va) = Some t"
  shows "leaf_set pud va v m (store64 m (entry t (PTEX va)) v)"
proof -
  let ?m = "store64 m (entry t (PTEX va)) v"
  have at: "page_aligned t" using tab_aligned [OF al t] .
  have tabs: "tab ?m pud q = tab m pud q" if "is_path q" for q
  proof (rule tab_store [OF inj al is_path_va(1) t _ that])
    show "q \<noteq> va_path va @ PTEX va # r" for r using that by (auto simp: is_path_def va_path_def)
  qed simp
  have "pt_view ?m pud sl = (if sl = va_slot va then v else pt_view m pud sl)" if sl: "is_slot sl" for sl
  proof -
    obtain a b c where s: "sl = (a, b, c)" by (cases sl)
    then have q: "is_path [a, b]" and c: "c < 512" using sl by (auto simp: is_slot_def is_path_def)
    show ?thesis
    proof (cases "tab m pud [a, b]")
      case None
      then have "sl \<noteq> va_slot va" using s t by (auto simp: va_slot_def va_path_def simp del: tab.simps)
      then show ?thesis using None tabs [OF q] s by (simp del: tab.simps)
    next
      case (Some t')
      have "t' = t \<Longrightarrow> [a, b] = va_path va"
        using pt_injD [OF inj q is_path_va(1) Some] t by simp
      then have e: "t = t' \<and> PTEX va = c \<longleftrightarrow> sl = va_slot va"
        using s Some t by (auto simp: va_slot_def va_path_def simp del: tab.simps)
      have "load64 ?m (entry t' c) = (if sl = va_slot va then v else load64 m (entry t' c))"
        using ts.get_put_cell [OF at tab_aligned [OF al Some] _ c, of "PTEX va" m v] e by simp
      then show ?thesis using Some tabs [OF q] s by (simp del: tab.simps)
    qed
  qed
  moreover have "load64 ?m (entry x c) = load64 m (entry x c)"
    if "page_aligned x" "c < 512" "\<not> is_tab m pud x" for x c
    using that is_tabI [OF is_path_va(1) t] ts.get_put_cell [OF at that(1) _ that(2)] by auto
  ultimately show ?thesis using tabs by (simp add: leaf_set_def)
qed

lemma leaf_set_tabs:
  assumes "leaf_set pud va v m m'"
  shows "is_tab m' pud t = is_tab m pud t" "pt_inj m pud \<Longrightarrow> pt_inj m' pud"
    "pt_ok m pud fl \<Longrightarrow> pt_ok m' pud fl"
proof -
  have tabs: "\<And>q. is_path q \<Longrightarrow> tab m' pud q = tab m pud q" using assms by (simp add: leaf_set_def)
  then show tt: "is_tab m' pud t = is_tab m pud t" for t by (auto simp: is_tab_def)
  show i: "pt_inj m pud \<Longrightarrow> pt_inj m' pud" using tabs by (simp add: pt_inj_def)
  show "pt_ok m pud fl \<Longrightarrow> pt_ok m' pud fl" using tt i by (simp add: pt_ok_def)
qed

subsection \<open>Looking up\<close>

lemma entry_neq_0:
  assumes "page_aligned t" "t \<noteq> 0" "i < 512"
  shows "entry t i \<noteq> 0"
proof -
  have "unat t \<noteq> 0" using assms(2) by (simp add: unat_eq_0)
  then have "unat (entry t i) \<noteq> 0" using unat_entry(1) [OF assms(1,3)] by simp
  then show ?thesis by (metis unat_0)
qed

lemma page_lookup_eq:
  assumes vm: "vm_ok s pud fl" and nb: "no_block (mem s) pud va"
  defines "e \<equiv> pt_view (mem s) pud (va_slot va)"
  shows "page_lookup pud va s =
    (if e AND PTE_V = 0 then (Inr None, s)
     else if npage s \<le> PPN e then kpanic ''pa2page called with invalid pa: %x'' [VA_num e] s
     else (Inr (Some (PPN e, entry (the (tab (mem s) pud (va_path va))) (PTEX va))), s))"
proof (cases "tab (mem s) pud (va_path va)")
  case None
  then show ?thesis
    using pgdir_walk_lookup [OF nb] by (simp add: page_lookup_def e_def pt_view_va)
next
  case (Some t)
  have "t \<noteq> 0" using vm_okD(4) [OF vm] is_tabI [OF is_path_va(1) Some] by blast
  then have "entry t (PTEX va) \<noteq> 0"
    using entry_neq_0 tab_aligned [OF vm_okD(2) [OF vm] Some] by simp
  then show ?thesis using Some pgdir_walk_lookup [OF nb]
    by (simp add: page_lookup_def e_def pt_view_va kbind_def pa2page_def kpanic_def)
qed

subsection \<open>Removing\<close>

text \<open>
  \<open>droppable s pud p\<close>: losing a reference to page \<open>p\<close> is sound: it is a page with a reference,
  and not one that the tables of \<open>pud\<close> are made of.
\<close>

definition droppable :: "kstate \<Rightarrow> u64 \<Rightarrow> u64 \<Rightarrow> bool" where
  "droppable s pud p \<longleftrightarrow> 0 < p \<and> p < npage s \<and> pp_ref s p \<noteq> 0 \<and> \<not> is_tab (mem s) pud (page2pa p)"

lemma page_remove_unmapped:
  assumes "vm_ok s pud fl" "no_block (mem s) pud va"
    and "pt_view (mem s) pud (va_slot va) AND PTE_V = 0"
  shows "page_remove pud va s = (Inr (), s)"
  using page_lookup_eq [OF assms(1,2)] assms(3) by (simp add: page_remove_def)

lemma page_remove_mapped:
  assumes vm: "vm_ok s pud fl" and nb: "no_block (mem s) pud va"
  defines "e \<equiv> pt_view (mem s) pud (va_slot va)"
  assumes e: "e AND PTE_V \<noteq> 0" and d: "droppable s pud (PPN e)"
  shows "\<exists>s'. page_remove pud va s = (Inr (), s') \<and> vm_ok s' pud (freed_to s (PPN e) fl) \<and>
    same_rest s s' \<and> leaf_set pud va 0 (mem s) (mem s') \<and>
    pp_ref s' = (pp_ref s)(PPN e := pp_ref s (PPN e) - 1)"
proof -
  let ?p = "PPN e"
  from e obtain t where t: "tab (mem s) pud (va_path va) = Some t"
    by (cases "tab (mem s) pud (va_path va)") (auto simp: e_def pt_view_va)
  have p: "0 < ?p" "?p < npage s" "pp_ref s ?p \<noteq> 0" "\<not> is_tab (mem s) pud (page2pa ?p)"
    using d by (auto simp: droppable_def)
  have lk: "page_lookup pud va s = (Inr (Some (?p, entry t (PTEX va))), s)"
    using page_lookup_eq [OF vm nb] e p(2) t by (simp add: e_def [symmetric] not_le [symmetric])
  define s1 where "s1 = s\<lparr>pp_ref := (pp_ref s)(?p := pp_ref s ?p - 1)\<rparr>"
  from drop_ref [OF vm_okD(1) [OF vm] p(1,2,3), folded s1_def] obtain q
    where fr: "(if pp_ref s1 ?p = 0 then page_free ?p s1 else (Inr (), s1)) = (Inr (), s1\<lparr>page_q := q\<rparr>)"
      and pool: "pool_ok (s1\<lparr>page_q := q\<rparr>) (freed_to s ?p fl)" by blast
  define m where "m = store64 (mem s) (entry t (PTEX va)) 0"
  define s' where "s' = tlb_invalidate (s1\<lparr>page_q := q, mem := m\<rparr>)"
  have "page_remove pud va s = (Inr (), s')"
    using lk fr by (simp add: page_remove_def s1_def [symmetric] s'_def m_def)
      (simp add: s1_def kbind_def Let_def)
  moreover have ls: "leaf_set pud va 0 (mem s) m"
    unfolding m_def using leaf_set_store [OF vm_okD(3,2) [OF vm, THEN _] t] vm_okD [OF vm] t
    by (intro leaf_set_store) auto
  moreover have "pt_ok m pud (freed_to s ?p fl)"
    using leaf_set_tabs [OF ls] vm p(4)
    by (auto simp: vm_ok_def pt_ok_def freed_to_def)
  moreover have "pool_ok s' (freed_to s ?p fl)"
    using pool by (simp add: pool_ok_def s'_def tlb_invalidate_eq)
  ultimately show ?thesis
    by (auto simp: vm_ok_def s'_def s1_def tlb_invalidate_eq log_def same_rest_def)
qed

subsection \<open>Inserting\<close>

text \<open>
  \<open>inserts pud pp va e s fl r s' fl'\<close>: the outcome \<open>r\<close> of installing the descriptor \<open>e\<close> for page
  \<open>pp\<close>. The pages \<open>used\<close> were taken from the free list as tables; it succeeds exactly when the list
  has as many pages as tables are missing. On success the leaf is \<open>e\<close> and \<open>pp\<close> has one more reference; on failure every leaf is as before.
\<close>

definition inserts ::
  "u64 \<Rightarrow> u64 \<Rightarrow> u64 \<Rightarrow> u64 \<Rightarrow> kstate \<Rightarrow> u64 list \<Rightarrow> int \<Rightarrow> kstate \<Rightarrow> u64 list \<Rightarrow> bool" where
  "inserts pud pp va e s fl r s' fl' \<longleftrightarrow>
     vm_ok s' pud fl' \<and> same_rest s s' \<and> (r = 0 \<or> r = - E_NO_MEM \<and> fl' = []) \<and>
     length fl' = length fl - tables_missing (mem s) pud va \<and>
     (r = 0 \<longleftrightarrow> tables_missing (mem s) pud va \<le> length fl) \<and>
     (\<forall>sl. is_slot sl \<longrightarrow> pt_view (mem s') pud sl =
        (if r = 0 \<and> sl = va_slot va then e else pt_view (mem s) pud sl)) \<and>
     (\<exists>used. fl = used @ fl' \<and>
        (\<forall>x. pp_ref s' x = (if x \<in> set used then 1 else pp_ref s x) +
           (if r = 0 \<and> x = pp then 1 else 0)) \<and>
        (\<forall>t. is_tab (mem s') pud t \<longleftrightarrow> is_tab (mem s) pud t \<or> t \<in> page2pa ` set used)) \<and>
     (\<forall>t c. page_aligned t \<longrightarrow> c < 512 \<longrightarrow> \<not> is_tab (mem s') pud t \<longrightarrow>
        load64 (mem s') (entry t c) = load64 (mem s) (entry t c))"

lemma vm_ok_log [simp]: "vm_ok (log e s) pud fl = vm_ok s pud fl"
  by (simp add: vm_ok_def pool_ok_def)

lemma same_rest_log [simp]: "same_rest (log e s) s' = same_rest s s'"
  by (cases s, cases s') (auto simp: same_rest_def log_def)

lemma no_blockI: "tab m pud (va_path va) = Some t \<Longrightarrow> no_block m pud va"
  by (auto simp: no_block_def va_path_def next_tab_def ok_entry_def Let_def split: if_splits)

lemma install_inserts:
  assumes vm: "vm_ok s pud fl" and nb: "no_block (mem s) pud va" and pp: "pp \<notin> set fl"
  shows "\<exists>r s' fl'. install pud pp va perm s = (Inr r, s') \<and>
    inserts pud pp va (page_desc pp perm) s fl r s' fl'"
proof -
  from pgdir_walk_create [of "tlb_invalidate s" pud fl va] vm nb
  obtain r a s1 fl1 where w: "pgdir_walk pud va True (tlb_invalidate s) = (Inr (r, a), s1)"
    and g: "grows pud (tlb_invalidate s) fl s1 fl1"
    and c: "r = 0 \<and> (\<exists>t. tab (mem s1) pud (va_path va) = Some t \<and> a = entry t (PTEX va)) \<or>
     r = - E_NO_MEM \<and> fl1 = []"
    and k: "length fl1 = length fl - tables_missing (mem s) pud va" "r = 0 \<longleftrightarrow> tables_missing (mem s) pud va \<le> length fl"
    by (auto simp: tlb_invalidate_eq)
  from g obtain used where vm1: "vm_ok s1 pud fl1" and sr: "same_rest s s1" and u: "fl = used @ fl1"
    and gr: "grown pud s s1 used"
    by (auto simp: grows_def tlb_invalidate_eq grown_def)
  show ?thesis
  proof (cases "r = 0")
    case False
    then have "install pud pp va perm s = (Inr (- E_NO_MEM), s1)"
      using w by (simp add: install_def)
    moreover have "inserts pud pp va (page_desc pp perm) s fl (- E_NO_MEM) s1 fl1"
    proof -
      have "- E_NO_MEM \<noteq> 0" by (simp add: E_NO_MEM_def)
      moreover have "fl1 = []" using c False by blast
      moreover have "\<not> tables_missing (mem s) pud va \<le> length fl" using k False by simp
      ultimately show ?thesis using vm1 sr u gr k(1) unfolding inserts_def grown_def
        by (simp del: split_paired_All pt_view.simps)
    qed
    ultimately show ?thesis by blast
  next
    case True
    then obtain t where t: "tab (mem s1) pud (va_path va) = Some t" and a: "a = entry t (PTEX va)"
      using c by (auto simp: E_NO_MEM_def)
    let ?m = "store64 (mem s1) a (page_desc pp perm)"
    let ?s = "incref pp (s1\<lparr>mem := ?m\<rparr>)"
    have ls: "leaf_set pud va (page_desc pp perm) (mem s1) ?m"
      unfolding a using vm_okD [OF vm1] t by (intro leaf_set_store) auto
    have "install pud pp va perm s = (Inr 0, ?s)"
      using w True by (simp add: install_def)
    moreover have "vm_ok ?s pud fl1"
      using vm1 leaf_set_tabs(3) [OF ls] pp u by (auto simp: vm_ok_def pool_ok_def incref_def)
    moreover have "same_rest s ?s" using sr by (simp add: same_rest_def incref_def)
    ultimately show ?thesis
      using ls gr u k True leaf_set_tabs(1) [OF ls]
      by (intro exI [of _ 0] exI [of _ ?s] exI [of _ fl1])
        (auto simp: inserts_def grown_def leaf_set_def incref_def)
  qed
qed

lemma page_insert_install:
  assumes vm: "vm_ok s pud fl" and nb: "no_block (mem s) pud va"
    and u: "pt_view (mem s) pud (va_slot va) AND PTE_V = 0"
  shows "page_insert pud pp va perm s = install pud pp va (perm OR ucast PTE_V) s"
  using pgdir_walk_lookup [OF nb] u
  by (auto simp: page_insert_def pt_view_va kbind_def Let_def split: option.splits)

lemma page_insert_unmapped:
  assumes vm: "vm_ok s pud fl" and nb: "no_block (mem s) pud va" and pp: "pp \<notin> set fl"
    and u: "pt_view (mem s) pud (va_slot va) AND PTE_V = 0"
  shows "\<exists>r s' fl'. page_insert pud pp va perm s = (Inr r, s') \<and>
    inserts pud pp va (page_desc pp (perm OR 1)) s fl r s' fl'"
  using install_inserts [OF vm nb pp] page_insert_install [OF vm nb u]
  by (simp add: PTE_V_def)

lemma mapped_walk:
  assumes vm: "vm_ok s pud fl" and e: "pt_view (mem s) pud (va_slot va) AND PTE_V \<noteq> 0"
  obtains t where "tab (mem s) pud (va_path va) = Some t" "entry t (PTEX va) \<noteq> 0"
    "load64 (mem s) (entry t (PTEX va)) = pt_view (mem s) pud (va_slot va)" "no_block (mem s) pud va"
proof -
  from e obtain t where t: "tab (mem s) pud (va_path va) = Some t"
    by (cases "tab (mem s) pud (va_path va)") (auto simp: pt_view_va)
  have "entry t (PTEX va) \<noteq> 0"
    using vm_okD(4) [OF vm] is_tabI [OF is_path_va(1) t] tab_aligned [OF vm_okD(2) [OF vm] t]
    by (intro entry_neq_0) auto
  then show thesis using that t no_blockI [OF t] by (simp add: pt_view_va)
qed

text \<open>Inserting the page that is there already rewrites the leaf, with the new permission.\<close>

lemma page_insert_same:
  fixes va :: u64
  assumes vm: "vm_ok s pud fl"
  defines "e \<equiv> pt_view (mem s) pud (va_slot va)"
  assumes e: "e AND PTE_V \<noteq> 0" and p: "PPN e = pp" "pp < npage s"
  shows "\<exists>s'. page_insert pud pp va perm s = (Inr 0, s') \<and> vm_ok s' pud fl \<and> same_rest s s' \<and>
    pp_ref s' = pp_ref s \<and> leaf_set pud va (page_desc pp (perm OR 1)) (mem s) (mem s')"
proof -
  from mapped_walk [OF vm e [unfolded e_def]] obtain t
    where t: "tab (mem s) pud (va_path va) = Some t" "entry t (PTEX va) \<noteq> 0"
      "load64 (mem s) (entry t (PTEX va)) = e" "no_block (mem s) pud va"
    unfolding e_def by blast
  let ?m = "store64 (mem s) (entry t (PTEX va)) (page_desc pp (perm OR 1))"
  have "page_insert pud pp va perm s = (Inr 0, (tlb_invalidate s)\<lparr>mem := ?m\<rparr>)"
    using t pgdir_walk_lookup [OF t(4)] e p
    by (auto simp: page_insert_def pa2page_def kbind_def Let_def tlb_invalidate_eq PTE_V_def)
  moreover have ls: "leaf_set pud va (page_desc pp (perm OR 1)) (mem s) ?m"
    using vm_okD [OF vm] t by (intro leaf_set_store) auto
  moreover have "vm_ok ((tlb_invalidate s)\<lparr>mem := ?m\<rparr>) pud fl"
    using vm leaf_set_tabs(3) [OF ls] by (simp add: vm_ok_def pool_ok_def tlb_invalidate_eq)
  ultimately show ?thesis by (auto simp: tlb_invalidate_eq log_def same_rest_def)
qed

text \<open>Inserting over another page removes that page first; the tables exist, so it cannot fail.\<close>

lemma page_insert_other:
  fixes va :: u64
  assumes vm: "vm_ok s pud fl"
  defines "e \<equiv> pt_view (mem s) pud (va_slot va)"
  assumes e: "e AND PTE_V \<noteq> 0" and p: "PPN e \<noteq> pp" "pp \<notin> set fl" and d: "droppable s pud (PPN e)"
  shows "\<exists>s1 s'. page_remove pud va s = (Inr (), s1) \<and> npage s1 = npage s \<and>
    pp_ref s1 = (pp_ref s)(PPN e := pp_ref s (PPN e) - 1) \<and>
    leaf_set pud va 0 (mem s) (mem s1) \<and> page_insert pud pp va perm s = (Inr 0, s') \<and>
    inserts pud pp va (page_desc pp (perm OR 1)) s1 (freed_to s (PPN e) fl) 0 s' (freed_to s (PPN e) fl)"
proof -
  from mapped_walk [OF vm e [unfolded e_def]] obtain t
    where t: "tab (mem s) pud (va_path va) = Some t" "entry t (PTEX va) \<noteq> 0"
      "load64 (mem s) (entry t (PTEX va)) = e" "no_block (mem s) pud va"
    unfolding e_def by blast
  from page_remove_mapped [OF vm t(4)] e d obtain s1
    where r: "page_remove pud va s = (Inr (), s1)" and vm1: "vm_ok s1 pud (freed_to s (PPN e) fl)"
      and ls: "leaf_set pud va 0 (mem s) (mem s1)" and ref: "pp_ref s1 = (pp_ref s)(PPN e := pp_ref s (PPN e) - 1)"
      and npage: "npage s1 = npage s"
    unfolding e_def by (blast dest: same_rest_npage)
  have i: "page_insert pud pp va perm s = install pud pp va (perm OR 1) s1"
    using t pgdir_walk_lookup [OF t(4)] e p(1) d r
    by (auto simp: page_insert_def pa2page_def kbind_def droppable_def Let_def PTE_V_def)
  have t1: "tab (mem s1) pud (va_path va) = Some t" using ls t(1) by (simp add: leaf_set_def)
  have "pp \<notin> set (freed_to s (PPN e) fl)" using p by (auto simp: freed_to_def)
  from install_inserts [OF vm1 no_blockI [OF t1] this] obtain q s' fl' where
    q: "install pud pp va (perm OR 1) s1 = (Inr q, s')"
    "inserts pud pp va (page_desc pp (perm OR 1)) s1 (freed_to s (PPN e) fl) q s' fl'" by blast
  then have "q = 0" "\<exists>used. freed_to s (PPN e) fl = used @ fl'" "length fl' = length (freed_to s (PPN e) fl)"
    using tables_missing_0 [OF t1] by (auto simp: inserts_def)
  then have "q = 0" "fl' = freed_to s (PPN e) fl" by auto
  then show ?thesis using r ref ls i q npage by (intro exI [of _ s1] exI [of _ s']) simp
qed

subsection \<open>Properties\<close>

lemma view_mapped:
  assumes "pt_view m pud (va_slot va) AND PTE_V \<noteq> 0"
  shows "no_block m pud va"
  using assms by (cases "tab m pud (va_path va)") (auto simp: pt_view_va no_blockI)

lemma lookup_mapped:
  assumes vm: "vm_ok s pud fl" and v: "pt_view (mem s) pud (va_slot va) = page_desc pp perm"
    and "perm < 4096" and "pp < npage s"
  shows "\<exists>a. page_lookup pud va s = (Inr (Some (pp, a)), s) \<and> load64 (mem s) a = page_desc pp perm"
proof -
  have e: "pt_view (mem s) pud (va_slot va) AND PTE_V \<noteq> 0" using v by simp
  have "npage s \<le> 2 ^ 40" using vm by (simp add: vm_ok_def pool_ok_def)
  then have "pp < 2 ^ 40" using assms(4) by simp
  then have "pp < 2 ^ 52" by (rule order.strict_trans) simp
  then have p: "PPN (page_desc pp perm) = pp" using assms(3) by (intro PPN_page_desc)
  from mapped_walk [OF vm e] obtain t where "tab (mem s) pud (va_path va) = Some t"
    "load64 (mem s) (entry t (PTEX va)) = page_desc pp perm" using v by metis
  then show ?thesis using page_lookup_eq [OF vm view_mapped [OF e]] v p assms(4)
    by (auto simp: not_le [symmetric])
qed

lemma perm_or_1: "perm < 4096 \<Longrightarrow> perm OR 1 < (4096 :: u32)"
proof (cases "even perm")
  case True
  assume "perm < 4096"
  moreover have "perm \<noteq> 4095" using True by auto
  ultimately have "perm + 1 < 4096" by unat_arith
  then show ?thesis using True by (simp add: or_one_eq)
qed (simp add: or_one_eq)

text \<open>A directory whose page is clear maps nothing.\<close>

lemma zero_tab: "tab (\<lambda>_. 0) pud q = Some t \<longleftrightarrow> q = [] \<and> t = pud"
proof -
  have "load64 (\<lambda>_. 0) a = 0" for a by (simp add: load64_def)
  then show ?thesis by (cases q) (auto simp: next_tab_def)
qed

lemma small_vm: "vm_ok small_state 0x1000 [7, 6, 5, 4, 3, 2]" "no_block (mem small_state) 0x1000 va"
  "pt_view (mem small_state) 0x1000 sl = 0"
proof -
  have "is_tab (\<lambda>_. 0) 0x1000 t \<longleftrightarrow> t = 0x1000" for t
    by (auto simp: is_tab_def zero_tab intro: is_path_va)
  moreover have "pt_inj (\<lambda>_. 0) 0x1000" by (simp add: pt_inj_def zero_tab)
  moreover have "page_aligned 0x1000" by (simp add: page_aligned_def)
  ultimately show "vm_ok small_state 0x1000 [7, 6, 5, 4, 3, 2]"
    using small_pool(1,3) by (simp add: vm_ok_def pt_ok_def page2pa_def page2ppn_def push_bit_eq_mult)
  have z: "load64 (\<lambda>_. 0) a = 0" for a by (simp add: load64_def)
  then show "no_block (mem small_state) 0x1000 va"
    by (simp add: no_block_def small_pool(3) ok_entry_def next_tab_def)
  show "pt_view (mem small_state) 0x1000 sl = 0"
    by (cases sl) (simp add: small_pool(3) z zero_tab next_tab_def)
qed

text \<open>A directory at \<open>0x1000\<close> whose tables are the pages 2 and 3, at the indices \<open>i\<close> and \<open>j\<close>.\<close>

definition two_tables :: "u64 \<Rightarrow> u64 \<Rightarrow> memory" where
  "two_tables i j = hang (hang (\<lambda>_. 0) 0x1000 i 2) 0x2000 j 3"

lemma page2pa_demo: "page2pa 2 = 0x2000" "page2pa 3 = 0x3000" "page2pa 4 = 0x4000"
  by (simp_all add: page2pa_def page2ppn_def push_bit_eq_mult)

lemma two_tables:
  assumes ij: "i < 512" "j < 512"
  shows "pt_inj (two_tables i j) 0x1000" "tab (two_tables i j) 0x1000 [i, j] = Some 0x3000"
    "is_tab (two_tables i j) 0x1000 t \<longleftrightarrow> t \<in> {0x1000, 0x2000, 0x3000}"
    "is_slot sl \<Longrightarrow> pt_view (two_tables i j) 0x1000 sl = 0"
    "page_aligned t \<Longrightarrow> t \<notin> {0x1000, 0x2000, 0x3000} \<Longrightarrow> c < 512 \<Longrightarrow> load64 (two_tables i j) (entry t c) = 0"
proof -
  let ?m = "hang (\<lambda>_. 0) 0x1000 i 2"
  have al: "page_aligned 0x1000" "page_aligned 0x2000" by (simp_all add: page_aligned_def)
  have z: "load64 (\<lambda>_. 0) a = 0" for a by (simp add: load64_def)
  have p: "is_path ([] @ [i])" "is_path ([i] @ [j])" "is_path [i]" using ij by (simp_all add: is_path_def)
  have inj0: "pt_inj (\<lambda>_. 0) 0x1000" by (simp add: pt_inj_def zero_tab)
  have t0: "tab (\<lambda>_. 0) 0x1000 [] = Some 0x1000" "next_tab (\<lambda>_. 0) 0x1000 i = None"
    by (simp_all add: next_tab_def z)
  have f0: "tab (\<lambda>_. 0) 0x1000 q \<noteq> Some (page2pa 2)" for q by (simp add: zero_tab page2pa_demo)
  note inj1 = hang_inj [OF inj0 al(1) p(1) t0 f0]
  note tab1 = tab_hang_Some [OF inj0 al(1) p(1) t0 f0]
  have it0: "is_tab (\<lambda>_. 0) 0x1000 x \<longleftrightarrow> x = 0x1000" for x
    by (auto simp: is_tab_def zero_tab intro: is_path_va)
  have it1: "is_tab ?m 0x1000 x \<longleftrightarrow> x = 0x1000 \<or> x = 0x2000" for x
    using is_tab_hang [OF inj0 al(1) p(1) t0 f0, of x] it0 by (simp only: page2pa_demo)
  have "load64 ?m (entry 0x2000 j) = 0"
    using hang_entries [OF al(1,2) ij, of 2 "\<lambda>_. 0"] by (simp add: page2pa_demo)
  then have t1: "tab ?m 0x1000 [i] = Some 0x2000" "next_tab ?m 0x2000 j = None"
    using tab1 [OF p(3)] by (simp_all add: next_tab_def page2pa_demo del: tab.simps)
  have f1: "tab ?m 0x1000 q \<noteq> Some (page2pa 3)" if "is_path q" for q
    using it1 [of "page2pa 3"] is_tabI [OF that] by (auto simp: page2pa_demo)
  note h = inj1 al(1) p(2) t1 f1
  show "pt_inj (two_tables i j) 0x1000" unfolding two_tables_def by (rule hang_inj [OF h])
  show "tab (two_tables i j) 0x1000 [i, j] = Some 0x3000"
    unfolding two_tables_def using tab_hang_Some [OF h, of "[i, j]"] p(2)
    by (simp add: page2pa_demo del: tab.simps)
  show "is_tab (two_tables i j) 0x1000 t \<longleftrightarrow> t \<in> {0x1000, 0x2000, 0x3000}"
    unfolding two_tables_def using is_tab_hang [OF h, of t] it1 [of t] by (simp add: page2pa_demo)
  show "pt_view (two_tables i j) 0x1000 sl = 0" if "is_slot sl"
    unfolding two_tables_def
    using hang_view [OF inj1 al(1) p(2) _ t1 f1 that] hang_view [OF inj0 al(1) p(1) _ t0 f0 that]
    by (cases sl) (simp add: z zero_tab split: option.split del: tab.simps)
  show "load64 (two_tables i j) (entry t c) = 0" if "page_aligned t" "t \<notin> {0x1000, 0x2000, 0x3000}" "c < 512"
    unfolding two_tables_def using that al ij by (simp add: hang_entries page2pa_demo z)
qed

text \<open>The directory that maps address 0 to page 4.\<close>

definition demo_tables :: memory where
  "demo_tables = two_tables 0 0"

definition demo_state :: kstate where
  "demo_state = reset_state\<lparr>npage := 8, pp_ref := (\<lambda>p. if p \<le> 4 then 1 else 0),
     mem := store64 demo_tables (entry 0x3000 0) (page_desc 4 1)\<rparr>"

lemma demo_tables: "pt_inj demo_tables 0x1000" "tab demo_tables 0x1000 [0, 0] = Some 0x3000"
  "is_tab demo_tables 0x1000 t \<longleftrightarrow> t \<in> {0x1000, 0x2000, 0x3000}"
  "is_slot sl \<Longrightarrow> pt_view demo_tables 0x1000 sl = 0"
  unfolding demo_tables_def by (simp_all add: two_tables del: tab.simps pt_view.simps)

lemma demo_vm: "vm_ok demo_state 0x1000 []"
  "pt_view (mem demo_state) 0x1000 (va_slot 0) = page_desc 4 1"
  "PPN (page_desc 4 1) = 4" "droppable demo_state 0x1000 4"
proof -
  have va: "va_path 0 = [0, 0]" "PTEX 0 = 0" by (simp_all add: va_path_def PUDX_def PMDX_def PTEX_def)
  have al: "page_aligned 0x1000" by (simp add: page_aligned_def)
  have ls: "leaf_set 0x1000 0 (page_desc 4 1) demo_tables (mem demo_state)"
    using leaf_set_store [OF demo_tables(1) al, of 0 "0x3000" "page_desc 4 1"] demo_tables(2)
    by (simp add: demo_state_def va del: tab.simps)
  have "pt_ok demo_tables 0x1000 []" using al demo_tables by (auto simp: pt_ok_def)
  then show "vm_ok demo_state 0x1000 []"
    using leaf_set_tabs(3) [OF ls] by (simp add: vm_ok_def pool_ok_def) (simp add: demo_state_def reset_state_def)
  show "pt_view (mem demo_state) 0x1000 (va_slot 0) = page_desc 4 1"
    using ls by (simp add: leaf_set_def del: split_paired_All)
  show "PPN (page_desc 4 1) = 4" by (rule PPN_page_desc) simp_all
  show "droppable demo_state 0x1000 4"
    using leaf_set_tabs(1) [OF ls] demo_tables(3)
    by (simp add: droppable_def page2pa_demo) (simp add: demo_state_def)
qed

text \<open>C19: \<open>page_insert\<close> on an address that is not mapped either maps it, or reports \<open>E_NO_MEM\<close> with
  the free list used up. When it maps, \<open>page_lookup\<close> then finds the page, with the permission bits
  that were asked for, and the page has one more reference. In both cases every other address of
  the directory is translated as before, and the tables stay well formed.\<close>

lemma page_insert_spec:
  assumes vm: "vm_ok s pud fl" and nb: "no_block (mem s) pud va"
    and u: "pt_view (mem s) pud (va_slot va) AND PTE_V = 0"
    and pp: "pp \<notin> set fl" "pp < npage s" and perm: "perm < 4096"
  shows "\<exists>r s' fl'. page_insert pud pp va perm s = (Inr r, s') \<and> vm_ok s' pud fl' \<and>
    (r = 0 \<and> (\<exists>a. page_lookup pud va s' = (Inr (Some (pp, a)), s') \<and>
       load64 (mem s') a = page_desc pp (perm OR 1)) \<or> r = - E_NO_MEM \<and> fl' = []) \<and>
    (\<forall>sl. is_slot sl \<longrightarrow> sl \<noteq> va_slot va \<longrightarrow> pt_view (mem s') pud sl = pt_view (mem s) pud sl) \<and>
    (\<forall>x. x \<notin> set fl \<longrightarrow> pp_ref s' x = pp_ref s x + (if r = 0 \<and> x = pp then 1 else 0))"
proof -
  from page_insert_unmapped [OF vm nb pp(1) u] obtain r s' fl'
    where i: "page_insert pud pp va perm s = (Inr r, s')"
      and ins: "inserts pud pp va (page_desc pp (perm OR 1)) s fl r s' fl'" by blast
  then have vm': "vm_ok s' pud fl'" and np: "npage s' = npage s"
    and r: "r = 0 \<or> r = - E_NO_MEM \<and> fl' = []"
    and view: "\<And>sl. is_slot sl \<Longrightarrow> pt_view (mem s') pud sl =
        (if r = 0 \<and> sl = va_slot va then page_desc pp (perm OR 1) else pt_view (mem s) pud sl)"
    and refs: "\<And>x. x \<notin> set fl \<Longrightarrow> pp_ref s' x = pp_ref s x + (if r = 0 \<and> x = pp then 1 else 0)"
    by (auto simp: inserts_def same_rest_npage simp del: split_paired_All)
  have "\<exists>a. page_lookup pud va s' = (Inr (Some (pp, a)), s') \<and> load64 (mem s') a = page_desc pp (perm OR 1)"
    if "r = 0" using that view [of "va_slot va"] pp(2) np perm_or_1 [OF perm]
    by (intro lookup_mapped [OF vm']) auto
  then show ?thesis using i vm' r view refs by (intro exI [of _ r] exI [of _ s'] exI [of _ fl']) auto
qed

lemma page_insert_spec_witness:
  "\<exists>r s'. page_insert 0x1000 1 0x70000000 0 small_state = (Inr r, s') \<and> pp_ref s' 0 = 1"
proof -
  have "\<exists>r s' fl'. page_insert 0x1000 1 0x70000000 0 small_state = (Inr r, s') \<and> vm_ok s' 0x1000 fl' \<and>
    (r = 0 \<and> (\<exists>a. page_lookup 0x1000 0x70000000 s' = (Inr (Some (1, a)), s') \<and>
       load64 (mem s') a = page_desc 1 (0 OR 1)) \<or> r = - E_NO_MEM \<and> fl' = []) \<and>
    (\<forall>sl. is_slot sl \<longrightarrow> sl \<noteq> va_slot 0x70000000 \<longrightarrow>
      pt_view (mem s') 0x1000 sl = pt_view (mem small_state) 0x1000 sl) \<and>
    (\<forall>x. x \<notin> set [7, 6, 5, 4, 3, 2] \<longrightarrow>
      pp_ref s' x = pp_ref small_state x + (if r = 0 \<and> x = 1 then 1 else 0))"
    using small_vm small_pool(2) by (intro page_insert_spec) auto
  then show ?thesis using small_pool(4) by fastforce
qed

text \<open>C21: over another page, \<open>page_insert\<close> always succeeds. It takes the old page away as \<open>page_remove\<close> does: the old page loses
  exactly one reference, and is back on the free list exactly when that was the last one. The new page is then found at
  the address, with the permission asked for and exactly one reference more; every other
  count, every other translation and the rest of the free list are as before.\<close>

lemma page_insert_replaces:
  assumes vm: "vm_ok s pud fl" and e: "e = pt_view (mem s) pud (va_slot va)" "e AND PTE_V \<noteq> 0"
    and p: "PPN e \<noteq> pp" "pp \<notin> set fl" "pp < npage s" "perm < 4096" and d: "droppable s pud (PPN e)"
  shows "\<exists>s'. page_insert pud pp va perm s = (Inr 0, s') \<and>
    pp_ref s' = (pp_ref s)(PPN e := pp_ref s (PPN e) - 1, pp := pp_ref s pp + 1) \<and>
    vm_ok s' pud (if pp_ref s (PPN e) = 1 then PPN e # fl else fl) \<and>
    (\<exists>a. page_lookup pud va s' = (Inr (Some (pp, a)), s') \<and> load64 (mem s') a = page_desc pp (perm OR 1)) \<and>
    (\<forall>sl. is_slot sl \<longrightarrow> sl \<noteq> va_slot va \<longrightarrow> pt_view (mem s') pud sl = pt_view (mem s) pud sl)"
proof -
  from page_insert_other [OF vm, of va pp] e p d obtain s1 s'
    where np: "npage s1 = npage s" and ref: "pp_ref s1 = (pp_ref s)(PPN e := pp_ref s (PPN e) - 1)" and ls: "leaf_set pud va 0 (mem s) (mem s1)"
      and i: "page_insert pud pp va perm s = (Inr 0, s')"
      and ins: "inserts pud pp va (page_desc pp (perm OR 1)) s1 (freed_to s (PPN e) fl) 0 s' (freed_to s (PPN e) fl)"
    by blast
  have view: "pt_view (mem s') pud sl = (if sl = va_slot va then page_desc pp (perm OR 1) else pt_view (mem s) pud sl)"
    if "is_slot sl" for sl
    using ins ls that by (simp add: inserts_def leaf_set_def del: split_paired_All pt_view.simps)
  have vm': "vm_ok s' pud (freed_to s (PPN e) fl)" using ins by (simp add: inserts_def)
  have "same_rest s1 s'" using ins unfolding inserts_def by blast
  then have np': "npage s' = npage s" using np by (simp add: same_rest_npage)
  have "\<exists>a. page_lookup pud va s' = (Inr (Some (pp, a)), s') \<and> load64 (mem s') a = page_desc pp (perm OR 1)"
    using view [of "va_slot va"] p(3) np' perm_or_1 [OF p(4)] by (intro lookup_mapped [OF vm']) simp_all
  moreover have "pp_ref s' = (pp_ref s)(PPN e := pp_ref s (PPN e) - 1, pp := pp_ref s pp + 1)"
    using ins ref p(1) by (auto simp: inserts_def fun_eq_iff simp del: split_paired_All)
  ultimately show ?thesis using i vm' view
    by (intro exI [of _ s']) (simp add: freed_to_def del: split_paired_All pt_view.simps)
qed

lemma page_insert_replaces_witness:
  "\<exists>s'. page_insert 0x1000 5 0 0x80 demo_state = (Inr 0, s') \<and> pp_ref s' 4 = 0 \<and> pp_ref s' 5 = 1 \<and> vm_ok s' 0x1000 [4]"
  using page_insert_replaces [OF demo_vm(1), of _ 0 5 "0x80"] demo_vm
  by (auto simp: demo_state_def)

text \<open>\<open>page_insert\<close> of the page that is mapped at the address already succeeds and only gives it
  the new permission: no reference is counted twice and nothing is freed.\<close>

lemma page_insert_again:
  assumes vm: "vm_ok s pud fl" and e: "e = pt_view (mem s) pud (va_slot va)" "e AND PTE_V \<noteq> 0"
    and p: "PPN e = pp" "pp < npage s"
  shows "\<exists>s'. page_insert pud pp va perm s = (Inr 0, s') \<and> vm_ok s' pud fl \<and> pp_ref s' = pp_ref s \<and>
    (\<forall>sl. is_slot sl \<longrightarrow> pt_view (mem s') pud sl =
       (if sl = va_slot va then page_desc pp (perm OR 1) else pt_view (mem s) pud sl))"
  using page_insert_same [OF vm, of va pp perm] e p unfolding leaf_set_def by blast

lemma page_insert_again_witness: "\<exists>s'. page_insert 0x1000 4 0 0x80 demo_state = (Inr 0, s') \<and> pp_ref s' 4 = 1"
  using page_insert_again [OF demo_vm(1), of _ 0 4 "0x80"] demo_vm by (auto simp: demo_state_def)

text \<open>C20: \<open>page_remove\<close> of a mapped address unmaps it and nothing else, and takes one reference from
  its page, which is freed exactly when that was the last one.\<close>

lemma page_remove_spec:
  assumes vm: "vm_ok s pud fl" and e: "e = pt_view (mem s) pud (va_slot va)" "e AND PTE_V \<noteq> 0"
    and d: "droppable s pud (PPN e)"
  shows "\<exists>s'. page_remove pud va s = (Inr (), s') \<and> page_lookup pud va s' = (Inr None, s') \<and>
    vm_ok s' pud (if pp_ref s (PPN e) = 1 then PPN e # fl else fl) \<and>
    pp_ref s' = (pp_ref s)(PPN e := pp_ref s (PPN e) - 1) \<and>
    (\<forall>sl. is_slot sl \<longrightarrow> pt_view (mem s') pud sl =
       (if sl = va_slot va then 0 else pt_view (mem s) pud sl))"
proof -
  from page_remove_mapped [OF vm view_mapped, of va] e d obtain s'
    where s': "page_remove pud va s = (Inr (), s')" "vm_ok s' pud (freed_to s (PPN e) fl)"
      and ls: "leaf_set pud va 0 (mem s) (mem s')"
      and ref: "pp_ref s' = (pp_ref s)(PPN e := pp_ref s (PPN e) - 1)" by auto
  from mapped_walk [OF vm] e obtain t where "tab (mem s) pud (va_path va) = Some t" by metis
  then have "no_block (mem s') pud va" using ls by (intro no_blockI [of _ _ _ t]) (simp add: leaf_set_def)
  moreover have "pt_view (mem s') pud (va_slot va) = 0"
    using ls by (simp add: leaf_set_def del: split_paired_All)
  ultimately have "page_lookup pud va s' = (Inr None, s')" using page_lookup_eq [OF s'(2)] by simp
  then show ?thesis using s' ls ref
    by (simp add: leaf_set_def freed_to_def del: split_paired_All)
qed

lemma page_remove_spec_witness:
  "\<exists>s'. page_remove 0x1000 0 demo_state = (Inr (), s') \<and> page_lookup 0x1000 0 s' = (Inr None, s') \<and>
    vm_ok s' 0x1000 [4] \<and> pp_ref s' 4 = 0"
  using page_remove_spec [OF demo_vm(1), of _ 0] demo_vm by (auto simp: demo_state_def)

text \<open>
  \<open>foreign m pud fl pud2 sl\<close>: the tables the directory \<open>pud2\<close> reaches on the way to slot \<open>sl\<close> are
  neither tables of \<open>pud\<close> nor free pages.
\<close>

definition foreign :: "memory \<Rightarrow> u64 \<Rightarrow> u64 list \<Rightarrow> u64 \<Rightarrow> slot \<Rightarrow> bool" where
  "foreign m pud fl pud2 sl \<longleftrightarrow> page_aligned pud2 \<and> is_slot sl \<and>
     (case sl of (i, j, k) \<Rightarrow> \<forall>q \<in> {[], [i], [i, j]}. \<forall>t. tab m pud2 q = Some t \<longrightarrow>
        \<not> is_tab m pud t \<and> t \<notin> page2pa ` set fl)"

lemma foreign_view:
  assumes f: "foreign m pud fl pud2 sl"
    and tabs: "\<And>t. is_tab m' pud t \<Longrightarrow> is_tab m pud t \<or> t \<in> page2pa ` set fl"
    and keep: "\<And>t c. page_aligned t \<Longrightarrow> c < 512 \<Longrightarrow> \<not> is_tab m' pud t \<Longrightarrow>
      load64 m' (entry t c) = load64 m (entry t c)"
  shows "pt_view m' pud2 sl = pt_view m pud2 sl"
proof -
  obtain i j k where sl: "sl = (i, j, k)" by (cases sl)
  have idx: "i < 512" "j < 512" "k < 512" and al: "page_aligned pud2"
    using f sl by (auto simp: foreign_def is_slot_def)
  have out: "page_aligned t \<and> \<not> is_tab m' pud t"
    if "q \<in> {[], [i], [i, j]}" "tab m pud2 q = Some t" for q t
    using that f sl tabs [of t] tab_aligned [OF al that(2)] unfolding foreign_def by blast
  have "tab m' pud2 [i, j] = tab m pud2 [i, j]"
  proof (rule tab_cong)
    fix q a r t' assume "[i, j] = q @ a # r" and t': "tab m pud2 q = Some t'"
    then have "q \<in> {[], [i], [i, j]} \<and> a < 512" using idx by (cases q) (auto simp: Cons_eq_append_conv)
    then show "load64 m' (entry t' a) = load64 m (entry t' a)" using out [of q t'] t' keep by blast
  qed
  then show ?thesis using out [of "[i, j]"] keep idx sl
    by (auto simp del: tab.simps split: option.split)
qed

text \<open>C22: inserting into one directory never changes what another directory translates, on every
  address whose tables the two do not share: not when the address is free and tables are added, not when another page
  is taken away there and may be freed, and not when the same page gets a new permission.\<close>

lemma page_insert_isolation:
  assumes vm: "vm_ok s pud fl" and nb: "no_block (mem s) pud va"
    and e: "e = pt_view (mem s) pud (va_slot va)" "e AND PTE_V \<noteq> 0 \<longrightarrow> droppable s pud (PPN e)" and pp: "pp \<notin> set fl"
    and f: "foreign (mem s) pud fl pud2 sl"
  shows "\<exists>r s'. page_insert pud pp va perm s = (Inr r, s') \<and>
    pt_view (mem s') pud2 sl = pt_view (mem s) pud2 sl"
proof (cases "e AND PTE_V = 0")
  case True
  from page_insert_unmapped [OF vm nb pp] e(1) True obtain r s' fl'
    where i: "page_insert pud pp va perm s = (Inr r, s')"
      and ins: "inserts pud pp va (page_desc pp (perm OR 1)) s fl r s' fl'" by blast
  have "pt_view (mem s') pud2 sl = pt_view (mem s) pud2 sl"
    using ins unfolding inserts_def by (intro foreign_view [OF f]) auto
  then show ?thesis using i by blast
next
  case False
  then have d: "droppable s pud (PPN e)" using e(2) by simp
  have ls_view: "pt_view m' pud2 sl = pt_view (mem s) pud2 sl" if "leaf_set pud va v (mem s) m'" for v m'
    using that leaf_set_tabs(1) [OF that] by (intro foreign_view [OF f]) (auto simp: leaf_set_def)
  show ?thesis
  proof (cases "PPN e = pp")
    case True
    then have "pp < npage s" using d by (simp add: droppable_def)
    from page_insert_same [OF vm, of va pp perm] e(1) False True this obtain s' where
      "page_insert pud pp va perm s = (Inr 0, s')" "leaf_set pud va (page_desc pp (perm OR 1)) (mem s) (mem s')" by blast
    then show ?thesis using ls_view by blast
  next
    case ne: False
    from page_insert_other [OF vm, of va pp perm] e(1) False ne pp d obtain s1 s' where
      i: "page_insert pud pp va perm s = (Inr 0, s')" and ls: "leaf_set pud va 0 (mem s) (mem s1)"
      and ins: "inserts pud pp va (page_desc pp (perm OR 1)) s1 (freed_to s (PPN e) fl) 0 s' (freed_to s (PPN e) fl)" by blast
    from ins have "is_tab (mem s') pud t \<longleftrightarrow> is_tab (mem s1) pud t" for t by (auto simp: inserts_def)
    then have it: "is_tab (mem s') pud t \<longleftrightarrow> is_tab (mem s) pud t" for t using leaf_set_tabs(1) [OF ls] by simp
    have "load64 (mem s') (entry t c) = load64 (mem s) (entry t c)"
      if "page_aligned t" "c < 512" "\<not> is_tab (mem s') pud t" for t c
      using that it ins ls unfolding inserts_def leaf_set_def by simp
    then have "pt_view (mem s') pud2 sl = pt_view (mem s) pud2 sl" using it by (intro foreign_view [OF f]) auto
    then show ?thesis using i by blast
  qed
qed

text \<open>Page 5 replaces page 4 at address 0, and a directory at 0x9000 still maps nothing.\<close>

lemma page_insert_isolation_witness:
  "\<exists>r s'. page_insert 0x1000 5 0 0x80 demo_state = (Inr r, s') \<and> pt_view (mem s') 0x9000 (1, 2, 3) = 0"
proof -
  have al: "page_aligned 0x9000" "page_aligned 0x3000" by (simp_all add: page_aligned_def)
  have z: "load64 (mem demo_state) (entry 0x9000 c) = 0" if "c < 512" for c
    using two_tables(5) [of 0 0 "0x9000" c] al that by (simp add: demo_state_def demo_tables_def ts.get_put_cell)
  then have t: "tab (mem demo_state) 0x9000 [1] = None" "tab (mem demo_state) 0x9000 [1, 2] = None" by (simp_all add: next_tab_def)
  have "is_tab (mem demo_state) 0x1000 x \<longleftrightarrow> x \<in> {0x1000, 0x2000, 0x3000}" for x
  proof -
    have "leaf_set 0x1000 0 (page_desc 4 1) demo_tables (mem demo_state)"
      using leaf_set_store [OF demo_tables(1), of 0 "0x3000" "page_desc 4 1"] demo_tables(2)
      by (simp add: demo_state_def va_path_def PUDX_def PMDX_def PTEX_def page_aligned_def del: tab.simps)
    then show ?thesis using leaf_set_tabs(1) demo_tables(3) by blast
  qed
  then have "foreign (mem demo_state) 0x1000 [] 0x9000 (1, 2, 3)"
    using al t by (simp add: foreign_def is_slot_def del: tab.simps) simp
  from page_insert_isolation [OF demo_vm(1) view_mapped refl _ _ this, of 0 5 "0x80"] demo_vm(2-4) t(2) show ?thesis
    by simp
qed

text \<open>C25: a walk without creation changes nothing and finds the leaf entry of the address exactly when
  the tables reach that far; a walk with creation makes the missing tables from the free list, or
  reports \<open>E_NO_MEM\<close> with the list used up, and in no case changes what any address translates to.\<close>

lemma pgdir_walk_spec:
  assumes vm: "vm_ok s pud fl" and nb: "no_block (mem s) pud va"
  shows "pgdir_walk pud va False s =
      (case tab (mem s) pud (va_path va) of
         None \<Rightarrow> (Inr (- E_NO_MEM, 0), s) | Some t \<Rightarrow> (Inr (0, entry t (PTEX va)), s)) \<and>
    (\<exists>r a s' fl'. pgdir_walk pud va True s = (Inr (r, a), s') \<and> vm_ok s' pud fl' \<and>
      (\<forall>sl. is_slot sl \<longrightarrow> pt_view (mem s') pud sl = pt_view (mem s) pud sl) \<and>
      (r = 0 \<and> pgdir_walk pud va False s' = (Inr (0, a), s') \<or> r = - E_NO_MEM \<and> a = 0 \<and> fl' = []))"
proof -
  from pgdir_walk_create [OF vm nb] obtain r a s' fl' where
    w: "pgdir_walk pud va True s = (Inr (r, a), s')" and g: "grows pud s fl s' fl'"
    and c: "r = 0 \<and> (\<exists>t. tab (mem s') pud (va_path va) = Some t \<and> a = entry t (PTEX va)) \<or>
     r = - E_NO_MEM \<and> a = 0 \<and> fl' = [] \<and> tab (mem s) pud (va_path va) = None" by blast
  have "pgdir_walk pud va False s' = (Inr (0, a), s')"
    if "tab (mem s') pud (va_path va) = Some t" "a = entry t (PTEX va)" for t
    using pgdir_walk_lookup [OF no_blockI [OF that(1)]] that by simp
  then show ?thesis using w g c pgdir_walk_lookup [OF nb] unfolding grows_def grown_def by blast
qed

lemma pgdir_walk_spec_witness:
  "pgdir_walk 0x1000 0x70000000 False small_state = (Inr (- E_NO_MEM, 0), small_state)"
  using pgdir_walk_spec [OF small_vm(1,2), of "0x70000000", THEN conjunct1]
    small_pool(3) zero_tab [of "0x1000" "va_path 0x70000000"]
  by (cases "tab (\<lambda>_. 0) 0x1000 (va_path 0x70000000)") (auto simp: va_path_def simp del: tab.simps)

text \<open>The permission argument is or-ed into the descriptor whole, so its bits from 12 on are taken
  for address bits: the entry then maps a page other than the one whose reference was counted.\<close>

lemma page_desc_perm_bits:
  assumes "p < 2 ^ 52"
  shows "PPN (page_desc p perm) = p OR ucast (drop_bit 12 perm)"
proof -
  have "drop_bit 12 (ucast perm :: u64) = ucast (drop_bit 12 perm)"
    by (rule bit_word_eqI) (auto simp: bit_simps dest: bit_imp_le_length)
  moreover have "drop_bit 12 (0x743 :: u64) = 0" by (simp add: drop_bit_eq_div)
  moreover have "drop_bit 12 (page2pa p) = p" using PPN_page2pa [OF assms] by (simp add: PPN_def)
  ultimately show ?thesis by (simp only: PPN_def page_desc_eq drop_bit_or or.right_neutral)
qed

lemma page_desc_perm_bits_witness: "PPN (page_desc 4 0x1000) = 5"
  using page_desc_perm_bits [of 4 "0x1000"] by simp

end
