(* ===== verification/Page_Frame.thy ===== *)
theory Page_Frame
  imports Page_Table
begin

text \<open>
  What the page and page-table functions leave alone, on every state and however they end: all but
  the memory, the page references, the free list of pages and the trace.
\<close>

subsection \<open>What the page functions leave alone\<close>

text \<open>All but memory, page references, the free list and the trace: on every state, and however the
  function ends.\<close>

definition rest :: "kstate \<Rightarrow> kstate" where
  "rest s = s\<lparr>mem := (\<lambda>_. 0), page_q := no_lists, pp_ref := (\<lambda>_. 0), trace := []\<rparr>"

lemma rest_upd [simp]:
  "rest (s\<lparr>mem := m\<rparr>) = rest s" "rest (s\<lparr>page_q := q\<rparr>) = rest s"
  "rest (s\<lparr>pp_ref := r\<rparr>) = rest s" "rest (log e s) = rest s" "rest (incref p s) = rest s"
  by (simp_all add: rest_def log_def incref_def)

lemma rest_fields:
  assumes "rest s' = rest s"
  shows "envs s' = envs s" "env_q s' = env_q s" "sched_q s' = sched_q s" "curenv s' = curenv s"
    "cur_sched s' = cur_sched s" "next_env_id s' = next_env_id s" "sched_pos s' = sched_pos s"
    "pg_dir s' = pg_dir s" "npage s' = npage s" "remaining_time s' = remaining_time s"
    "kernel_tf s' = kernel_tf s" "timestack_tf s' = timestack_tf s" "freemem s' = freemem s"
    "maxpa s' = maxpa s"
  using assms by (cases s; cases s'; simp add: rest_def)+

lemma same_rest_iff: "same_rest s s' \<longleftrightarrow> rest s' = rest s"
  by (cases s, cases s') (auto simp: same_rest_def rest_def)

named_theorems rest_simps

lemma rest_kbind [rest_simps]:
  assumes "\<And>x t. rest (snd (f x t)) = rest t"
  shows "rest (snd (kbind m f s)) = rest (snd (m s))"
  using assms by (auto simp: kbind_def split: prod.splits sum.splits)

lemma rest_kfor:
  assumes "\<And>i t. rest (snd (f i t)) = rest t"
  shows "rest (snd (kfor is f s)) = rest s"
  by (induction "is" arbitrary: s) (simp_all add: rest_kbind assms)

lemma rest_page_free [rest_simps]: "rest (snd (page_free p s)) = rest s"
  by (simp add: page_free_def kpanic_def)

lemma rest_kzero [rest_simps]: "rest (snd (kzero b n s)) = rest s"
  by (simp add: kzero_def split: option.split)

lemma rest_page_alloc [rest_simps]: "rest (snd (page_alloc s)) = rest s"
  by (simp add: page_alloc_def rest_simps split: option.split)

lemma rest_pa2page [rest_simps]: "rest (snd (pa2page pa s)) = rest s"
  by (simp add: pa2page_def kpanic_def)

lemma rest_walk_level [rest_simps]: "rest (snd (walk_level t i c s)) = rest s"
  by (simp add: walk_level_def Let_def rest_simps split: prod.split option.split)

lemma rest_pgdir_walk [rest_simps]: "rest (snd (pgdir_walk pud va c s)) = rest s"
  by (simp add: pgdir_walk_def rest_simps split: prod.split)

lemma rest_page_lookup [rest_simps]: "rest (snd (page_lookup pud va s)) = rest s"
  by (simp add: page_lookup_def rest_simps split: prod.split)

lemma rest_page_remove [rest_simps]: "rest (snd (page_remove pud va s)) = rest s"
  by (simp add: page_remove_def Let_def tlb_invalidate_eq rest_simps split: prod.split option.split)

lemma rest_install [rest_simps]: "rest (snd (install pud pp va perm s)) = rest s"
  by (simp add: install_def Let_def tlb_invalidate_eq rest_simps split: prod.split)

lemma rest_page_insert [rest_simps]: "rest (snd (page_insert pud pp va perm s)) = rest s"
  by (simp add: page_insert_def Let_def tlb_invalidate_eq rest_simps split: prod.split)

lemma rest_lookup_insert:
  "page_lookup pud va s = (x, t) \<Longrightarrow> rest t = rest s"
  "page_insert pud pp va perm s = (y, t) \<Longrightarrow> rest t = rest s"
  using rest_page_lookup [of pud va s] rest_page_insert [of pud pp va perm s] by auto

lemma rest_log_iff: "rest (kprintf f a s) = rest s"
  by (simp add: kprintf_def)

end
