(* ===== verification/Env_Mgmt.thy ===== *)
theory Env_Mgmt
  imports Page_Frame
begin

text \<open>
  Environments: \<^verbatim>\<open>lib/env.c\<close> and the scheduler of \<^verbatim>\<open>lib/sched.c\<close>. An environment is its index in
  \<^verbatim>\<open>envs\<close>. \<^verbatim>\<open>env_pop_tf\<close>, which never returns, is the outcome \<open>Enter_user\<close>; the trap frames
  on the two kernel stacks are fields of the state.
\<close>

subsection \<open>Constants\<close>

definition UTOP :: u64 where "UTOP = 0xe0000000"
definition NENV :: u64 where "NENV = 1024"
definition LOG2NENV :: nat where "LOG2NENV = 10"
definition USTACKTOP :: u64 where "USTACKTOP = UTOP - 2 * BY2PG"
definition ENVX :: "u64 \<Rightarrow> u64" where "ENVX envid = envid AND (NENV - 1)"
definition ENV_FREE :: u64 where "ENV_FREE = 0"
definition ENV_RUNNABLE :: u64 where "ENV_RUNNABLE = 1"
definition ENV_NOT_RUNNABLE :: u64 where "ENV_NOT_RUNNABLE = 2"

lemmas env_consts = UTOP_def NENV_def LOG2NENV_def USTACKTOP_def ENV_FREE_def ENV_RUNNABLE_def
  ENV_NOT_RUNNABLE_def

text \<open>\<open>e->field = v\<close>\<close>

definition env_upd :: "u64 \<Rightarrow> (env \<Rightarrow> env) \<Rightarrow> kstate \<Rightarrow> kstate" where
  "env_upd e f s = s\<lparr>envs := (envs s)(e := f (envs s e))\<rparr>"

subsection \<open>Identifiers\<close>

definition mkenvid :: "u64 \<Rightarrow> u64 kfun" where
  "mkenvid e s =
     (let s = s\<lparr>next_env_id := next_env_id s + 1\<rparr> in
      (Inr (push_bit (1 + LOG2NENV) (next_env_id s) OR e), s))"

text \<open>The status and what is stored through \<^verbatim>\<open>penv\<close>.\<close>

definition envid2env :: "u64 \<Rightarrow> bool \<Rightarrow> (int \<times> u64 option) kfun" where
  "envid2env envid checkperm s =
     (if envid = 0 then (Inr (0, curenv s), s)
      else
        let e = ENVX envid in
        if env_status (envs s e) = ENV_FREE \<or> env_id (envs s e) \<noteq> envid
        then (Inr (- E_BAD_ENV, None), s)
        else if checkperm \<and> Some e \<noteq> curenv s then
          (case curenv s of
             None \<Rightarrow> (Inl Null_deref, s)
           | Some c \<Rightarrow>
               (if env_parent_id (envs s e) \<noteq> env_id (envs s c)
                then (Inr (- E_BAD_ENV, None), s) else (Inr (0, Some e), s)))
        else (Inr (0, Some e), s))"

subsection \<open>Creation\<close>

text \<open>The body of the loop of \<open>env_init\<close>, and the loop's counter.\<close>

definition env_release :: "u64 \<Rightarrow> kstate \<Rightarrow> kstate" where
  "env_release i s =
     (let s = env_upd i (\<lambda>e. e\<lparr>env_status := ENV_FREE\<rparr>) s in
      s\<lparr>env_q := LIST_INSERT_HEAD (env_q s) () i\<rparr>)"

definition env_init :: "kstate \<Rightarrow> kstate" where
  "env_init s =
     (let s = s\<lparr>env_q := LIST_INIT (env_q s) ()\<rparr>;
          s = fold env_release (rev (counter 0 NENV)) s;
          s = s\<lparr>sched_q := set_first 0 None (sched_q s)\<rparr>;
          s = s\<lparr>sched_q := set_first 1 None (sched_q s)\<rparr>
      in s\<lparr>cur_sched := 0, remaining_time := 0\<rparr>)"

text \<open>The kernel's upper directory is copied entry by entry.\<close>

definition copy_pgdir :: "u64 \<Rightarrow> kstate \<Rightarrow> kstate" where
  "copy_pgdir pgdir s =
     s\<lparr>mem := fold (\<lambda>i m. store64 m (entry pgdir i) (load64 m (entry (pg_dir s) i)))
                (counter 0 512) (mem s)\<rparr>"

definition env_setup_vm :: "u64 \<Rightarrow> int kfun" where
  "env_setup_vm e =
     kbind page_alloc (\<lambda>(r, pp) s.
       if r < 0 then kpanic (''env_setup_vm - page_alloc error'' @ [CHR 0x0A]) [] s
       else case pp of
         None \<Rightarrow> (Inl Null_deref, s)
       | Some p \<Rightarrow>
           (let s = incref p s;
                pgdir = page2pa p;
                s = copy_pgdir pgdir s
            in (Inr 0, env_upd e (\<lambda>x. x\<lparr>env_pgdir := pgdir\<rparr>) s)))"

text \<open>The status and what is stored through \<^verbatim>\<open>new\<close>.\<close>

definition env_alloc :: "u64 \<Rightarrow> (int \<times> u64 option) kfun" where
  "env_alloc parent_id s =
     (case LIST_FIRST (env_q s) () of
        None \<Rightarrow> (Inr (- E_NO_FREE_ENV, None), kprintf (''Sorry,alloc env failed!'' @ [CHR 0x0A]) [] s)
      | Some e \<Rightarrow>
          kbind (env_setup_vm e) (\<lambda>_ s.
            let s = env_upd e (\<lambda>x. x\<lparr>env_parent_id := parent_id\<rparr>) s;
                s = env_upd e (\<lambda>x. x\<lparr>env_status := ENV_RUNNABLE\<rparr>) s;
                s = env_upd e (\<lambda>x. x\<lparr>env_runs := 0\<rparr>) s in
            kbind (mkenvid e) (\<lambda>eid s.
              let s = env_upd e (\<lambda>x. x\<lparr>env_id := eid\<rparr>) s;
                  s = env_upd e (\<lambda>x. x\<lparr>env_tf := (env_tf x)\<lparr>tf_sp := USTACKTOP\<rparr>\<rparr>) s in
              case LIST_REMOVE (env_q s) e of
                None \<Rightarrow> (Inl Null_deref, s)
              | Some q \<Rightarrow> (Inr (0, Some e), s\<lparr>env_q := q\<rparr>)) s) s)"

definition env_create_priority :: "u64 \<Rightarrow> int \<Rightarrow> int \<Rightarrow> unit kfun" where
  "env_create_priority binary sz priority =
     kbind (env_alloc 0) (\<lambda>(r, e) s.
       if r < 0 then kpanic ''fuck,env_create_priority:env_alloc failed'' [] s
       else kbind page_alloc (\<lambda>(r, pp) s.
         case (e, pp) of
           (Some e, Some p) \<Rightarrow>
             (let s = incref p s in
              if r < 0 then (Inr (), kprintf (''env_create:page_alloc failed'' @ [CHR 0x0A]) [] s)
              else kbind (page_insert (env_pgdir (envs s e)) p (USTACKTOP - BY2PG) (ucast PTE_V)) (\<lambda>r s.
                let s = env_upd e (\<lambda>x. x\<lparr>env_pri := word_of_int priority\<rparr>) s;
                    s = env_upd e (\<lambda>x. x\<lparr>env_tf := (env_tf x)\<lparr>tf_pc := binary\<rparr>\<rparr>) s;
                    s = env_upd e (\<lambda>x. x\<lparr>env_tf := (env_tf x)\<lparr>tf_sp := USTACKTOP\<rparr>\<rparr>) s
                in (Inr (), s\<lparr>sched_q := LIST_INSERT_HEAD (sched_q s) (cur_sched s) e\<rparr>)) s)
         | _ \<Rightarrow> (Inl Null_deref, s)) s)"

definition env_create :: "u64 \<Rightarrow> int \<Rightarrow> unit kfun" where
  "env_create binary sz = env_create_priority binary sz 1"

subsection \<open>Running\<close>

definition env_run :: "u64 \<Rightarrow> unit kfun" where
  "env_run e s =
     (let s = (case curenv s of
                 None \<Rightarrow> s
               | Some c \<Rightarrow>
                   (let s = env_upd c (\<lambda>x. x\<lparr>env_tf := timestack_tf s\<rparr>) s in
                    env_upd c (\<lambda>x. x\<lparr>env_tf := (env_tf x)\<lparr>tf_pc := tf_elr_el1 (timestack_tf s)\<rparr>\<rparr>) s));
          s = s\<lparr>curenv := Some e\<rparr>;
          s = env_upd e (\<lambda>x. x\<lparr>env_runs := env_runs x + 1\<rparr>) s
      in (Inl Enter_user, tlb_invalidate s))"

text \<open>
  The loop of \<open>sched_yield\<close>, up to the call of \<open>env_run\<close>: the position found. It does not end
  when no environment is runnable.
\<close>

partial_function (option) sched_search :: "(u64 \<Rightarrow> env) \<Rightarrow> int \<Rightarrow> int option" where
  "sched_search es pos =
     (let pos = (pos + 1) mod 1024 in
      if env_status (es (word_of_int pos)) = ENV_RUNNABLE then Some pos else sched_search es pos)"

definition sched_yield :: "unit kfun" where
  "sched_yield s =
     (case sched_search (envs s) (sched_pos s) of
        None \<Rightarrow> (Inl Hang, s)
      | Some pos \<Rightarrow> env_run (word_of_int pos) (s\<lparr>sched_pos := pos\<rparr>))"

definition handle_irq :: "unit kfun" where
  "handle_irq s = sched_yield (log Ev_timer s)"

subsection \<open>Destruction\<close>

text \<open>The three loops of \<open>env_free\<close>, from the innermost.\<close>

definition free_ptes :: "u64 \<Rightarrow> u64 \<Rightarrow> u64 \<Rightarrow> u64 \<Rightarrow> unit kfun" where
  "free_ptes e pudno pmdno pmd_entry =
     kfor (counter 0 512) (\<lambda>pteno s.
       if load64 (mem s) (entry pmd_entry pteno) AND PTE_V = 0
       then page_remove (env_pgdir (envs s e))
              (push_bit 30 pudno + push_bit 21 pmdno + push_bit 12 pteno) s
       else (Inr (), s))"

definition free_pmds :: "u64 \<Rightarrow> u64 \<Rightarrow> u64 \<Rightarrow> unit kfun" where
  "free_pmds e pudno pud_entry =
     kfor (counter 0 512) (\<lambda>pmdno s.
       if load64 (mem s) (entry pud_entry pmdno) AND PTE_V = 0 then (Inr (), s)
       else
         let pmd_entry = PTE_ADDR (load64 (mem s) (entry pud_entry pmdno)) in
         kbind (free_ptes e pudno pmdno pmd_entry)
           (\<lambda>_ s. page_remove (env_pgdir (envs s e)) pmd_entry s) s)"

definition free_puds :: "u64 \<Rightarrow> unit kfun" where
  "free_puds e =
     kfor (counter (PUDX 0xc0000000) 512) (\<lambda>pudno s.
       if load64 (mem s) (entry (env_pgdir (envs s e)) pudno) AND PTE_V = 0 then (Inr (), s)
       else
         let pud_entry = PTE_ADDR (load64 (mem s) (entry (env_pgdir (envs s e)) pudno)) in
         kbind (free_pmds e pudno pud_entry)
           (\<lambda>_ s. page_remove (env_pgdir (envs s e)) pud_entry s) s)"

definition env_free :: "u64 \<Rightarrow> unit kfun" where
  "env_free e s =
     (let cur = (case curenv s of None \<Rightarrow> 0 | Some c \<Rightarrow> env_id (envs s c));
          s = kprintf (''[%08x] free env %08x'' @ [CHR 0x0A]) [VA_num cur, VA_num (env_id (envs s e))] s
      in kbind (free_puds e) (\<lambda>_ s.
           let s = env_upd e (\<lambda>x. x\<lparr>env_pgdir := 0\<rparr>) s;
               s = env_upd e (\<lambda>x. x\<lparr>env_status := ENV_FREE\<rparr>) s;
               s = s\<lparr>env_q := LIST_INSERT_HEAD (env_q s) () e\<rparr>
           in case LIST_REMOVE (sched_q s) e of
                None \<Rightarrow> (Inl Null_deref, s)
              | Some q \<Rightarrow> (Inr (), s\<lparr>sched_q := q\<rparr>)) s)"

definition env_destroy :: "u64 \<Rightarrow> unit kfun" where
  "env_destroy e =
     kbind (env_free e) (\<lambda>_ s.
       if curenv s = Some e then
         (let s = s\<lparr>curenv := None\<rparr>;
              s = s\<lparr>timestack_tf := kernel_tf s\<rparr>;
              s = kprintf (''i am killed ... '' @ [CHR 0x0A]) [] s;
              s = s\<lparr>remaining_time := 0\<rparr>
          in sched_yield s)
       else (Inr (), s))"

subsection \<open>Identifiers: lemmas\<close>

lemma ENVX_bits: "bit (ENVX w) n \<longleftrightarrow> n < 10 \<and> bit w n"
proof -
  have "(NENV - 1 :: u64) = mask 10" by (simp add: NENV_def mask_eq_exp_minus_1)
  then show ?thesis by (auto simp: ENVX_def bit_simps)
qed

lemma ENVX_mkenvid:
  assumes "e < 1024"
  shows "ENVX (push_bit (1 + LOG2NENV) n OR e) = e"
proof (rule bit_word_eqI)
  fix k assume "k < LENGTH(64)"
  have "\<not> bit e k" if "10 \<le> k" using assms that by (intro not_bit_small [of e 10]) simp_all
  then show "bit (ENVX (push_bit (1 + LOG2NENV) n OR e)) k = bit e k"
    by (auto simp: ENVX_bits bit_simps LOG2NENV_def not_le [symmetric])
qed

lemma unat_mkenvid:
  fixes e n :: u64
  assumes "e < 1024" and "unat n < 2 ^ 53"
  shows "unat (push_bit (1 + LOG2NENV) n OR e) = 2048 * unat n + unat e"
proof -
  have e: "unat e < 1024" using assms(1) by (simp add: word_less_nat_alt)
  have "push_bit 11 n AND e = 0"
  proof (rule bit_word_eqI)
    fix k
    have "\<not> bit e k" if "10 \<le> k" using assms(1) that by (intro not_bit_small [of e 10]) simp_all
    then show "bit (push_bit 11 n AND e) k = bit 0 k" by (auto simp: bit_simps)
  qed
  then have "push_bit 11 n OR e = push_bit 11 n + e" by (simp add: disjunctive_add_eq_or)
  moreover have "unat (push_bit 11 n) = 2048 * unat n"
    using assms(2) by (simp add: push_bit_eq_mult unat_word_ariths)
  ultimately show ?thesis using assms(2) e
    by (simp add: LOG2NENV_def unat_add_small)
qed

text \<open>Calling \<open>mkenvid\<close> for a list of environments, in order.\<close>

fun mkenvids :: "u64 list \<Rightarrow> kstate \<Rightarrow> u64 list" where
  "mkenvids [] s = []"
| "mkenvids (e # es) s = (case mkenvid e s of (Inr i, s') \<Rightarrow> i # mkenvids es s' | _ \<Rightarrow> [])"

lemma mkenvids_above:
  "\<forall>e \<in> set es. e < 1024 \<Longrightarrow> unat (next_env_id s) + length es < 2 ^ 53 \<Longrightarrow>
    i \<in> set (mkenvids es s) \<Longrightarrow> 2048 * Suc (unat (next_env_id s)) \<le> unat i"
proof (induction es arbitrary: s)
  case (Cons e es)
  let ?s = "s\<lparr>next_env_id := next_env_id s + 1\<rparr>"
  have n: "unat (next_env_id s + 1) = Suc (unat (next_env_id s))"
    using Cons.prems(2) by (subst unat_add_small) auto
  have "i = push_bit (1 + LOG2NENV) (next_env_id s + 1) OR e \<or> i \<in> set (mkenvids es ?s)"
    using Cons.prems(3) by (simp add: mkenvid_def Let_def)
  then show ?case
  proof
    assume "i \<in> set (mkenvids es ?s)"
    then show ?thesis using Cons.IH [of ?s] Cons.prems n by simp
  next
    assume "i = push_bit (1 + LOG2NENV) (next_env_id s + 1) OR e"
    then show ?thesis using unat_mkenvid [of e "next_env_id s + 1"] Cons.prems(1,2) n by simp
  qed
qed simp

lemma mkenvids_distinct:
  "\<forall>e \<in> set es. e < 1024 \<Longrightarrow> unat (next_env_id s) + length es < 2 ^ 53 \<Longrightarrow>
    distinct (mkenvids es s) \<and> length (mkenvids es s) = length es"
proof (induction es arbitrary: s)
  case (Cons e es)
  let ?s = "s\<lparr>next_env_id := next_env_id s + 1\<rparr>" and ?i = "push_bit (1 + LOG2NENV) (next_env_id s + 1) OR e"
  have n: "unat (next_env_id s + 1) = Suc (unat (next_env_id s))"
    using Cons.prems(2) by (subst unat_add_small) auto
  have "e < 1024" using Cons.prems(1) by simp
  then have "unat ?i < 2048 * Suc (unat (next_env_id s + 1))"
    using unat_mkenvid [of e "next_env_id s + 1"] Cons.prems(2) n
    by (simp add: word_less_nat_alt)
  moreover have "2048 * Suc (unat (next_env_id s + 1)) \<le> unat j" if "j \<in> set (mkenvids es ?s)" for j
    using mkenvids_above [of es ?s j] Cons.prems that n by simp
  ultimately have "?i \<notin> set (mkenvids es ?s)" by (metis not_le)
  then show ?case using Cons.IH [of ?s] Cons.prems n by (simp add: mkenvid_def Let_def)
qed simp

subsection \<open>The scheduler\<close>

text \<open>The positions the search visits from \<open>pos\<close> on: all of them once, in cyclic order.\<close>

definition visit :: "int \<Rightarrow> nat \<Rightarrow> int" where
  "visit pos k = (pos + 1 + int k) mod 1024"

definition runnable :: "(u64 \<Rightarrow> env) \<Rightarrow> int \<Rightarrow> bool" where
  "runnable es pos \<longleftrightarrow> env_status (es (word_of_int pos)) = ENV_RUNNABLE"

lemma sched_search_step:
  "sched_search es pos = (if runnable es (visit pos 0) then Some (visit pos 0)
    else sched_search es (visit pos 0))"
  by (subst sched_search.simps) (simp add: runnable_def visit_def Let_def)

lemma visit_visit: "visit (visit pos 0) k = visit pos (Suc k)"
proof -
  have "((pos + 1) mod 1024 + (1 + int k)) mod 1024 = (pos + 1 + (1 + int k)) mod 1024"
    by (rule mod_add_left_eq)
  then show ?thesis by (simp add: visit_def algebra_simps)
qed

lemma sched_search_found:
  "runnable es (visit pos k) \<Longrightarrow> (\<forall>j < k. \<not> runnable es (visit pos j)) \<Longrightarrow>
    sched_search es pos = Some (visit pos k)"
proof (induction k arbitrary: pos)
  case 0
  then show ?case by (simp add: sched_search_step [of es pos])
next
  case (Suc k)
  have "\<not> runnable es (visit pos 0)" using Suc.prems(2) by simp
  moreover have "sched_search es (visit pos 0) = Some (visit (visit pos 0) k)"
    using Suc.prems by (intro Suc.IH) (auto simp: visit_visit)
  ultimately show ?case by (simp add: sched_search_step [of es pos] visit_visit)
qed

lemma visit_all:
  assumes "0 \<le> p" and "p < 1024"
  shows "\<exists>k < 1024. visit pos k = p"
proof (intro exI conjI)
  let ?k = "nat ((p - pos - 1) mod 1024)"
  show "?k < 1024" by simp
  have "visit pos ?k = (pos + 1 + (p - pos - 1) mod 1024) mod 1024" by (simp add: visit_def)
  also have "\<dots> = p mod 1024" by (simp add: mod_simps)
  finally show "visit pos ?k = p" using assms by simp
qed

lemma sched_search_Some:
  assumes "sched_search es pos = Some p"
  shows "0 \<le> p \<and> p < 1024 \<and> runnable es p"
  using assms
proof (rule sched_search.raw_induct [rotated])
  fix search es pos p
  assume "\<And>es pos p. search es pos = Some p \<Longrightarrow> 0 \<le> p \<and> p < 1024 \<and> runnable es p"
    and "(let pos = (pos + 1) mod 1024
      in if env_status (es (word_of_int pos)) = ENV_RUNNABLE then Some pos else search es pos) = Some p"
  then show "0 \<le> p \<and> p < 1024 \<and> runnable es p"
    by (auto simp: Let_def runnable_def split: if_splits)
qed

lemma sched_search_None:
  assumes "\<forall>p. 0 \<le> p \<and> p < 1024 \<longrightarrow> \<not> runnable es p"
  shows "sched_search es pos = None"
  using sched_search_Some [of es pos] assms by (cases "sched_search es pos") auto

subsection \<open>Setting up an address space\<close>

lemma copy_entries:
  fixes m :: memory
  assumes "page_aligned d" "page_aligned r" "d \<noteq> r"
  defines "m' \<equiv> fold (\<lambda>i m. store64 m (entry d i) (load64 m (entry r i))) (counter 0 512) m"
  shows "i < 512 \<Longrightarrow> load64 m' (entry d i) = load64 m (entry r i)"
    "page_aligned t \<Longrightarrow> t \<noteq> d \<Longrightarrow> i < 512 \<Longrightarrow> load64 m' (entry t i) = load64 m (entry t i)"
proof -
  have idx: "set (counter 0 512) = {i. i < (512 :: u64)}" by (auto simp: set_counter)
  have ok: "aligned8 (entry d i)" for i using assms(1) by (rule aligned8_entry)
  show "load64 m' (entry d i) = load64 m (entry r i)" if "i < 512"
    unfolding m'_def
  proof (rule es.get_fill)
    show "inj_on (entry d) (set (counter 0 512))"
      using assms(1) by (auto simp: inj_on_def idx entry_eq_iff)
    show "load64 m1 (entry r i) = load64 m2 (entry r i)"
      if "\<And>b. b \<notin> entry d ` set (counter 0 512) \<Longrightarrow> aligned8 b \<Longrightarrow> load64 m1 b = load64 m2 b"
      for m1 m2
      using assms(1-3) \<open>i < 512\<close>
      by (intro that) (auto simp: idx entry_eq_iff aligned8_entry)
  qed (use that ok in \<open>auto simp: idx distinct_counter\<close>)
  show "load64 m' (entry t i) = load64 m (entry t i)" if "page_aligned t" "t \<noteq> d" "i < 512"
    unfolding m'_def using that assms(1) ok
    by (intro es.get_fill_other) (auto simp: idx entry_eq_iff aligned8_entry)
qed

text \<open>
  \<open>shares m d m' r\<close>: the directory \<open>d\<close> in memory \<open>m\<close> has the entries \<open>r\<close> has in \<open>m'\<close>, and every
  other table is as it was, but for the page \<open>d\<close> itself.
\<close>

definition shares :: "memory \<Rightarrow> u64 \<Rightarrow> memory \<Rightarrow> u64 \<Rightarrow> bool" where
  "shares m d m' r \<longleftrightarrow> (\<forall>i < 512. load64 m (entry d i) = load64 m' (entry r i)) \<and>
     (\<forall>t i. page_aligned t \<longrightarrow> t \<noteq> d \<longrightarrow> i < 512 \<longrightarrow> load64 m (entry t i) = load64 m' (entry t i))"

lemma shares_view:
  assumes sh: "shares m d m' r" and al: "page_aligned r" and out: "\<not> is_tab m' r d" and sl: "is_slot sl"
  shows "pt_view m d sl = pt_view m' r sl"
proof -
  obtain i j k where s: "sl = (i, j, k)" by (cases sl)
  then have idx: "i < 512" "j < 512" "k < 512" using sl by (auto simp: is_slot_def)
  have n: "next_tab m d i = next_tab m' r i" using sh idx by (simp add: shares_def next_tab_def)
  have other: "load64 m (entry t c) = load64 m' (entry t c)"
    if "tab m' r q = Some t" "is_path q" "c < 512" for q t c
  proof -
    have "is_tab m' r t" using that(1,2) by (auto simp: is_tab_def)
    then have "t \<noteq> d" using out by auto
    then show ?thesis using sh tab_aligned [OF al that(1)] that(3) by (simp add: shares_def)
  qed
  have p: "is_path [i]" "is_path [i, j]" using idx by (auto simp: is_path_def)
  show ?thesis
  proof (cases "next_tab m' r i")
    case None
    then show ?thesis using n s by simp
  next
    case (Some t)
    then have t: "tab m' r [i] = Some t" by simp
    then have n2: "next_tab m t j = next_tab m' t j"
      using other [OF t p(1) idx(2)] by (simp add: next_tab_def)
    show ?thesis
    proof (cases "next_tab m' t j")
      case None
      then show ?thesis using n n2 s Some by simp
    next
      case (Some t2)
      then have "tab m' r [i, j] = Some t2" using t by simp
      then show ?thesis using other [OF _ p(2) idx(3)] n n2 s Some t by simp
    qed
  qed
qed

lemma env_setup_vm_eq:
  assumes pool: "pool_ok s (p # fl)" and al: "page_aligned (pg_dir s)" and ne: "page2pa p \<noteq> pg_dir s"
  shows "\<exists>q m. env_setup_vm e s = (Inr 0, env_upd e (\<lambda>x. x\<lparr>env_pgdir := page2pa p\<rparr>)
      (s\<lparr>page_q := q, pp_ref := (pp_ref s)(p := 1), mem := m\<rparr>)) \<and>
    lst q () fl \<and> shares m (page2pa p) (mem s) (pg_dir s)"
proof -
  from page_alloc_Cons [OF pool] obtain q where q: "page_alloc s = (Inr (0, Some p),
      s\<lparr>page_q := q, mem := zeroed (mem s) (page2pa p) BY2PG\<rparr>)" "lst q () fl" by blast
  let ?z = "zeroed (mem s) (page2pa p) BY2PG"
  define m where "m = fold (\<lambda>i m. store64 m (entry (page2pa p) i) (load64 m (entry (pg_dir s) i)))
    (counter 0 512) ?z"
  have z: "load64 ?z (entry t i) = load64 (mem s) (entry t i)"
    if "page_aligned t" "t \<noteq> page2pa p" "i < 512" for t i
    using that by (simp add: ts.get_clear)
  have "shares m (page2pa p) (mem s) (pg_dir s)"
    unfolding shares_def m_def using copy_entries [OF page_aligned_page2pa al ne, where m = ?z] z al ne by auto
  moreover have "pp_ref s p = 0" using pool by (simp add: pool_ok_def)
  then have "env_setup_vm e s = (Inr 0, env_upd e (\<lambda>x. x\<lparr>env_pgdir := page2pa p\<rparr>)
      (s\<lparr>page_q := q, pp_ref := (pp_ref s)(p := 1), mem := m\<rparr>))"
    using q(1) by (simp add: env_setup_vm_def incref_def copy_pgdir_def m_def Let_def)
  ultimately show ?thesis using q(2) by blast
qed

definition env_pool :: "kstate \<Rightarrow> u64 list \<Rightarrow> bool" where
  "env_pool s el \<longleftrightarrow> lst (env_q s) () el \<and> (\<forall>e \<in> set el. e < 1024)"

lemma mkenvid_nonzero:
  assumes "e < 1024" and "unat (next_env_id s) + 1 < 2 ^ 53"
  shows "push_bit (1 + LOG2NENV) (next_env_id s + 1) OR e \<noteq> 0"
proof -
  have n: "unat (next_env_id s + 1) = Suc (unat (next_env_id s))"
    using assms(2) by (subst unat_add_small) auto
  have "unat (push_bit (1 + LOG2NENV) (next_env_id s + 1) OR e) \<noteq> 0"
    using unat_mkenvid [OF assms(1), of "next_env_id s + 1"] n assms(2) by simp
  then show ?thesis by (metis unat_0)
qed

lemma env_alloc_eq:
  fixes par :: u64
  assumes ep: "env_pool s (e # el)" and pool: "pool_ok s (p # fl)"
    and al: "page_aligned (pg_dir s)" and ne: "page2pa p \<noteq> pg_dir s"
  defines "eid \<equiv> push_bit (1 + LOG2NENV) (next_env_id s + 1) OR e"
  shows "\<exists>q m eq. env_alloc par s = (Inr (0, Some e), env_upd e (\<lambda>x. x\<lparr>env_pgdir := page2pa p,
        env_parent_id := par, env_status := ENV_RUNNABLE, env_runs := 0, env_id := eid,
        env_tf := (env_tf x)\<lparr>tf_sp := USTACKTOP\<rparr>\<rparr>)
      (s\<lparr>page_q := q, pp_ref := (pp_ref s)(p := 1), mem := m, env_q := eq,
         next_env_id := next_env_id s + 1\<rparr>)) \<and>
    lst q () fl \<and> shares m (page2pa p) (mem s) (pg_dir s) \<and> lst eq () el"
proof -
  from env_setup_vm_eq [OF pool al ne, of e] obtain q m where
    v: "env_setup_vm e s = (Inr 0, env_upd e (\<lambda>x. x\<lparr>env_pgdir := page2pa p\<rparr>)
      (s\<lparr>page_q := q, pp_ref := (pp_ref s)(p := 1), mem := m\<rparr>))"
    "lst q () fl" "shares m (page2pa p) (mem s) (pg_dir s)" by blast
  have "lst (env_q s) () (e # el)" using ep by (simp add: env_pool_def)
  from il.rep_pop [OF this] obtain eq where eq: "LIST_FIRST (env_q s) () = Some e"
    "LIST_REMOVE (env_q s) e = Some eq" "lst eq () el" by auto
  have "env_alloc par s = (Inr (0, Some e), env_upd e (\<lambda>x. x\<lparr>env_pgdir := page2pa p,
        env_parent_id := par, env_status := ENV_RUNNABLE, env_runs := 0, env_id := eid,
        env_tf := (env_tf x)\<lparr>tf_sp := USTACKTOP\<rparr>\<rparr>)
      (s\<lparr>page_q := q, pp_ref := (pp_ref s)(p := 1), mem := m, env_q := eq,
         next_env_id := next_env_id s + 1\<rparr>))"
    using v(1) eq(1,2)
    by (simp add: env_alloc_def Let_def mkenvid_def env_upd_def eid_def)
  then show ?thesis using v(2,3) eq(3) by blast
qed

subsection \<open>Initialisation: lemmas\<close>

lemma env_release_fold:
  "env_q (fold env_release is s) = fold (\<lambda>i q. LIST_INSERT_HEAD q () i) is (env_q s)"
  "envs (fold env_release is s) = (\<lambda>e. if e \<in> set is then (envs s e)\<lparr>env_status := ENV_FREE\<rparr> else envs s e)"
  "sched_q (fold env_release is s) = sched_q s" "npage (fold env_release is s) = npage s"
  "mem (fold env_release is s) = mem s" "page_q (fold env_release is s) = page_q s"
  "pp_ref (fold env_release is s) = pp_ref s" "pg_dir (fold env_release is s) = pg_dir s"
  "next_env_id (fold env_release is s) = next_env_id s"
  by (induction "is" arbitrary: s) (auto simp: env_release_def env_upd_def Let_def fun_eq_iff)

lemma env_init_fields:
  "npage (env_init s) = npage s" "mem (env_init s) = mem s" "page_q (env_init s) = page_q s"
  "pp_ref (env_init s) = pp_ref s" "pg_dir (env_init s) = pg_dir s"
  "next_env_id (env_init s) = next_env_id s"
  "envs (env_init s) = (\<lambda>e. if e < NENV then (envs s e)\<lparr>env_status := ENV_FREE\<rparr> else envs s e)"
  by (simp_all add: env_init_def Let_def env_release_fold set_counter cong: if_cong)

lemma env_init_pool: "env_pool (env_init s) (counter 0 NENV)"
proof -
  have "lst (fold (\<lambda>i q. LIST_INSERT_HEAD q () i) (rev (counter 0 NENV)) (LIST_INIT (env_q s) ())) ()
      (rev (rev (counter 0 NENV)) @ [])"
    by (intro il.rep_insert_all) (simp_all add: lst_init distinct_counter)
  then show ?thesis
    by (simp add: env_pool_def env_init_def Let_def env_release_fold set_counter NENV_def)
qed

lemma counter_Cons: "a < b \<Longrightarrow> \<exists>el. counter a b = a # el"
  by (simp add: counter_def word_less_nat_alt upt_conv_Cons)

lemma counter_NENV: "\<exists>el. counter 0 NENV = 0 # el"
  by (rule counter_Cons) (simp add: NENV_def)

subsection \<open>Properties\<close>

text \<open>A small machine with its environments free, and the kernel directory at \<open>0x1000\<close>.\<close>

definition env_state :: kstate where
  "env_state = env_init (small_state\<lparr>pg_dir := 0x1000\<rparr>)"

lemma page_fold_next:
  "next_env_id (fold page_release is s) = next_env_id s"
  "next_env_id (fold page_reserve is s) = next_env_id s"
  by (induction "is" arbitrary: s) (simp_all add: page_release_def page_reserve_def)

lemma env_state:
  "env_pool env_state (counter 0 NENV)" "pool_ok env_state [7, 6, 5, 4, 3, 2]"
  "pt_ok (mem env_state) (pg_dir env_state) [7, 6, 5, 4, 3, 2]" "next_env_id env_state = 0"
  "mem env_state = (\<lambda>_. 0)" "pg_dir env_state = 0x1000"
  using small_vm(1) small_pool env_init_pool [of "small_state\<lparr>pg_dir := 0x1000\<rparr>"]
  by (simp_all add: env_state_def env_init_fields vm_ok_def pool_ok_def)
    (simp add: small_state_def page_init_def Let_def page_fold_next reset_state_def)

text \<open>
  \<open>ids_below s old\<close>: the identifiers \<open>old\<close>, those handed out so far say, were made from values of
  \<open>mkenvid\<close>'s counter up to its present one. It holds of the empty set at the start.
\<close>

definition ids_below :: "kstate \<Rightarrow> u64 set \<Rightarrow> bool" where
  "ids_below s old \<longleftrightarrow> (\<forall>i \<in> old. drop_bit (1 + LOG2NENV) i \<le> next_env_id s)"

lemma drop_mkenvid:
  fixes e n :: u64
  assumes "e < 1024" and "unat n < 2 ^ 53"
  shows "drop_bit (1 + LOG2NENV) (push_bit (1 + LOG2NENV) n OR e) = n"
proof -
  have "unat e < 1024" using assms(1) by (simp add: word_less_nat_alt)
  moreover have "unat (drop_bit 11 x) = unat x div 2048" for x :: u64
    by (simp add: unat_drop_bit_eq drop_bit_eq_div [where 'a = nat])
  ultimately have "unat (drop_bit 11 (push_bit (1 + LOG2NENV) n OR e)) = unat n"
    by (simp only: unat_mkenvid [OF assms])
  moreover have "1 + LOG2NENV = 11" by (simp add: LOG2NENV_def)
  ultimately show ?thesis by (simp only: word_unat_eq_iff)
qed

lemma ids_below_mkenvid:
  assumes "e < 1024" and "unat (next_env_id s) + 1 < 2 ^ 53" and "ids_below s old"
    and "next_env_id s' = next_env_id s + 1"
  shows "push_bit (1 + LOG2NENV) (next_env_id s + 1) OR e \<notin> old \<and>
    ids_below s' (insert (push_bit (1 + LOG2NENV) (next_env_id s + 1) OR e) old)"
proof -
  have n: "unat (next_env_id s + 1) = Suc (unat (next_env_id s))"
    using assms(2) by (subst unat_add_small) auto
  then have d: "drop_bit (1 + LOG2NENV) (push_bit (1 + LOG2NENV) (next_env_id s + 1) OR e) = next_env_id s + 1"
    using assms(1,2) by (intro drop_mkenvid) simp_all
  have lt: "next_env_id s < next_env_id s + 1" using n by (simp add: word_less_nat_alt)
  then have "i \<in> old \<Longrightarrow> drop_bit (1 + LOG2NENV) i < next_env_id s + 1" for i
    using assms(3) by (auto simp: ids_below_def intro: order.strict_trans1)
  then show ?thesis using d assms(4) by (fastforce simp: ids_below_def)
qed

text \<open>C37: \<open>env_alloc\<close> takes the first free environment, with a fresh identifier: one that differs from
  every identifier handed out before, also from those this environment had in its earlier lives,
  and the counter has moved on, so the next one is fresh again. \<open>envid2env\<close> finds the environment
  under it. It is runnable, with a page directory of its own in which every address is
  translated as in the kernel's directory. No other environment changes.\<close>

lemma env_alloc_spec:
  assumes ep: "env_pool s (e # el)" and pool: "pool_ok s (p # fl)"
    and pt: "pt_ok (mem s) (pg_dir s) (p # fl)" and id: "unat (next_env_id s) + 1 < 2 ^ 53"
    and old: "ids_below s old"
  shows "\<exists>s'. env_alloc par s = (Inr (0, Some e), s') \<and> env_pool s' el \<and> pool_ok s' fl \<and>
    env_id (envs s' e) \<notin> old \<and> ids_below s' (insert (env_id (envs s' e)) old) \<and>
    next_env_id s' = next_env_id s + 1 \<and>
    env_status (envs s' e) = ENV_RUNNABLE \<and> env_parent_id (envs s' e) = par \<and>
    tf_sp (env_tf (envs s' e)) = USTACKTOP \<and> env_pgdir (envs s' e) = page2pa p \<and> pp_ref s' p = 1 \<and>
    envid2env (env_id (envs s' e)) False s' = (Inr (0, Some e), s') \<and>
    (\<forall>sl. is_slot sl \<longrightarrow> pt_view (mem s') (env_pgdir (envs s' e)) sl = pt_view (mem s) (pg_dir s) sl) \<and>
    (\<forall>e'. e' \<noteq> e \<longrightarrow> envs s' e' = envs s e')"
proof -
  define eid where "eid = push_bit (1 + LOG2NENV) (next_env_id s + 1) OR e"
  have e: "e < 1024" using ep by (simp add: env_pool_def)
  have al: "page_aligned (pg_dir s)" and tabs: "\<not> is_tab (mem s) (pg_dir s) (page2pa p)"
    using pt by (auto simp: pt_ok_def)
  have "is_tab (mem s) (pg_dir s) (pg_dir s)" by (rule is_tabI [of "[]"]) simp_all
  then have ne: "page2pa p \<noteq> pg_dir s" using tabs by auto
  from env_alloc_eq [OF ep pool al ne, of par, folded eid_def] obtain q m eq where
    a: "env_alloc par s = (Inr (0, Some e), env_upd e (\<lambda>x. x\<lparr>env_pgdir := page2pa p,
        env_parent_id := par, env_status := ENV_RUNNABLE, env_runs := 0, env_id := eid,
        env_tf := (env_tf x)\<lparr>tf_sp := USTACKTOP\<rparr>\<rparr>)
      (s\<lparr>page_q := q, pp_ref := (pp_ref s)(p := 1), mem := m, env_q := eq,
         next_env_id := next_env_id s + 1\<rparr>))" (is "_ = (_, ?s)")
    and l: "lst q () fl" "lst eq () el" and sh: "shares m (page2pa p) (mem s) (pg_dir s)" by blast
  have f: "envs ?s e = (envs s e)\<lparr>env_pgdir := page2pa p, env_parent_id := par,
      env_status := ENV_RUNNABLE, env_runs := 0, env_id := eid,
      env_tf := (env_tf (envs s e))\<lparr>tf_sp := USTACKTOP\<rparr>\<rparr>" by (simp add: env_upd_def)
  have "ENVX eid = e" "eid \<noteq> 0" unfolding eid_def
    by (rule ENVX_mkenvid [OF e], rule mkenvid_nonzero [OF e id])
  then have "envid2env eid False ?s = (Inr (0, Some e), ?s)"
    using f by (simp add: envid2env_def ENV_RUNNABLE_def ENV_FREE_def)
  moreover have "p \<notin> set fl" using pool_distinct [OF pool] by simp
  then have "pool_ok ?s fl" using pool l by (auto simp: pool_ok_def env_upd_def)
  moreover have "pt_view (mem ?s) (page2pa p) sl = pt_view (mem s) (pg_dir s) sl" if "is_slot sl" for sl
    using shares_view [OF sh al tabs that] by (simp add: env_upd_def)
  moreover have nx: "next_env_id ?s = next_env_id s + 1" by (simp add: env_upd_def)
  moreover note ids_below_mkenvid [OF e id old nx, folded eid_def]
  ultimately show ?thesis using a f l ep by (auto simp: env_upd_def env_pool_def simp del: split_paired_All)
qed

text \<open>With the identifiers \<open>0x400\<close> and \<open>7\<close> in the past, the new one is neither.\<close>

lemma env_alloc_spec_witness:
  "\<exists>s'. env_alloc 0 env_state = (Inr (0, Some 0), s') \<and> env_status (envs s' 0) = ENV_RUNNABLE \<and>
    env_pgdir (envs s' 0) = 0x7000 \<and> env_id (envs s' 0) \<notin> {0x400, 7}"
proof -
  from counter_NENV obtain el where el: "counter 0 NENV = 0 # el" by blast
  have "ids_below env_state {0x400, 7}" using env_state(4) by (simp add: ids_below_def LOG2NENV_def)
  from env_alloc_spec [OF env_state(1) [unfolded el] env_state(2,3) _ this, of 0] env_state(4)
  show ?thesis by (auto simp: page2pa_def page2ppn_def push_bit_eq_mult simp del: split_paired_All)
qed

text \<open>When no environment is free, \<open>env_alloc\<close> reports \<open>E_NO_FREE_ENV\<close>; when no page is free the
  kernel panics in \<open>env_setup_vm\<close>: the error return its callers test for is never taken.\<close>

lemma env_alloc_failures:
  assumes "env_pool s el" and "pool_ok s fl" and "el = [] \<or> fl = []"
  shows "if el = []
    then env_alloc par s = (Inr (- E_NO_FREE_ENV, None), kprintf (''Sorry,alloc env failed!'' @ [CHR 0x0A]) [] s)
    else \<exists>s'. env_alloc par s = (Inl Panicked, s')"
proof (cases el)
  case Nil
  then have "LIST_FIRST (env_q s) () = None"
    using assms(1) by (intro il.rep_empty) (simp add: env_pool_def)
  then show ?thesis using Nil by (simp add: env_alloc_def)
next
  case (Cons e el')
  then have "lst (env_q s) () (e # el')" using assms(1) by (simp add: env_pool_def)
  then have "LIST_FIRST (env_q s) () = Some e" by (rule il.rep_pop(1))
  moreover have "page_alloc s = (Inr (- E_NO_MEM, None), s)"
    using assms(2,3) Cons by (intro page_alloc_Nil) simp
  ultimately show ?thesis using Cons
    by (simp add: env_alloc_def env_setup_vm_def kpanic_def err_codes)
qed

lemma env_alloc_failures_witness:
  "\<exists>s'. env_alloc 0 (env_state\<lparr>page_q := no_lists\<rparr>) = (Inl Panicked, s')"
proof -
  from counter_NENV obtain el where el: "counter 0 NENV = 0 # el" by blast
  have "env_pool (env_state\<lparr>page_q := no_lists\<rparr>) (0 # el)"
    using env_state(1) el by (simp add: env_pool_def)
  moreover have "pool_ok (env_state\<lparr>page_q := no_lists\<rparr>) []"
    using env_state(2) by (simp add: pool_ok_def)
  ultimately show ?thesis using env_alloc_failures [of "env_state\<lparr>page_q := no_lists\<rparr>" "0 # el" "[]" 0]
    by simp
qed

text \<open>After \<open>env_init\<close> the free list holds all 1024 environments in the order of the array, each of
  them free, and both scheduling lists are empty.\<close>

lemma env_init_spec:
  "LIST_FOREACH (env_q (env_init s)) () = Some (counter 0 NENV) \<and>
   (\<forall>e. e < NENV \<longrightarrow> env_status (envs (env_init s) e) = ENV_FREE) \<and>
   LIST_FOREACH (sched_q (env_init s)) 0 = Some [] \<and> LIST_FOREACH (sched_q (env_init s)) 1 = Some []"
proof -
  have "lst (sched_q (env_init s)) 0 []" "lst (sched_q (env_init s)) 1 []"
    by (simp_all add: env_init_def Let_def lst_def set_first_def end_ref_def)
  moreover have "lst (env_q (env_init s)) () (counter 0 NENV)"
    using env_init_pool [of s] by (simp add: env_pool_def)
  ultimately show ?thesis by (simp add: foreach_lst env_init_fields)
qed

lemma env_init_spec_witness: "env_status (envs (env_init reset_state) 5) = 0"
  using env_init_spec [of reset_state] by (simp add: NENV_def ENV_FREE_def)

text \<open>C39: identifiers made by \<open>mkenvid\<close> are all different and never zero until its counter has been
  shifted out of the word, and the low bits of each name its environment.\<close>

lemma mkenvid_spec:
  assumes "\<forall>e \<in> set es. e < 1024" and "unat (next_env_id s) + length es < 2 ^ 53"
  shows "distinct (mkenvids es s) \<and> map ENVX (mkenvids es s) = es \<and> 0 \<notin> set (mkenvids es s)"
proof -
  have "map ENVX (mkenvids es s) = es" using assms(1)
  proof (induction es arbitrary: s)
    case (Cons e es)
    then show ?case using ENVX_mkenvid [of e "next_env_id s + 1"] by (simp add: mkenvid_def Let_def)
  qed simp
  moreover have "0 \<notin> set (mkenvids es s)"
    using mkenvids_above [OF assms, of 0] by auto
  ultimately show ?thesis using mkenvids_distinct [OF assms] by blast
qed

lemma mkenvid_spec_witness: "distinct (mkenvids [0, 1, 2] reset_state)"
  using mkenvid_spec [of "[0, 1, 2]" reset_state] by (simp add: reset_state_def)

text \<open>C40: with the permission check, \<open>envid2env\<close> gives a caller access to no environment but itself and
  its children: the environment returned is the current one (for identifier 0), or one that is in
  use under exactly that identifier and is the caller or has the caller as its parent.\<close>

lemma envid2env_safe:
  assumes "envid2env envid True s = (Inr (r, Some e), s')"
  shows "r = 0 \<and> s' = s \<and> (envid = 0 \<and> curenv s = Some e \<or>
    e = ENVX envid \<and> env_id (envs s e) = envid \<and> env_status (envs s e) \<noteq> ENV_FREE \<and>
    (curenv s = Some e \<or> (\<exists>c. curenv s = Some c \<and> env_parent_id (envs s e) = env_id (envs s c))))"
  using assms by (auto simp: envid2env_def Let_def split: if_splits option.splits)

lemma envid2env_safe_witness:
  "envid2env 0 True (reset_state\<lparr>curenv := Some 3\<rparr>) = (Inr (0, Some 3), reset_state\<lparr>curenv := Some 3\<rparr>) \<and>
    curenv (reset_state\<lparr>curenv := Some 3\<rparr>) = Some 3"
  using envid2env_safe [of 0 "reset_state\<lparr>curenv := Some 3\<rparr>" 0 3 "reset_state\<lparr>curenv := Some 3\<rparr>"]
  by (auto simp: envid2env_def)

subsection \<open>Properties of the scheduler\<close>

lemma least_index:
  assumes "P (k :: nat)"
  shows "\<exists>k' \<le> k. P k' \<and> (\<forall>j < k'. \<not> P j)"
  using assms by (intro exI [of _ "LEAST i. P i"]) (auto intro: LeastI Least_le dest: not_less_Least)

definition saved_tf :: "kstate \<Rightarrow> trapframe" where
  "saved_tf s = (timestack_tf s)\<lparr>tf_pc := tf_elr_el1 (timestack_tf s)\<rparr>"

lemma env_run_eq:
  "env_run e s = (Inl Enter_user, snd (env_run e s))"
  "curenv (snd (env_run e s)) = Some e"
  "sched_pos (snd (env_run e s)) = sched_pos s"
  "envs (snd (env_run e s)) x =
     (let y = (if curenv s = Some x then (envs s x)\<lparr>env_tf := saved_tf s\<rparr> else envs s x)
      in if x = e then y\<lparr>env_runs := env_runs y + 1\<rparr> else y)"
  by (auto simp: env_run_def env_upd_def Let_def tlb_invalidate_eq saved_tf_def split: option.split)

lemma runnable_env_run: "runnable (envs (snd (env_run e s))) p = runnable (envs s) p"
  by (simp add: runnable_def env_run_eq(4) Let_def)

text \<open>\<open>sched_yield\<close> runs the first runnable environment after the last position, in cyclic order,
  with its registers as they were saved, after saving those of the environment that was running;
  one more run is counted for the new one.\<close>

lemma sched_yield_round_robin:
  assumes "runnable (envs s) (visit (sched_pos s) k)" and "\<forall>j < k. \<not> runnable (envs s) (visit (sched_pos s) j)"
    and "e = word_of_int (visit (sched_pos s) k)"
  shows "\<exists>s'. sched_yield s = (Inl Enter_user, s') \<and> curenv s' = Some e \<and>
    sched_pos s' = visit (sched_pos s) k \<and>
    (\<forall>c. curenv s = Some c \<longrightarrow> env_tf (envs s' c) = saved_tf s) \<and>
    (curenv s \<noteq> Some e \<longrightarrow> env_tf (envs s' e) = env_tf (envs s e)) \<and>
    env_runs (envs s' e) = env_runs (envs s e) + 1"
proof -
  let ?s = "s\<lparr>sched_pos := visit (sched_pos s) k\<rparr>"
  have "sched_yield s = env_run e ?s"
    using sched_search_found [OF assms(1,2)] assms(3) by (simp add: sched_yield_def)
  then have y: "sched_yield s = (Inl Enter_user, snd (env_run e ?s))" using env_run_eq(1) by metis
  show ?thesis unfolding y
    by (intro exI [of _ "snd (env_run e ?s)"]) (auto simp: env_run_eq(2-4) Let_def saved_tf_def)
qed

definition two_envs :: kstate where
  "two_envs = reset_state\<lparr>curenv := Some 3, sched_pos := 3,
     envs := (\<lambda>e. if e \<in> {3, 5} then reset_env\<lparr>env_status := 1\<rparr> else reset_env)\<rparr>"

lemma sched_yield_round_robin_witness:
  "\<exists>s'. sched_yield two_envs = (Inl Enter_user, s') \<and> curenv s' = Some 5 \<and> sched_pos s' = 5"
proof -
  have v: "visit 3 0 = 4" "visit 3 1 = 5" by (simp_all add: visit_def)
  have r: "sched_pos two_envs = 3" "runnable (envs two_envs) 5" "\<not> runnable (envs two_envs) 4"
    by (simp_all add: two_envs_def runnable_def ENV_RUNNABLE_def reset_env_def)
  have "\<forall>j < (1 :: nat). \<not> runnable (envs two_envs) (visit (sched_pos two_envs) j)" using v r by simp
  then show ?thesis
    using sched_yield_round_robin [of two_envs 1 5] v r by auto
qed

text \<open>\<open>sched_yield\<close> never returns: it enters user mode when some environment is runnable, and
  otherwise loops for ever.\<close>

lemma sched_yield_ends:
  "fst (sched_yield s) = (if \<exists>p. 0 \<le> p \<and> p < 1024 \<and> runnable (envs s) p then Inl Enter_user else Inl Hang)"
proof (cases "sched_search (envs s) (sched_pos s)")
  case (Some p)
  then have "fst (sched_yield s) = Inl Enter_user"
    by (simp add: sched_yield_def) (metis env_run_eq(1) fst_conv)
  then show ?thesis using sched_search_Some [OF Some] by auto
next
  case None
  have "\<not> runnable (envs s) p" if p: "0 \<le> p" "p < 1024" for p
  proof
    assume "runnable (envs s) p"
    then have "\<exists>k. runnable (envs s) (visit (sched_pos s) k)" using visit_all [OF p] by metis
    then obtain k where "runnable (envs s) (visit (sched_pos s) k)"
      "\<forall>j < k. \<not> runnable (envs s) (visit (sched_pos s) j)"
      using least_index [of "\<lambda>k. runnable (envs s) (visit (sched_pos s) k)"] by blast
    from sched_search_found [OF this] None show False by simp
  qed
  then show ?thesis using None by (auto simp: sched_yield_def)
qed

text \<open>Yielding again and again, with nothing else happening in between.\<close>

fun yields :: "nat \<Rightarrow> kstate \<Rightarrow> kstate" where
  "yields 0 s = s"
| "yields (Suc n) s = yields n (snd (sched_yield s))"

definition distance :: "int \<Rightarrow> int \<Rightarrow> nat" where
  "distance pos p = nat ((p - pos - 1) mod 1024)"

lemma visit_distance:
  assumes "0 \<le> p" "p < 1024"
  shows "visit pos (distance pos p) = p"
proof -
  have "visit pos (distance pos p) = (pos + 1 + (p - pos - 1) mod 1024) mod 1024"
    by (simp add: visit_def distance_def)
  also have "\<dots> = p mod 1024" by (simp add: mod_simps)
  finally show ?thesis using assms by simp
qed

lemma distance_visit:
  assumes "k < distance pos p"
  shows "distance (visit pos k) p < distance pos p"
proof -
  have k: "int k < (p - pos - 1) mod 1024" using assms by (simp add: distance_def)
  have "(p - visit pos k - 1) mod 1024 = (p - 1 - (pos + 1 + int k) mod 1024) mod 1024"
    by (simp add: visit_def algebra_simps)
  also have "\<dots> = (p - 1 - (pos + 1 + int k)) mod 1024" by (rule mod_diff_right_eq)
  also have "\<dots> = ((p - pos - 1) - (1 + int k)) mod 1024" by (simp add: algebra_simps)
  also have "\<dots> = ((p - pos - 1) mod 1024 - (1 + int k)) mod 1024" by (rule mod_diff_left_eq [symmetric])
  also have "\<dots> = (p - pos - 1) mod 1024 - (1 + int k)"
    using k pos_mod_bound [of 1024 "p - pos - 1"] by (intro mod_pos_pos_trivial) linarith+
  finally show ?thesis using k by (simp add: distance_def)
qed

lemma yield_progress:
  assumes "0 \<le> p" "p < 1024" "runnable (envs s) p"
  shows "\<exists>s'. snd (sched_yield s) = s' \<and> runnable (envs s') p \<and>
    (curenv s' = Some (word_of_int p) \<or> distance (sched_pos s') p < distance (sched_pos s) p)"
proof -
  let ?v = "visit (sched_pos s)"
  have "runnable (envs s) (?v (distance (sched_pos s) p))" using visit_distance assms by simp
  from least_index [of "\<lambda>k. runnable (envs s) (?v k)", OF this] obtain k
    where k: "runnable (envs s) (?v k)" "\<forall>j < k. \<not> runnable (envs s) (?v j)"
    "k \<le> distance (sched_pos s) p" by blast
  let ?s = "s\<lparr>sched_pos := ?v k\<rparr>"
  have y: "sched_yield s = env_run (word_of_int (?v k)) ?s"
    using sched_search_found [OF k(1,2)] by (simp add: sched_yield_def)
  have "?v k = p \<or> distance (?v k) p < distance (sched_pos s) p"
    using k(3) distance_visit [of k "sched_pos s" p] visit_distance [OF assms(1,2), of "sched_pos s"]
    by (cases "k = distance (sched_pos s) p") auto
  then show ?thesis unfolding y using assms(3) by (auto simp: env_run_eq(2,3) runnable_env_run)
qed

text \<open>C36: no runnable environment starves: while it stays runnable it is running after at most 1024
  yields.\<close>

lemma sched_fair:
  assumes "0 \<le> p" and "p < 1024" and "runnable (envs s) p"
  shows "\<exists>n. 0 < n \<and> n \<le> 1024 \<and> curenv (yields n s) = Some (word_of_int p)"
proof -
  have "\<exists>n \<le> distance (sched_pos s) p. curenv (yields (Suc n) s) = Some (word_of_int p)"
    using assms(3)
  proof (induction "distance (sched_pos s) p" arbitrary: s rule: less_induct)
    case less
    from yield_progress [OF assms(1,2) less.prems] obtain s' where s': "snd (sched_yield s) = s'"
      "runnable (envs s') p"
      "curenv s' = Some (word_of_int p) \<or> distance (sched_pos s') p < distance (sched_pos s) p" by blast
    show ?case
    proof (cases "curenv s' = Some (word_of_int p)")
      case True
      then show ?thesis using s'(1) by (intro exI [of _ 0]) simp
    next
      case False
      then have d: "distance (sched_pos s') p < distance (sched_pos s) p" using s'(3) by simp
      from less.hyps [OF d s'(2)] obtain n where "n \<le> distance (sched_pos s') p"
        "curenv (yields (Suc n) s') = Some (word_of_int p)" by blast
      then show ?thesis using s'(1) d by (intro exI [of _ "Suc n"]) auto
    qed
  qed
  moreover have "distance (sched_pos s) p < 1024" by (simp add: distance_def)
  ultimately show ?thesis by (metis Suc_leI le_imp_less_Suc le_less_trans less_Suc_eq_le zero_less_Suc)
qed

lemma sched_fair_witness: "\<exists>n. 0 < n \<and> n \<le> 1024 \<and> curenv (yields n two_envs) = Some 3"
  using sched_fair [of 3 two_envs]
  by (simp add: two_envs_def runnable_def ENV_RUNNABLE_def reset_env_def)

subsection \<open>Freeing an address space: lemmas\<close>

lemma va_slot_sum:
  assumes "i < 512" "j < 512" "k < (512 :: u64)"
  shows "va_slot (push_bit 30 i + push_bit 21 j + push_bit 12 k) = (i, j, k)"
proof -
  have s: "bit w n \<Longrightarrow> n < 9" if "w < 512" for w :: u64 and n
    using that by (intro bit_small_less [of w 9]) simp_all
  note sm = s [OF assms(1)] s [OF assms(2)] s [OF assms(3)]
  have "push_bit 30 i AND push_bit 21 j = 0"
    by (rule bit_word_eqI) (auto simp: bit_simps dest!: sm)
  then have a: "push_bit 30 i + push_bit 21 j = push_bit 30 i OR push_bit 21 j"
    by (rule disjunctive_add_eq_or)
  have "(push_bit 30 i OR push_bit 21 j) AND push_bit 12 k = 0"
    by (rule bit_word_eqI) (auto simp: bit_simps dest!: sm)
  then have "push_bit 30 i + push_bit 21 j + push_bit 12 k =
      push_bit 30 i OR push_bit 21 j OR push_bit 12 k"
    unfolding a by (simp add: disjunctive_add_eq_or or.assoc)
  moreover have "PUDX (push_bit 30 i OR push_bit 21 j OR push_bit 12 k) = i"
    "PMDX (push_bit 30 i OR push_bit 21 j OR push_bit 12 k) = j"
    "PTEX (push_bit 30 i OR push_bit 21 j OR push_bit 12 k) = k"
    by (rule bit_word_eqI, auto simp: bit_index bit_simps dest: sm)+
  ultimately show ?thesis by (simp add: va_slot_def)
qed

lemma kfor_nop: "(\<And>i. i \<in> set is \<Longrightarrow> f i s = (Inr (), s)) \<Longrightarrow> kfor is f s = (Inr (), s)"
  by (induction "is") simp_all

lemma free_ptes_nop:
  assumes vm: "vm_ok s (env_pgdir (envs s e)) fl" and ij: "i < 512" "j < 512"
    and t: "tab (mem s) (env_pgdir (envs s e)) [i, j] = Some t"
  shows "free_ptes e i j t s = (Inr (), s)"
  unfolding free_ptes_def
proof (rule kfor_nop)
  fix k assume "k \<in> set (counter 0 512)"
  then have k: "k < 512" by (simp add: set_counter)
  let ?va = "push_bit 30 i + push_bit 21 j + push_bit 12 k"
  have va: "va_path ?va = [i, j]" "PTEX ?va = k" "va_slot ?va = (i, j, k)"
    using va_slot_sum [OF ij k] by (auto simp: va_slot_def va_path_def)
  then have nb: "no_block (mem s) (env_pgdir (envs s e)) ?va" using t by (intro no_blockI [of _ _ _ t]) simp
  show "(if load64 (mem s) (entry t k) AND PTE_V = 0
      then page_remove (env_pgdir (envs s e)) ?va s else (Inr (), s)) = (Inr (), s)"
    using page_remove_unmapped [OF vm nb] va t by (simp del: tab.simps)
qed

lemma shares_tab:
  assumes sh: "shares m d m' r" and al: "page_aligned r" and out: "\<not> is_tab m' r d" and q: "is_path q"
  shows "tab m d q = (if q = [] then Some d else tab m' r q)"
proof (cases q)
  case (Cons i q')
  then have i: "i < 512" using q by (simp add: is_path_def)
  have n: "next_tab m d i = next_tab m' r i" using sh i by (simp add: shares_def next_tab_def)
  show ?thesis
  proof (cases "next_tab m' r i")
    case (Some t)
    have "tab m t q' = tab m' t q'"
    proof (rule tab_cong)
      fix q1 j r1 t' assume q1: "q' = q1 @ j # r1" and t': "tab m' t q1 = Some t'"
      have "is_path (i # q1)" "j < 512" using q Cons q1 by (auto simp: is_path_def)
      moreover have "tab m' r (i # q1) = Some t'" using Some t' by simp
      ultimately have "is_tab m' r t'" "page_aligned t'" "j < 512"
        using tab_aligned [OF al] is_tabI by blast+
      then show "load64 m (entry t' j) = load64 m' (entry t' j)"
        using sh out by (auto simp: shares_def)
    qed
    then show ?thesis using Cons Some n by simp
  qed (simp add: Cons n)
qed simp

text \<open>A directory made by \<open>env_setup_vm\<close> is well formed when the kernel's is.\<close>

lemma shares_pt_ok:
  assumes sh: "shares m (page2pa p) m' r" and ok: "pt_ok m' r (p # fl)" and pool: "pool_ok s (p # fl)"
  shows "pt_ok m (page2pa p) fl"
proof -
  have al: "page_aligned r" and inj: "pt_inj m' r" and nt: "\<And>t. is_tab m' r t \<Longrightarrow> t \<noteq> 0"
    and out: "\<not> is_tab m' r (page2pa p)" and ff: "\<And>t. is_tab m' r t \<Longrightarrow> t \<notin> page2pa ` set fl"
    using ok by (auto simp: pt_ok_def)
  note tabs = shares_tab [OF sh al out]
  have it: "is_tab m (page2pa p) t \<Longrightarrow> t = page2pa p \<or> is_tab m' r t" for t
    using tabs by (auto simp: is_tab_def split: if_splits)
  have "pt_inj m (page2pa p)"
    unfolding pt_inj_def
  proof (intro allI impI)
    fix q1 q2 t assume a: "is_path q1" "is_path q2" "tab m (page2pa p) q1 = Some t"
      "tab m (page2pa p) q2 = Some t"
    show "q1 = q2"
      using a tabs [OF a(1)] tabs [OF a(2)] out is_tabI pt_injD [OF inj a(1,2)]
      by (auto split: if_splits)
  qed
  moreover have "page2pa p \<noteq> 0" "page2pa p \<notin> page2pa ` set fl"
    using pool_page [OF pool] pool_distinct [OF pool] page2pa_neq_0 by (auto simp: page2pa_eq_iff)
  moreover from this have "t \<noteq> 0 \<and> t \<notin> page2pa ` set fl" if "is_tab m (page2pa p) t" for t
    using it [OF that] nt [of t] ff [of t] by (elim disjE) simp_all
  ultimately show ?thesis by (simp add: pt_ok_def)
qed

text \<open>A store into a page that is no table of the directory.\<close>

lemma store_other:
  fixes v :: u64
  assumes al: "page_aligned pud" "page_aligned x" and out: "\<not> is_tab m pud x" and i: "i < 512"
  defines "m' \<equiv> store64 m (entry x i) v"
  shows "is_path q \<Longrightarrow> tab m' pud q = tab m pud q" "is_slot sl \<Longrightarrow> pt_view m' pud sl = pt_view m pud sl"
    "pt_ok m pud fl \<Longrightarrow> pt_ok m' pud fl" "is_tab m' pud t = is_tab m pud t"
proof -
  have "load64 m' (entry t c) = load64 m (entry t c)" if "is_tab m pud t" "c < 512" for t c
  proof -
    have "page_aligned t" "t \<noteq> x" using that(1) out tab_aligned [OF al(1)] by (auto simp: is_tab_def)
    then show ?thesis using al(2) i that(2) by (simp add: m'_def ts.get_put_cell)
  qed
  note f = tables_frame [of m pud m', OF this]
  show "is_path q \<Longrightarrow> tab m' pud q = tab m pud q" "is_slot sl \<Longrightarrow> pt_view m' pud sl = pt_view m pud sl"
    "pt_ok m pud fl \<Longrightarrow> pt_ok m' pud fl" "is_tab m' pud t = is_tab m pud t"
    by (simp_all only: f)
qed

lemma shared_remove:
  assumes vm: "vm_ok s pud fl" and k: "page_aligned kdir" "\<not> is_tab (mem s) pud kdir"
    and sh: "load64 (mem s) (entry kdir (PUDX va)) = load64 (mem s) (entry pud (PUDX va))"
    and e: "pt_view (mem s) pud (va_slot va) AND PTE_V \<noteq> 0"
    and d: "droppable s pud (PPN (pt_view (mem s) pud (va_slot va)))"
  shows "\<exists>s'. page_remove pud va s = (Inr (), s') \<and>
    pt_view (mem s) kdir (va_slot va) = pt_view (mem s) pud (va_slot va) \<and>
    pt_view (mem s') kdir (va_slot va) = 0"
proof -
  from mapped_walk [OF vm e] obtain t where t: "tab (mem s) pud (va_path va) = Some t"
    and nb: "no_block (mem s) pud va" by blast
  from page_remove_mapped [OF vm nb e d] obtain s' where s': "page_remove pud va s = (Inr (), s')"
    and ls: "leaf_set pud va 0 (mem s) (mem s')" by blast
  have keep: "load64 (mem s') (entry kdir (PUDX va)) = load64 (mem s) (entry kdir (PUDX va))"
    using ls k by (simp add: leaf_set_def)
  have same: "tab m kdir (va_path va) = tab m pud (va_path va)"
    if "load64 m (entry kdir (PUDX va)) = load64 m (entry pud (PUDX va))" for m
    using that by (simp add: va_path_def next_tab_def)
  have tabs: "tab (mem s') pud q = tab (mem s) pud q" if "is_path q" for q
    using ls that by (simp add: leaf_set_def)
  have n: "next_tab (mem s') pud (PUDX va) = next_tab (mem s) pud (PUDX va)"
    using tabs [of "[PUDX va]"] by simp
  have n': "next_tab (mem s') kdir (PUDX va) = next_tab (mem s) pud (PUDX va)"
    using keep sh by (simp add: next_tab_def)
  have "tab (mem s') kdir (va_path va) = tab (mem s') pud (va_path va)"
    using n n' by (simp add: va_path_def)
  then have "pt_view (mem s') kdir (va_slot va) = pt_view (mem s') pud (va_slot va)"
    by (simp add: pt_view_va)
  also have "\<dots> = 0" using ls by (simp add: leaf_set_def del: split_paired_All)
  finally have "pt_view (mem s') kdir (va_slot va) = 0" .
  moreover have "pt_view (mem s) kdir (va_slot va) = pt_view (mem s) pud (va_slot va)"
    using same [OF sh] by (simp add: pt_view_va)
  ultimately show ?thesis using s' by blast
qed

subsection \<open>Properties of destruction\<close>

text \<open>The loop of \<open>env_free\<close> over a leaf table releases nothing: it calls \<open>page_remove\<close> for the
  entries that are not valid, where it has no effect, so every page the environment had mapped keeps
  its reference and is lost.\<close>

lemma env_free_keeps_pages:
  assumes "vm_ok s (env_pgdir (envs s e)) fl" and "i < 512" and "j < 512"
    and "tab (mem s) (env_pgdir (envs s e)) [i, j] = Some t"
  shows "free_ptes e i j t s = (Inr (), s)"
  by (rule free_ptes_nop [OF assms])

lemma env_free_keeps_pages_witness:
  "free_ptes 7 0 0 0x3000 (demo_state\<lparr>envs := (\<lambda>_. reset_env\<lparr>env_pgdir := 0x1000\<rparr>)\<rparr>) =
    (Inr (), demo_state\<lparr>envs := (\<lambda>_. reset_env\<lparr>env_pgdir := 0x1000\<rparr>)\<rparr>)"
proof -
  let ?s = "demo_state\<lparr>envs := (\<lambda>_. reset_env\<lparr>env_pgdir := 0x1000\<rparr>)\<rparr>"
  have "vm_ok ?s 0x1000 []" using demo_vm(1) by (simp add: vm_ok_def pool_ok_def)
  moreover have "tab (mem demo_state) 0x1000 [0, 0] = Some 0x3000"
  proof -
    have "va_path 0 = [0, 0]" "PTEX 0 = 0" by (simp_all add: va_path_def PUDX_def PMDX_def PTEX_def)
    moreover have "leaf_set 0x1000 0 (page_desc 4 1) demo_tables (store64 demo_tables (entry 0x3000 0) (page_desc 4 1))"
      using leaf_set_store [OF demo_tables(1), of 0 "0x3000"] demo_tables(2) calculation
      by (simp add: page_aligned_def del: tab.simps)
    then have "tab (mem demo_state) 0x1000 [0, 0] = tab demo_tables 0x1000 [0, 0]"
      by (simp add: leaf_set_def demo_state_def is_path_def del: tab.simps)
    ultimately show ?thesis using demo_tables(2) by simp
  qed
  ultimately show ?thesis using env_free_keeps_pages [of ?s 7 "[]" 0 0 "0x3000"]
    by (simp add: reset_env_def del: tab.simps)
qed

text \<open>\<open>page_remove\<close> on an address whose tables an environment shares with the kernel takes the mapping
  out of the kernel's directory too. \<open>env_free\<close> does this with the physical addresses of the
  environment's tables: it unmaps those pages from the kernel's one-to-one mapping.\<close>

lemma page_remove_shared:
  assumes vm: "vm_ok s pud fl" and k: "page_aligned (pg_dir s)" "\<not> is_tab (mem s) pud (pg_dir s)"
    and sh: "load64 (mem s) (entry (pg_dir s) (PUDX va)) = load64 (mem s) (entry pud (PUDX va))"
    and e: "pt_view (mem s) pud (va_slot va) AND PTE_V \<noteq> 0"
    and d: "droppable s pud (PPN (pt_view (mem s) pud (va_slot va)))"
  shows "\<exists>s'. page_remove pud va s = (Inr (), s') \<and>
    pt_view (mem s) (pg_dir s) (va_slot va) = pt_view (mem s) pud (va_slot va) \<and>
    pt_view (mem s') (pg_dir s) (va_slot va) = 0"
  by (rule shared_remove [OF assms])

lemma page_remove_shared_witness:
  "\<exists>s s'. page_remove 0x1000 0 s = (Inr (), s') \<and> pg_dir s = 0x5000 \<and>
    pt_view (mem s) 0x5000 (va_slot 0) = page_desc 4 1 \<and> pt_view (mem s') 0x5000 (va_slot 0) = 0"
proof -
  define m where "m = mem demo_state"
  let ?m = "store64 m (entry 0x5000 0) (load64 m (entry 0x1000 0))"
  let ?s = "demo_state\<lparr>mem := ?m, pg_dir := 0x5000\<rparr>"
  have al: "page_aligned 0x1000" "page_aligned 0x5000" by (simp_all add: page_aligned_def)
  have ls: "leaf_set 0x1000 0 (page_desc 4 1) demo_tables m"
    using leaf_set_store [OF demo_tables(1), of 0 "0x3000" "page_desc 4 1"] demo_tables(2) al
    by (simp add: demo_state_def m_def va_path_def PUDX_def PMDX_def PTEX_def del: tab.simps)
  have out: "\<not> is_tab m 0x1000 0x5000" using leaf_set_tabs(1) [OF ls] demo_tables(3) by simp
  note st = store_other [OF al out, of 0]
  have "vm_ok ?s 0x1000 []" using demo_vm(1) st(3) by (simp add: vm_ok_def pool_ok_def m_def)
  moreover have v: "pt_view ?m 0x1000 (va_slot 0) = page_desc 4 1"
    using st(2) [OF _ is_slot_va] demo_vm(2) by (simp add: m_def)
  moreover have "droppable ?s 0x1000 4" using demo_vm(4) st(4) by (simp add: droppable_def m_def)
  moreover have "PUDX 0 = 0" by (simp add: PUDX_def)
  moreover have "load64 ?m (entry 0x1000 0) = load64 m (entry 0x1000 0)"
    using al by (simp add: ts.get_put_cell)
  ultimately show ?thesis
    using page_remove_shared [of ?s "0x1000" "[]" 0] al out st(4) demo_vm(3)
    by - (rule exI [of _ ?s], simp)
qed

end
