(* ===== verification/Syscalls.thy ===== *)
theory Syscalls
  imports Env_Mgmt
begin

text \<open>
  The system calls of \<^verbatim>\<open>lib/syscall_all.c\<close> and their dispatch. A call made by the environment
  \<open>curenv\<close> finds the caller's registers in \<open>kernel_tf\<close>, which \<^verbatim>\<open>lib/entry.S\<close> has saved on the
  kernel stack. The result is what the function returns; \<open>Enter_user\<close> when it switches to another
  environment instead.
\<close>

subsection \<open>Environments\<close>

definition sys_putchar :: "u64 \<Rightarrow> int kfun" where
  "sys_putchar ch s = (Inr 0, log (Ev_uart (ucast ch)) s)"

definition sys_getenvid :: "u64 kfun" where
  "sys_getenvid s = (case curenv s of
     None \<Rightarrow> (Inl Null_deref, s) | Some c \<Rightarrow> (Inr (env_id (envs s c)), s))"

definition sys_yield :: "unit kfun" where
  "sys_yield s = sched_yield (s\<lparr>timestack_tf := kernel_tf s\<rparr>)"

definition sys_env_destroy :: "u64 \<Rightarrow> int kfun" where
  "sys_env_destroy envid =
     kbind (envid2env envid True) (\<lambda>(r, e) s.
       if r < 0 then (Inr r, s)
       else case (curenv s, e) of
         (Some c, Some e) \<Rightarrow>
           kbind (env_destroy e) (\<lambda>_. kret 0)
             (kprintf (''[%08x] destroying %08x'' @ [CHR 0x0A])
               [VA_num (env_id (envs s c)), VA_num (env_id (envs s e))] s)
       | _ \<Rightarrow> (Inl Null_deref, s))"

definition sys_set_pgfault_handler :: "u64 \<Rightarrow> u64 \<Rightarrow> u64 \<Rightarrow> int kfun" where
  "sys_set_pgfault_handler envid func xstacktop =
     kbind (envid2env envid True) (\<lambda>(r, e) s.
       if r < 0 then
         (Inr (- E_INVAL), kprintf
           (''Sorry,in sys_set_pgfault_handler we can't get env by envid.'' @ [CHR 0x0A]) [] s)
       else case e of
         None \<Rightarrow> (Inl Null_deref, s)
       | Some e \<Rightarrow>
           (let s = env_upd e (\<lambda>x. x\<lparr>env_pgfault_handler := func\<rparr>) s;
                s = env_upd e (\<lambda>x. x\<lparr>env_xstacktop := xstacktop\<rparr>) s
            in (Inr 0, s)))"

definition sys_set_env_status :: "u64 \<Rightarrow> u64 \<Rightarrow> int kfun" where
  "sys_set_env_status envid status s =
     (if status \<noteq> ENV_RUNNABLE \<and> status \<noteq> ENV_NOT_RUNNABLE \<and> status \<noteq> ENV_FREE
      then (Inr (- E_INVAL), kprintf ''set_env_status:wrong status'' [] s)
      else kbind (envid2env envid False) (\<lambda>(r, e) s.
        if r < 0 then (Inr (- E_BAD_ENV), kprintf (''set_status:env is invalid'' @ [CHR 0x0A]) [] s)
        else case e of
          None \<Rightarrow> (Inl Null_deref, s)
        | Some e \<Rightarrow>
            (case (if (status = ENV_NOT_RUNNABLE \<or> status = ENV_FREE) \<and> env_status (envs s e) \<noteq> status
                   then LIST_REMOVE (sched_q s) e
                   else if status = ENV_RUNNABLE
                   then Some (LIST_INSERT_HEAD (sched_q s) (cur_sched s) e)
                   else Some (sched_q s)) of
               None \<Rightarrow> (Inl Null_deref, s)
             | Some q \<Rightarrow> (Inr 0, env_upd e (\<lambda>x. x\<lparr>env_status := status\<rparr>) (s\<lparr>sched_q := q\<rparr>)))) s)"

definition sys_set_trapframe :: "int kfun" where
  "sys_set_trapframe = kpanic ''sys_set_trapframe not implemented'' []"

definition sys_panic :: "unit kfun" where
  "sys_panic = kret ()"

subsection \<open>Memory\<close>

definition sys_mem_alloc :: "u64 \<Rightarrow> u64 \<Rightarrow> u64 \<Rightarrow> int kfun" where
  "sys_mem_alloc envid va perm s =
     (if perm AND PTE_V = 0
      then (Inr (- E_INVAL), kprintf (''sys_mem_alloc:permission denined'' @ [CHR 0x0A]) [] s)
      else kbind page_alloc (\<lambda>(ret, ppage) s.
        if ret < 0
        then (Inr (- E_NO_MEM), kprintf (''sys_mem_alloc:failed to alloc a page'' @ [CHR 0x0A]) [] s)
        else kbind (envid2env envid True) (\<lambda>(ret, env) s.
          if ret < 0
          then (Inr (- E_BAD_ENV),
                kprintf (''sys_mem_alloc:failed to get the target env'' @ [CHR 0x0A]) [] s)
          else case (env, ppage) of
            (Some e, Some p) \<Rightarrow>
              kbind (page_insert (env_pgdir (envs s e)) p va (ucast perm)) (\<lambda>ret s.
                if ret < 0 then (Inr (- E_NO_MEM), kprintf ''sys_mem_alloc:page_insert failed'' [] s)
                else (Inr 0, s)) s
          | _ \<Rightarrow> (Inl Null_deref, s)) s) s)"

definition sys_mem_map :: "u64 \<Rightarrow> u64 \<Rightarrow> u64 \<Rightarrow> u64 \<Rightarrow> u64 \<Rightarrow> int kfun" where
  "sys_mem_map srcid srcva dstid dstva perm =
     (let round_srcva = ROUNDDOWN srcva BY2PG; round_dstva = ROUNDDOWN dstva BY2PG in
      kbind (envid2env srcid True) (\<lambda>(r, srcenv) s.
        if r < 0 then (Inr (- E_BAD_ENV), kprintf (''sys_mem_map:srcenv doesn't exist'' @ [CHR 0x0A]) [] s)
        else kbind (envid2env dstid True) (\<lambda>(r, dstenv) s.
          if r < 0 then (Inr (- E_BAD_ENV), kprintf (''sys_mem_map:dstenv doesn't exist'' @ [CHR 0x0A]) [] s)
          else if perm AND PTE_V = 0
          then (Inr (- E_NO_MEM), kprintf (''sys_mem_map:permission denied'' @ [CHR 0x0A]) [] s)
          else case (srcenv, dstenv) of
            (Some src, Some dst) \<Rightarrow>
              kbind (page_lookup (env_pgdir (envs s src)) round_srcva) (\<lambda>found s.
                case found of
                  None \<Rightarrow> (Inr (- E_NO_MEM),
                    kprintf (''sys_mem_map:page of srcva is invalid'' @ [CHR 0x0A]) [] s)
                | Some (ppage, ppte) \<Rightarrow>
                    kbind (page_insert (env_pgdir (envs s dst)) ppage round_dstva (ucast perm)) (\<lambda>ret s.
                      if ret < 0
                      then (Inr (- E_NO_MEM), kprintf (''sys_mem_map:page_insert denied'' @ [CHR 0x0A]) [] s)
                      else (Inr 0, s)) s) s
          | _ \<Rightarrow> (Inl Null_deref, s)) s))"

definition sys_mem_unmap :: "u64 \<Rightarrow> u64 \<Rightarrow> int kfun" where
  "sys_mem_unmap envid va =
     kbind (envid2env envid True) (\<lambda>(ret, env) s.
       if ret < 0
       then (Inr (- E_BAD_ENV), kprintf (''sys_mem_alloc:failed to get the target env'' @ [CHR 0x0A]) [] s)
       else case env of
         None \<Rightarrow> (Inl Null_deref, s)
       | Some e \<Rightarrow> kbind (page_remove (env_pgdir (envs s e)) va) (\<lambda>_. kret ret) s)"

subsection \<open>Fork\<close>

text \<open>
  \<^verbatim>\<open>bcopy(currentsp, newpage, BY2PG)\<close> reads the caller's stack through the caller's own page
  tables; a page lies in one piece in the physical memory. The processor's walk of the tables:
  two levels of tables, a block or a table at the middle level, and a page.
\<close>

definition mmu_page :: "memory \<Rightarrow> u64 \<Rightarrow> u64 \<Rightarrow> u64 option" where
  "mmu_page m pud va =
     (let e1 = load64 m (entry pud (PUDX va)); e2 = load64 m (entry (PTE_ADDR e1) (PMDX va));
          e3 = load64 m (entry (PTE_ADDR e2) (PTEX va)) in
      if \<not> is_table_desc e1 then None
      else if e2 AND 3 = TYPE_BLOCK then Some (PTE_ADDR e2 AND NOT 0x1FFFFF OR push_bit 12 (PTEX va))
      else if \<not> is_table_desc e2 \<or> \<not> is_table_desc e3 then None
      else Some (PTE_ADDR e3))"

definition copy_user_page :: "u64 \<Rightarrow> u64 \<Rightarrow> unit kfun" where
  "copy_user_page va newpage s =
     (case curenv s of
        None \<Rightarrow> (Inl Null_deref, s)
      | Some c \<Rightarrow>
          (case mmu_page (mem s) (env_pgdir (envs s c)) va of
             None \<Rightarrow> (Inl (Data_abort va), s)
           | Some pa \<Rightarrow>
               (case bcopy (mem s) pa newpage BY2PG of
                  None \<Rightarrow> (Inl Hang, s)
                | Some m \<Rightarrow> (Inr (), s\<lparr>mem := m\<rparr>))))"

text \<open>The loop over the stack pages: a negative result ends it, and \<open>sys_env_alloc\<close>.\<close>

function copy_stack :: "u64 \<Rightarrow> u64 \<Rightarrow> int kfun" where
  "copy_stack e currentsp s =
     (if currentsp < USTACKTOP then
        kbind page_alloc (\<lambda>(r, pp) s.
          if r < 0 then (Inr r, kprintf (''alloc for new stack when fork error'' @ [CHR 0x0A]) [] s)
          else case pp of
            None \<Rightarrow> (Inl Null_deref, s)
          | Some p \<Rightarrow>
              kbind (copy_user_page currentsp (page2pa p)) (\<lambda>_ s.
                kbind (page_insert (env_pgdir (envs s e)) p currentsp (ucast PTE_V))
                  (\<lambda>_. copy_stack e (currentsp + BY2PG)) s) s) s
      else (Inr 0, s))"
  by pat_completeness auto
termination
proof (relation "measure (\<lambda>(e, currentsp, s). unat (0xe0000000 - currentsp))", goal_cases)
  case (2 e currentsp)
  then have "unat currentsp < 0xdfffe000"
    by (simp add: USTACKTOP_def UTOP_def BY2PG_def word_less_nat_alt)
  then show ?case by (simp add: BY2PG_def unat_sub_if' unat_word_ariths)
qed simp

declare copy_stack.simps [simp del]

definition sys_env_alloc :: "int kfun" where
  "sys_env_alloc s =
     (case curenv s of
        None \<Rightarrow> (Inl Null_deref, s)
      | Some c \<Rightarrow>
          kbind (env_alloc (env_id (envs s c))) (\<lambda>(r, e) s.
            if r < 0 then (Inr r, kprintf ''sys_env_alloc:no free env'' [] s)
            else case e of
              None \<Rightarrow> (Inl Null_deref, s)
            | Some e \<Rightarrow>
                (let s = env_upd e (\<lambda>x. x\<lparr>env_status := ENV_NOT_RUNNABLE\<rparr>) s;
                     s = env_upd e (\<lambda>x. x\<lparr>env_tf := kernel_tf s\<rparr>) s;
                     s = env_upd e (\<lambda>x. x\<lparr>env_tf := (env_tf x)\<lparr>tf_x := (tf_x (env_tf x))(0 := 0)\<rparr>\<rparr>) s;
                     s = env_upd e (\<lambda>x. x\<lparr>env_pri := env_pri (envs s c)\<rparr>) s;
                     currentsp = ROUNDDOWN (tf_sp (env_tf (envs s e))) BY2PG
                 in kbind (copy_stack e currentsp) (\<lambda>r s.
                      if r < 0 then (Inr r, s)
                      else (let s = env_upd e (\<lambda>x. x\<lparr>env_status := ENV_RUNNABLE\<rparr>) s in
                            (Inr (sint (ucast (env_id (envs s e)) :: u32)), s))) s)) s)"

subsection \<open>Messages\<close>

definition sys_ipc_recv :: "u64 \<Rightarrow> unit kfun" where
  "sys_ipc_recv dstva s =
     (if UTOP \<le> dstva then (Inr (), kprintf ''ipc_recv:dstva is greater than UTOP'' [] s)
      else case curenv s of
        None \<Rightarrow> (Inl Null_deref, s)
      | Some c \<Rightarrow>
          (let s = env_upd c (\<lambda>x. x\<lparr>env_status := ENV_NOT_RUNNABLE\<rparr>) s;
               s = env_upd c (\<lambda>x. x\<lparr>env_ipc_recving := 1\<rparr>) s;
               s = env_upd c (\<lambda>x. x\<lparr>env_ipc_dstva := dstva\<rparr>) s
           in case LIST_REMOVE (sched_q s) c of
                None \<Rightarrow> (Inl Null_deref, s)
              | Some q \<Rightarrow>
                  (let s = s\<lparr>sched_q := q\<rparr>;
                       s = s\<lparr>remaining_time := 0\<rparr>;
                       s = s\<lparr>timestack_tf := kernel_tf s\<rparr>
                   in sched_yield s)))"

text \<open>What follows the checks of \<open>sys_ipc_can_send\<close>: the message is delivered.\<close>

definition ipc_deliver :: "u64 \<Rightarrow> u64 \<Rightarrow> u64 \<Rightarrow> int kfun" where
  "ipc_deliver e value perm s =
     (let s = env_upd e (\<lambda>x. x\<lparr>env_ipc_value := value\<rparr>) s in
      case curenv s of
        None \<Rightarrow> (Inl Null_deref, s)
      | Some c \<Rightarrow>
          (let s = env_upd e (\<lambda>x. x\<lparr>env_ipc_from := env_id (envs s c)\<rparr>) s;
               s = env_upd e (\<lambda>x. x\<lparr>env_ipc_perm := perm\<rparr>) s;
               s = env_upd e (\<lambda>x. x\<lparr>env_ipc_recving := 0\<rparr>) s;
               s = env_upd e (\<lambda>x. x\<lparr>env_status := ENV_RUNNABLE\<rparr>) s
           in (Inr 0, s\<lparr>sched_q := LIST_INSERT_HEAD (sched_q s) (cur_sched s) e\<rparr>)))"

definition sys_ipc_can_send :: "u64 \<Rightarrow> u64 \<Rightarrow> u64 \<Rightarrow> u64 \<Rightarrow> int kfun" where
  "sys_ipc_can_send envid value srcva perm =
     kbind (envid2env envid False) (\<lambda>(r, e) s.
       if r < 0 then (Inr (- E_BAD_ENV), kprintf (''ipc_send:dstenv is invalid'' @ [CHR 0x0A]) [] s)
       else case e of
         None \<Rightarrow> (Inl Null_deref, s)
       | Some e \<Rightarrow>
           if env_status (envs s e) \<noteq> ENV_NOT_RUNNABLE \<or> env_ipc_recving (envs s e) = 0
           then (Inr (- E_IPC_NOT_RECV), s)
           else if UTOP \<le> srcva
           then (Inr (- E_NO_MEM), kprintf (''ipc_send:virtual address greater than UTOP'' @ [CHR 0x0A]) [] s)
           else if srcva \<noteq> 0 then
             (case curenv s of
                None \<Rightarrow> (Inl Null_deref, s)
              | Some c \<Rightarrow>
                  kbind (page_lookup (env_pgdir (envs s c)) srcva) (\<lambda>found s.
                    case found of
                      None \<Rightarrow> (Inr (- E_NO_MEM), kprintf ''ipc_send:destinated  page not exist'' [] s)
                    | Some (p, ppte) \<Rightarrow>
                        kbind (page_insert (env_pgdir (envs s e)) p (env_ipc_dstva (envs s e)) (ucast perm))
                          (\<lambda>r s. if r < 0
                            then (Inr (- E_NO_MEM), kprintf (''ipc_send:page_insert failed'' @ [CHR 0x0A]) [] s)
                            else ipc_deliver e value perm s) s) s)
           else ipc_deliver e value perm s)"

subsection \<open>Dispatch\<close>

text \<open>
  The result register: an \<^verbatim>\<open>int\<close> is sign-extended; a \<^verbatim>\<open>void\<close> function leaves some value, here 0.
\<close>

definition ret_int :: "int kfun \<Rightarrow> u64 kfun" where
  "ret_int f = kbind f (\<lambda>r. kret (word_of_int r))"

definition ret_void :: "unit kfun \<Rightarrow> u64 kfun" where
  "ret_void f = kbind f (\<lambda>_. kret 0)"

definition sys_call_table :: "(u64 \<Rightarrow> u64 \<Rightarrow> u64 \<Rightarrow> u64 \<Rightarrow> u64 \<Rightarrow> u64 kfun) list" where
  "sys_call_table =
     [\<lambda>a b c d e. ret_int (sys_putchar a),
      \<lambda>a b c d e. sys_getenvid,
      \<lambda>a b c d e. ret_void sys_yield,
      \<lambda>a b c d e. ret_int (sys_env_destroy a),
      \<lambda>a b c d e. ret_int (sys_set_pgfault_handler a b c),
      \<lambda>a b c d e. ret_int (sys_mem_alloc a b c),
      \<lambda>a b c d e. ret_int (sys_mem_map a b c d e),
      \<lambda>a b c d e. ret_int (sys_mem_unmap a b),
      \<lambda>a b c d e. ret_int sys_env_alloc,
      \<lambda>a b c d e. ret_int (sys_set_env_status a b),
      \<lambda>a b c d e. ret_int sys_set_trapframe,
      \<lambda>a b c d e. ret_void sys_panic,
      \<lambda>a b c d e. ret_int (sys_ipc_can_send a b c d),
      \<lambda>a b c d e. ret_void (sys_ipc_recv a)]"

definition invalid_syscall :: "u64 \<Rightarrow> 'a kfun" where
  "invalid_syscall a0 s =
     kpanic ''error:syscall'' [] (kprintf (''invalid syscall :%x'' @ [CHR 0x0A]) [VA_num a0] s)"

text \<open>
  The part of \<^verbatim>\<open>el0_sync\<close> in \<^verbatim>\<open>lib/entry.S\<close> that selects the function: the number is compared
  with 20 as a signed number, and the table is indexed without another check.
\<close>

definition el0_sync :: "u64 \<Rightarrow> u64 \<Rightarrow> u64 \<Rightarrow> u64 \<Rightarrow> u64 \<Rightarrow> u64 \<Rightarrow> u64 kfun" where
  "el0_sync x0 a b c d e s =
     (let n = x0 - 9527 in
      if 20 \<le> sint n then invalid_syscall n s
      else if unat n < length sys_call_table then (sys_call_table ! unat n) a b c d e s
      else (Inl Wild_jump, s))"

subsection \<open>Allocation keeps a directory\<close>

lemma alloc_vm:
  assumes vm: "vm_ok s pud (p # fl)"
  shows "\<exists>s'. page_alloc s = (Inr (0, Some p), s') \<and> vm_ok s' pud fl \<and> rest s' = rest s \<and>
    pp_ref s' = pp_ref s \<and>
    (\<forall>q. is_path q \<longrightarrow> tab (mem s') pud q = tab (mem s) pud q) \<and>
    (\<forall>sl. is_slot sl \<longrightarrow> pt_view (mem s') pud sl = pt_view (mem s) pud sl) \<and>
    (\<forall>va. no_block (mem s) pud va \<longrightarrow> no_block (mem s') pud va) \<and>
    (\<forall>c < 512. load64 (mem s') (entry (page2pa p) c) = 0) \<and> \<not> is_tab (mem s') pud (page2pa p) \<and>
    (\<forall>t c. page_aligned t \<longrightarrow> t \<noteq> page2pa p \<longrightarrow> c < 512 \<longrightarrow>
       load64 (mem s') (entry t c) = load64 (mem s) (entry t c))"
proof -
  note d = vm_okD [OF vm]
  from page_alloc_Cons [OF d(1)] obtain q where q: "page_alloc s = (Inr (0, Some p),
      s\<lparr>page_q := q, mem := zeroed (mem s) (page2pa p) BY2PG\<rparr>)" "lst q () fl" by blast
  let ?m = "zeroed (mem s) (page2pa p) BY2PG"
  have np: "\<not> is_tab (mem s) pud (page2pa p)" using d(5) by auto
  have "load64 ?m (entry t c) = load64 (mem s) (entry t c)" if "is_tab (mem s) pud t" "c < 512" for t c
  proof -
    have "page_aligned t" "t \<noteq> page2pa p" using that(1) np tab_aligned [OF d(2)] by (auto simp: is_tab_def)
    then show ?thesis using that(2) by (simp add: ts.get_clear)
  qed
  note f = tables_frame [of "mem s" pud ?m, OF this]
  have z: "load64 ?m (entry (page2pa p) c) = 0" if "c < 512" for c
    using that by (simp add: ts.get_clear)
  have "p \<notin> set fl" using pool_distinct [OF d(1)] by simp
  then have "vm_ok (s\<lparr>page_q := q, mem := ?m\<rparr>) pud fl"
    using vm q(2) f(4) by (auto simp: vm_ok_def pool_ok_def pt_ok_def)
  then show ?thesis using q(1) f(1,2,3,5) z np
    by (intro exI [of _ "s\<lparr>page_q := q, mem := ?m\<rparr>"]) (simp add: ts.get_clear del: split_paired_All)
qed

lemma perm_and_1: "perm AND PTE_V \<noteq> 0 \<Longrightarrow> perm < 4096 \<Longrightarrow> ucast perm OR 1 = (ucast perm :: u32)"
  for perm :: u64
proof -
  assume "perm AND PTE_V \<noteq> 0"
  then have "odd perm" by (simp add: PTE_V_def and_one_eq odd_iff_mod_2_eq_one)
  then have "odd (ucast perm :: u32)" by (metis bit_0 bit_ucast_iff len_gt_0)
  then show ?thesis by (simp add: or_one_eq)
qed

lemma ucast_perm_small: "perm < 4096 \<Longrightarrow> (ucast perm :: u32) < 4096" for perm :: u64
  by (simp add: word_less_nat_alt unsigned_ucast_eq take_bit_nat_eq_self)

lemma insertsD:
  assumes "inserts pud pp va e s fl r s' fl'"
  shows "vm_ok s' pud fl'" "r = 0 \<or> r = - E_NO_MEM \<and> fl' = []"
    "is_slot sl \<Longrightarrow> pt_view (mem s') pud sl = (if r = 0 \<and> sl = va_slot va then e else pt_view (mem s) pud sl)"
    "\<exists>used. fl = used @ fl' \<and>
      (\<forall>x. pp_ref s' x = (if x \<in> set used then 1 else pp_ref s x) + (if r = 0 \<and> x = pp then 1 else 0)) \<and>
      (\<forall>t. is_tab (mem s') pud t \<longleftrightarrow> is_tab (mem s) pud t \<or> t \<in> page2pa ` set used)"
    "page_aligned t \<Longrightarrow> i < 512 \<Longrightarrow> \<not> is_tab (mem s') pud t \<Longrightarrow>
      load64 (mem s') (entry t i) = load64 (mem s) (entry t i)"
    "r = 0 \<longleftrightarrow> tables_missing (mem s) pud va \<le> length fl" "length fl' = length fl - tables_missing (mem s) pud va"
  using assms unfolding inserts_def by blast+

lemma inserts_fl:
  assumes "inserts pud pp va e s fl r s' fl'"
  shows "fl' = drop (tables_missing (mem s) pud va) fl"
proof -
  from insertsD(4) [OF assms] obtain used where "fl = used @ fl'" by blast
  with insertsD(7) [OF assms] insertsD(2,6) [OF assms] show ?thesis by (cases "r = 0") auto
qed

text \<open>
  A page that is not free, inserted at an address that is not mapped, with the valid bit set: it
  succeeds exactly when the free list has a page for every table that is missing.
\<close>

lemma insert_fresh:
  assumes vm: "vm_ok s pud fl" and nb: "no_block (mem s) pud va" and p: "p \<notin> set fl" "p < npage s"
    and u: "pt_view (mem s) pud (va_slot va) AND PTE_V = 0" and w: "w OR 1 = w" "w < 4096"
  shows "\<exists>r s'. page_insert pud p va w s = (Inr r, s') \<and> rest s' = rest s \<and>
    vm_ok s' pud (drop (tables_missing (mem s) pud va) fl) \<and>
    r = (if tables_missing (mem s) pud va \<le> length fl then 0 else - E_NO_MEM) \<and>
    (\<forall>x. x \<notin> set fl \<longrightarrow> pp_ref s' x = pp_ref s x + (if r = 0 \<and> x = p then 1 else 0)) \<and>
    (\<forall>sl. is_slot sl \<longrightarrow> pt_view (mem s') pud sl =
      (if r = 0 \<and> sl = va_slot va then page_desc p w else pt_view (mem s) pud sl)) \<and>
    (r = 0 \<longrightarrow> (\<forall>va'. va_slot va' = va_slot va \<longrightarrow>
      (\<exists>a. page_lookup pud va' s' = (Inr (Some (p, a)), s') \<and> load64 (mem s') a = page_desc p w))) \<and>
    (\<not> is_tab (mem s) pud (page2pa p) \<longrightarrow>
      (\<forall>c < 512. load64 (mem s') (entry (page2pa p) c) = load64 (mem s) (entry (page2pa p) c)))"
proof -
  have pool: "pool_ok s fl" using vm by (simp add: vm_ok_def)
  from page_insert_unmapped [OF vm nb p(1) u, of w] obtain r s' fl'
    where i: "page_insert pud p va w s = (Inr r, s')" and ins: "inserts pud p va (page_desc p w) s fl r s' fl'"
    unfolding w(1) by blast
  note d = insertsD [OF ins]
  have r: "rest s' = rest s" using rest_lookup_insert(2) [OF i] .
  obtain used where used: "fl = used @ fl'"
      "\<And>x. pp_ref s' x = (if x \<in> set used then 1 else pp_ref s x) + (if r = 0 \<and> x = p then 1 else 0)"
      "\<And>t. is_tab (mem s') pud t \<longleftrightarrow> is_tab (mem s) pud t \<or> t \<in> page2pa ` set used"
    using d(4) by (elim exE conjE) blast
  have p40: "p < 2 ^ 40" using p(2) pool by (auto simp: pool_ok_def)
  have pu: "p \<notin> set used" "page2pa p \<notin> page2pa ` set used"
    using p(1) p40 used(1) pool_page [OF pool] by (auto simp: page2pa_eq_iff)
  have keep: "load64 (mem s') (entry (page2pa p) c) = load64 (mem s) (entry (page2pa p) c)"
    if "\<not> is_tab (mem s) pud (page2pa p)" "c < 512" for c
    using d(5) [OF _ that(2)] that(1) used(3) pu(2) by simp
  have look: "\<exists>a. page_lookup pud va' s' = (Inr (Some (p, a)), s') \<and> load64 (mem s') a = page_desc p w"
    if "r = 0" "va_slot va' = va_slot va" for va'
    using that d(3) [OF is_slot_va, of va'] p(2) w(2) rest_fields(9) [OF r] by (intro lookup_mapped [OF d(1)]) simp_all
  have vm': "vm_ok s' pud (drop (tables_missing (mem s) pud va) fl)" using d(1) inserts_fl [OF ins] by simp
  have res: "r = (if tables_missing (mem s) pud va \<le> length fl then 0 else - E_NO_MEM)"
    using d(2,6) by auto
  have refs: "pp_ref s' x = pp_ref s x + (if r = 0 \<and> x = p then 1 else 0)" if "x \<notin> set fl" for x
    using that used(1,2) by simp
  show ?thesis
    by (rule exI [of _ r], rule exI [of _ s'], intro conjI)
      (use i r vm' res refs d(3) look keep in \<open>blast+\<close>)
qed

subsection \<open>Properties of the memory calls\<close>

text \<open>C38: \<open>sys_mem_alloc\<close> for an environment the caller may touch and a free address succeeds exactly
  when, behind the page itself, the free list has one page for every table the address still needs.
  Then the first free page holds zeros, has exactly one reference and is mapped at the address with
  the permission asked for. Otherwise the result is \<open>E_NO_MEM\<close>, the list is used up, the address is
  as unmapped as before, and the page is lost: it has no reference. In both cases no other address
  of that environment and no other reference count of a page in use changes.\<close>

lemma sys_mem_alloc_spec:
  assumes env: "envid2env envid True s = (Inr (0, Some e), s)" and pud: "pud = env_pgdir (envs s e)"
    and vm: "vm_ok s pud (p # fl)" and nb: "no_block (mem s) pud va"
    and u: "pt_view (mem s) pud (va_slot va) AND PTE_V = 0"
    and perm: "perm AND PTE_V \<noteq> 0" "perm < 4096"
    and k: "k = tables_missing (mem s) pud va"
  shows "\<exists>s'. sys_mem_alloc envid va perm s = (Inr (if k \<le> length fl then 0 else - E_NO_MEM), s') \<and>
    vm_ok s' pud (drop k fl) \<and>
    (if k \<le> length fl
     then pp_ref s' p = 1 \<and> (\<forall>c < 512. load64 (mem s') (entry (page2pa p) c) = 0) \<and>
       (\<exists>a. page_lookup pud va s' = (Inr (Some (p, a)), s') \<and> load64 (mem s') a = page_desc p (ucast perm))
     else pp_ref s' p = 0 \<and> pt_view (mem s') pud (va_slot va) = pt_view (mem s) pud (va_slot va)) \<and>
    (\<forall>x. x \<notin> set (p # fl) \<longrightarrow> pp_ref s' x = pp_ref s x) \<and>
    (\<forall>sl. is_slot sl \<longrightarrow> sl \<noteq> va_slot va \<longrightarrow> pt_view (mem s') pud sl = pt_view (mem s) pud sl)"
proof -
  from alloc_vm [OF vm] obtain s1 where a: "page_alloc s = (Inr (0, Some p), s1)" "vm_ok s1 pud fl"
    "rest s1 = rest s" "pp_ref s1 = pp_ref s"
    "\<And>sl. is_slot sl \<Longrightarrow> pt_view (mem s1) pud sl = pt_view (mem s) pud sl"
    "no_block (mem s1) pud va" "\<forall>c < 512. load64 (mem s1) (entry (page2pa p) c) = 0"
    "\<not> is_tab (mem s1) pud (page2pa p)"
    and tabs: "\<And>q. is_path q \<Longrightarrow> tab (mem s1) pud q = tab (mem s) pud q"
    using nb by blast
  note f = rest_fields [OF a(3)]
  have k1: "tables_missing (mem s1) pud va = k" using tables_missing_cong [OF tabs] k by simp
  have env1: "envid2env envid True s1 = (Inr (0, Some e), s1)"
    using env f(1,4) by (auto simp: envid2env_def Let_def split: if_splits option.splits)
  have pool: "pool_ok s (p # fl)" using vm by (simp add: vm_ok_def)
  have p: "p \<notin> set fl" "p < npage s1" "pp_ref s1 p = 0"
    using pool_distinct [OF pool] pool f(9) a(4) by (auto simp: pool_ok_def)
  have u1: "pt_view (mem s1) pud (va_slot va) AND PTE_V = 0" using u a(5) by simp
  from insert_fresh [OF a(2,6) p(1,2) u1 perm_and_1 [OF perm] ucast_perm_small [OF perm(2)], unfolded k1]
  obtain r s' where i: "page_insert pud p va (ucast perm) s1 = (Inr r, s')"
    and r: "r = (if k \<le> length fl then 0 else - E_NO_MEM)" and vm': "vm_ok s' pud (drop k fl)"
    and ref: "\<And>x. x \<notin> set fl \<Longrightarrow> pp_ref s' x = pp_ref s1 x + (if r = 0 \<and> x = p then 1 else 0)"
    and zero: "\<not> is_tab (mem s1) pud (page2pa p) \<longrightarrow> (\<forall>c < 512.
      load64 (mem s') (entry (page2pa p) c) = load64 (mem s1) (entry (page2pa p) c))"
    and view: "\<And>sl. is_slot sl \<Longrightarrow> pt_view (mem s') pud sl =
      (if r = 0 \<and> sl = va_slot va then page_desc p (ucast perm) else pt_view (mem s1) pud sl)"
    and look: "r = 0 \<longrightarrow> (\<forall>va'. va_slot va' = va_slot va \<longrightarrow> (\<exists>a. page_lookup pud va' s' = (Inr (Some (p, a)), s') \<and>
      load64 (mem s') a = page_desc p (ucast perm)))"
    by (elim exE conjE) blast
  have call: "sys_mem_alloc envid va perm s =
      (if r < 0 then (Inr (- E_NO_MEM), kprintf ''sys_mem_alloc:page_insert failed'' [] s') else (Inr 0, s'))"
    using a(1) env1 i perm(1) f(1) pud by (simp add: sys_mem_alloc_def)
  show ?thesis
  proof (cases "k \<le> length fl")
    case True
    then show ?thesis using call ref p look zero a(4,5,7,8) view vm' r
      by (intro exI [of _ s']) (simp del: split_paired_All pt_view.simps)
  next
    case False
    then have "r < 0" "r \<noteq> 0" using r by (simp_all add: E_NO_MEM_def)
    then show ?thesis using call ref p view a(4,5) vm' False
      by (intro exI [of _ "snd (sys_mem_alloc envid va perm s)"])
        (simp add: kprintf_eq del: split_paired_All pt_view.simps)
  qed
qed

text \<open>The small machine with environment 7 running on the directory at \<open>0x1000\<close>.\<close>

definition run_state :: kstate where
  "run_state = small_state\<lparr>curenv := Some 7,
     envs := (\<lambda>e. if e = 7 then reset_env\<lparr>env_pgdir := 0x1000, env_id := 0x807, env_status := 1\<rparr>
               else reset_env)\<rparr>"

lemma run_state:
  "vm_ok run_state 0x1000 [7, 6, 5, 4, 3, 2]" "env_pgdir (envs run_state 7) = 0x1000"
  "no_block (mem run_state) 0x1000 va" "pt_view (mem run_state) 0x1000 sl = 0"
  "envid2env 0 True run_state = (Inr (0, Some 7), run_state)" "curenv run_state = Some 7"
  "envid2env 9 True run_state = (Inr (- E_BAD_ENV, None), run_state)"
  using small_vm
  by (simp_all add: run_state_def vm_ok_def pool_ok_def envid2env_def reset_env_def ENV_FREE_def
      ENVX_def NENV_def del: pt_view.simps)

lemma sys_mem_alloc_spec_witness:
  "\<exists>s'. sys_mem_alloc 0 0x70000000 1 run_state = (Inr 0, s') \<and> pp_ref s' 7 = 1"
proof -
  have "k \<le> length [6, 5, 4, 3, 2 :: u64]" if "k = tables_missing (mem run_state) 0x1000 0x70000000" for k
    using that by (simp add: tables_missing_def)
  then show ?thesis
    using sys_mem_alloc_spec [OF run_state(5) run_state(2) [symmetric] run_state(1,3), of "0x70000000" 1 _, OF _ _ _ refl]
      run_state(4) by (auto simp: PTE_V_def simp del: split_paired_All)
qed

text \<open>\<open>sys_mem_alloc\<close> takes the page before it looks up the environment; when that fails, the page
  is neither mapped nor free: it is lost.\<close>

lemma sys_mem_alloc_leak:
  assumes bad: "envid2env envid True s = (Inr (r, None), s)" "r < 0" and pool: "pool_ok s (p # fl)"
    and perm: "perm AND PTE_V \<noteq> 0"
  shows "\<exists>s'. sys_mem_alloc envid va perm s = (Inr (- E_BAD_ENV), s') \<and> pool_ok s' fl \<and>
    p \<notin> set fl \<and> pp_ref s' p = 0"
proof -
  from page_alloc_Cons [OF pool] obtain q where q: "page_alloc s = (Inr (0, Some p),
      s\<lparr>page_q := q, mem := zeroed (mem s) (page2pa p) BY2PG\<rparr>)" "lst q () fl" by blast
  let ?s = "s\<lparr>page_q := q, mem := zeroed (mem s) (page2pa p) BY2PG\<rparr>"
  have "envid2env envid True ?s = (Inr (r, None), ?s)"
    using bad by (auto simp: envid2env_def Let_def split: if_splits option.splits)
  moreover have "pool_ok ?s fl" by (rule pool_ok_tl [OF pool q(2)])
  moreover have "pp_ref s p = 0" "p \<notin> set fl" using pool pool_distinct [OF pool] by (auto simp: pool_ok_def)
  ultimately show ?thesis using q(1) perm bad(2)
    by (simp add: sys_mem_alloc_def kprintf_eq pool_ok_def)
qed

lemma sys_mem_alloc_leak_witness:
  "\<exists>s'. sys_mem_alloc 9 0x70000000 1 run_state = (Inr (-2), s') \<and> pool_ok s' [6, 5, 4, 3, 2] \<and> pp_ref s' 7 = 0"
  using sys_mem_alloc_leak [OF run_state(7), of 7 "[6, 5, 4, 3, 2]" 1 "0x70000000"] run_state(1)
  by (auto simp: PTE_V_def E_BAD_ENV_def vm_ok_def)

subsection \<open>Sharing pages\<close>

lemma va_slot_ROUNDDOWN: "va_slot (ROUNDDOWN va BY2PG) = va_slot va"
proof -
  have "(BY2PG - 1 :: u64) = mask 12" by (simp add: BY2PG_def mask_eq_exp_minus_1)
  then have b: "bit (ROUNDDOWN va BY2PG) n \<longleftrightarrow> 12 \<le> n \<and> bit va n" for n
    by (auto simp: ROUNDDOWN_def bit_simps dest: bit_imp_le_length)
  have "PUDX (ROUNDDOWN va BY2PG) = PUDX va" "PMDX (ROUNDDOWN va BY2PG) = PMDX va"
    "PTEX (ROUNDDOWN va BY2PG) = PTEX va"
    by (rule bit_word_eqI, auto simp: bit_index b)+
  then show ?thesis by (simp add: va_slot_def)
qed

lemma va_path_slot: "va_slot va = va_slot va' \<Longrightarrow> va_path va = va_path va' \<and> PTEX va = PTEX va'"
  by (simp add: va_slot_def va_path_def)

lemma no_block_slot: "va_slot va = va_slot va' \<Longrightarrow> no_block m pud va = no_block m pud va'"
  by (simp add: va_slot_def no_block_def split: option.split)

text \<open>C16: \<open>sys_mem_map\<close> of a page mapped at an address of one environment to a free address of another
  succeeds exactly when the free list has one page for every table the target still needs. Then a
  lookup at the target finds the same page, with the permission asked for, and the page has exactly
  one more reference. Otherwise the result is \<open>E_NO_MEM\<close>, the target stays unmapped and the page keeps
  its references. In both cases every other address of the target keeps its translation, and every
  other page in use its references.\<close>

lemma sys_mem_map_spec:
  assumes src: "envid2env srcid True s = (Inr (0, Some es), s)" "ps = env_pgdir (envs s es)"
    and dst: "envid2env dstid True s = (Inr (0, Some ed), s)" "pd = env_pgdir (envs s ed)"
    and vms: "vm_ok s ps fl" and vmd: "vm_ok s pd fl" and nb: "no_block (mem s) pd dstva"
    and e: "e = pt_view (mem s) ps (va_slot srcva)" "e AND PTE_V \<noteq> 0" "PPN e < npage s" "PPN e \<notin> set fl"
    and u: "pt_view (mem s) pd (va_slot dstva) AND PTE_V = 0"
    and perm: "perm AND PTE_V \<noteq> 0" "perm < 4096"
    and k: "k = tables_missing (mem s) pd dstva"
  shows "\<exists>s'. sys_mem_map srcid srcva dstid dstva perm s = (Inr (if k \<le> length fl then 0 else - E_NO_MEM), s') \<and>
    vm_ok s' pd (drop k fl) \<and>
    (if k \<le> length fl
     then pp_ref s' (PPN e) = pp_ref s (PPN e) + 1 \<and>
       (\<exists>a. page_lookup pd dstva s' = (Inr (Some (PPN e, a)), s') \<and> load64 (mem s') a = page_desc (PPN e) (ucast perm))
     else pp_ref s' (PPN e) = pp_ref s (PPN e) \<and>
       pt_view (mem s') pd (va_slot dstva) = pt_view (mem s) pd (va_slot dstva)) \<and>
    (\<forall>x. x \<notin> set fl \<longrightarrow> x \<noteq> PPN e \<longrightarrow> pp_ref s' x = pp_ref s x) \<and>
    (\<forall>sl. is_slot sl \<longrightarrow> sl \<noteq> va_slot dstva \<longrightarrow> pt_view (mem s') pd sl = pt_view (mem s) pd sl)"
proof -
  let ?sv = "ROUNDDOWN srcva BY2PG" and ?dv = "ROUNDDOWN dstva BY2PG"
  have e': "pt_view (mem s) ps (va_slot ?sv) = e" using e(1) by (simp only: va_slot_ROUNDDOWN)
  then have nbs: "no_block (mem s) ps ?sv" using e(2) by (intro view_mapped) simp
  obtain a where l: "page_lookup ps ?sv s = (Inr (Some (PPN e, a)), s)"
    using page_lookup_eq [OF vms nbs, unfolded e'] e(2,3) by (simp add: not_le [symmetric])
  have nbd: "no_block (mem s) pd ?dv" using nb no_block_slot [OF va_slot_ROUNDDOWN] by simp
  have k1: "tables_missing (mem s) pd ?dv = k"
    using va_path_slot [OF va_slot_ROUNDDOWN [of dstva]] va_slot_ROUNDDOWN [of dstva] k
    by (simp add: tables_missing_def va_slot_def)
  have "pt_view (mem s) pd (va_slot ?dv) AND PTE_V = 0" using u by (simp only: va_slot_ROUNDDOWN)
  from insert_fresh [OF vmd nbd e(4,3) this perm_and_1 [OF perm] ucast_perm_small [OF perm(2)],
      unfolded k1 va_slot_ROUNDDOWN]
  obtain r s' where i: "page_insert pd (PPN e) ?dv (ucast perm) s = (Inr r, s')"
    and r: "r = (if k \<le> length fl then 0 else - E_NO_MEM)" and vm': "vm_ok s' pd (drop k fl)"
    and ref: "\<And>x. x \<notin> set fl \<Longrightarrow> pp_ref s' x = pp_ref s x + (if r = 0 \<and> x = PPN e then 1 else 0)"
    and view: "\<And>sl. is_slot sl \<Longrightarrow> pt_view (mem s') pd sl =
      (if r = 0 \<and> sl = va_slot dstva then page_desc (PPN e) (ucast perm) else pt_view (mem s) pd sl)"
    and look: "r = 0 \<longrightarrow> (\<forall>va'. va_slot va' = va_slot dstva \<longrightarrow> (\<exists>a. page_lookup pd va' s' = (Inr (Some (PPN e, a)), s') \<and>
      load64 (mem s') a = page_desc (PPN e) (ucast perm)))"
    by (elim exE conjE) blast
  have call: "sys_mem_map srcid srcva dstid dstva perm s =
      (if r < 0 then (Inr (- E_NO_MEM), kprintf (''sys_mem_map:page_insert denied'' @ [CHR 0x0A]) [] s')
       else (Inr 0, s'))"
    using src dst l i perm(1) by (simp add: sys_mem_map_def Let_def)
  show ?thesis
  proof (cases "k \<le> length fl")
    case True
    then show ?thesis using call ref e(4) look view vm' r
      by (intro exI [of _ s']) (simp del: split_paired_All pt_view.simps)
  next
    case False
    then have "r < 0" "r \<noteq> 0" using r by (simp_all add: E_NO_MEM_def)
    then show ?thesis using call ref e(4) view vm' False
      by (intro exI [of _ "snd (sys_mem_map srcid srcva dstid dstva perm s)"])
        (simp add: kprintf_eq del: split_paired_All pt_view.simps)
  qed
qed

text \<open>The small machine in which environment 7 has page 4 mapped at address 0.\<close>

definition map_state :: kstate where
  "map_state = demo_state\<lparr>curenv := Some 7,
     envs := (\<lambda>e. if e = 7 then reset_env\<lparr>env_pgdir := 0x1000, env_id := 0x807, env_status := 1\<rparr>
               else reset_env)\<rparr>"

lemma map_state:
  "vm_ok map_state 0x1000 []" "mem map_state = mem demo_state" "npage map_state = 8"
  "pp_ref map_state 4 = 1" "env_pgdir (envs map_state 7) = 0x1000" "curenv map_state = Some 7"
  "envid2env 0 True map_state = (Inr (0, Some 7), map_state)"
  using demo_vm(1) by (simp_all add: map_state_def vm_ok_def pool_ok_def)
    (simp_all add: map_state_def demo_state_def envid2env_def)

lemma map_view: "is_slot sl \<Longrightarrow>
    pt_view (mem map_state) 0x1000 sl = (if sl = (0, 0, 0) then page_desc 4 1 else 0)"
proof -
  assume sl: "is_slot sl"
  have al: "page_aligned 0x1000" by (simp add: page_aligned_def)
  have va: "va_path 0 = [0, 0]" "PTEX 0 = 0" "va_slot 0 = (0, 0, 0)"
    by (simp_all add: va_path_def va_slot_def PUDX_def PMDX_def PTEX_def)
  have "leaf_set 0x1000 0 (page_desc 4 1) demo_tables (mem demo_state)"
    using leaf_set_store [OF demo_tables(1) al, of 0 "0x3000" "page_desc 4 1"] demo_tables(2)
    by (simp add: demo_state_def va del: tab.simps)
  then show ?thesis using demo_tables(4) [OF sl] sl
    by (simp add: leaf_set_def map_state(2) va del: split_paired_All pt_view.simps)
qed

lemma sys_mem_map_spec_witness:
  "\<exists>s'. sys_mem_map 0 0x10 0 0x1000 1 map_state = (Inr 0, s') \<and> pp_ref s' 4 = 2"
proof -
  have s: "va_slot 0x10 = (0, 0, 0)" "va_slot 0x1000 = (0, 0, 1)"
    and pa: "va_path 0x1000 = va_path 0x10"
    by (simp_all add: va_slot_def va_path_def PUDX_def PMDX_def PTEX_def)
  have v: "pt_view (mem map_state) 0x1000 (va_slot 0x10) = page_desc 4 1"
    using map_view [OF is_slot_va, of "0x10"] s by simp
  then have "no_block (mem map_state) 0x1000 0x10" by (intro view_mapped) simp
  then have nb: "no_block (mem map_state) 0x1000 0x1000"
    by (simp add: no_block_def PUDX_def PMDX_def split: option.splits)
  from mapped_walk [OF map_state(1), of "0x10"] v obtain t where
    "tab (mem map_state) 0x1000 (va_path 0x10) = Some t" by (metis page_desc_valid)
  then have k: "tables_missing (mem map_state) 0x1000 0x1000 = 0" using pa by (intro tables_missing_0) simp
  show ?thesis
    using sys_mem_map_spec [OF map_state(7) map_state(5) [symmetric] map_state(7) map_state(5) [symmetric]
      map_state(1,1) nb refl, of "0x10" 1 0] map_view [OF is_slot_va, of "0x10"] map_view [OF is_slot_va, of "0x1000"]
      s demo_vm(3) map_state(3,4) page_desc_valid [of 4 1] k
    by (auto simp: PTE_V_def simp del: pt_view.simps split_paired_All)
qed

end
