(* ===== verification/Env_Create.thy ===== *)
theory Env_Create
  imports Syscalls
begin

text \<open>
  New environments: the address space of an environment just made by \<open>env_alloc\<close>, and what
  \<open>env_create_priority\<close> of \<^verbatim>\<open>lib/env.c\<close> and \<open>sys_env_alloc\<close> of \<^verbatim>\<open>lib/syscall_all.c\<close> make of it.
\<close>

subsection \<open>The address space of a new environment\<close>

lemma shares_no_block:
  assumes sh: "shares m d m' r" and al: "page_aligned r" and out: "\<not> is_tab m' r d"
  shows "no_block m d va = no_block m' r va"
proof -
  have e: "load64 m (entry d (PUDX va)) = load64 m' (entry r (PUDX va))"
    using sh by (simp add: shares_def)
  then have n: "next_tab m d (PUDX va) = next_tab m' r (PUDX va)" by (simp add: next_tab_def)
  have "load64 m (entry t (PMDX va)) = load64 m' (entry t (PMDX va))"
    if "next_tab m' r (PUDX va) = Some t" for t
  proof -
    have t: "tab m' r [PUDX va] = Some t" using that by simp
    have "is_tab m' r t" "page_aligned t"
      by (rule is_tabI [OF is_path_va(2) t], rule tab_aligned [OF al t])
    then show ?thesis using sh out by (auto simp: shares_def)
  qed
  then show ?thesis using e n by (auto simp: no_block_def split: option.split)
qed

text \<open>\<open>env_alloc\<close> with the properties of the new page directory.\<close>

lemma env_alloc_vm:
  fixes s :: kstate
  assumes ep: "env_pool s (e # el)" and pool: "pool_ok s (p # fl)"
    and pt: "pt_ok (mem s) (pg_dir s) (p # fl)"
  shows "\<exists>s'. env_alloc par s = (Inr (0, Some e), s') \<and> vm_ok s' (page2pa p) fl \<and>
    envs s' = (envs s)(e := (envs s e)\<lparr>env_pgdir := page2pa p, env_parent_id := par,
      env_status := ENV_RUNNABLE, env_runs := 0,
      env_id := push_bit (1 + LOG2NENV) (next_env_id s + 1) OR e,
      env_tf := (env_tf (envs s e))\<lparr>tf_sp := USTACKTOP\<rparr>\<rparr>) \<and>
    pp_ref s' = (pp_ref s)(p := 1) \<and> env_pool s' el \<and>
    (\<forall>sl. is_slot sl \<longrightarrow> pt_view (mem s') (page2pa p) sl = pt_view (mem s) (pg_dir s) sl) \<and>
    (\<forall>va. no_block (mem s') (page2pa p) va = no_block (mem s) (pg_dir s) va) \<and>
    (\<forall>va. tables_missing (mem s') (page2pa p) va = tables_missing (mem s) (pg_dir s) va) \<and>
    (\<forall>t c. page_aligned t \<longrightarrow> t \<noteq> page2pa p \<longrightarrow> c < 512 \<longrightarrow>
       load64 (mem s') (entry t c) = load64 (mem s) (entry t c)) \<and>
    (\<forall>t. is_tab (mem s') (page2pa p) t \<longrightarrow> t = page2pa p \<or> is_tab (mem s) (pg_dir s) t) \<and>
    sched_q s' = sched_q s \<and> cur_sched s' = cur_sched s \<and> npage s' = npage s \<and> curenv s' = curenv s \<and>
    sched_pos s' = sched_pos s \<and> kernel_tf s' = kernel_tf s"
proof -
  have al: "page_aligned (pg_dir s)" and out: "\<not> is_tab (mem s) (pg_dir s) (page2pa p)"
    using pt by (auto simp: pt_ok_def)
  have "is_tab (mem s) (pg_dir s) (pg_dir s)" by (rule is_tabI [of "[]"]) simp_all
  then have ne: "page2pa p \<noteq> pg_dir s" using out by auto
  from env_alloc_eq [OF ep pool al ne, of par] obtain q m eq where
    a: "env_alloc par s = (Inr (0, Some e), env_upd e (\<lambda>x. x\<lparr>env_pgdir := page2pa p,
        env_parent_id := par, env_status := ENV_RUNNABLE, env_runs := 0,
        env_id := push_bit (1 + LOG2NENV) (next_env_id s + 1) OR e,
        env_tf := (env_tf x)\<lparr>tf_sp := USTACKTOP\<rparr>\<rparr>)
      (s\<lparr>page_q := q, pp_ref := (pp_ref s)(p := 1), mem := m, env_q := eq,
         next_env_id := next_env_id s + 1\<rparr>))" (is "_ = (_, ?s)")
    and l: "lst q () fl" "lst eq () el" and sh: "shares m (page2pa p) (mem s) (pg_dir s)" by blast
  have "p \<notin> set fl" using pool_distinct [OF pool] by simp
  then have "pool_ok ?s fl" using pool l(1) by (auto simp: pool_ok_def env_upd_def)
  then have "vm_ok ?s (page2pa p) fl" using shares_pt_ok [OF sh pt pool] by (simp add: vm_ok_def env_upd_def)
  moreover have "t = page2pa p \<or> is_tab (mem s) (pg_dir s) t" if "is_tab m (page2pa p) t" for t
    using that shares_tab [OF sh al out] by (auto simp: is_tab_def split: if_splits)
  moreover have "load64 m (entry t c) = load64 (mem s) (entry t c)"
    if "page_aligned t" "t \<noteq> page2pa p" "c < 512" for t c
    using sh that by (simp add: shares_def)
  moreover have "tables_missing m (page2pa p) va = tables_missing (mem s) (pg_dir s) va" for va
    using shares_tab [OF sh al out is_path_va(1)] shares_tab [OF sh al out is_path_va(2)]
    by (simp add: tables_missing_def va_path_def del: tab.simps)
  ultimately show ?thesis
    using a l(2) ep shares_view [OF sh al out] shares_no_block [OF sh al out]
    by (intro exI [of _ ?s]) (simp add: env_upd_def env_pool_def del: split_paired_All)
qed

subsection \<open>\<open>env_create\<close>\<close>

lemma kbind_pair [simp]: "m s = (Inr (a, b), s') \<Longrightarrow> kbind m (\<lambda>(x, y). f x y) s = f a b s'"
  by simp

lemma env_create_result:
  fixes s :: kstate
  defines "sv \<equiv> USTACKTOP - BY2PG"
  assumes ep: "env_pool s (e # el)" and pool: "pool_ok s (p # p2 # fl)"
    and pt: "pt_ok (mem s) (pg_dir s) (p # p2 # fl)"
    and nb: "no_block (mem s) (pg_dir s) sv" and u: "pt_view (mem s) (pg_dir s) (va_slot sv) AND PTE_V = 0"
    and l: "lst (sched_q s) (cur_sched s) xs" "e \<notin> set xs"
  shows "\<exists>s'. env_create_priority b sz pri s = (Inr (), s') \<and>
    env_status (envs s' e) = ENV_RUNNABLE \<and> env_pri (envs s' e) = word_of_int pri \<and>
    tf_pc (env_tf (envs s' e)) = b \<and> tf_sp (env_tf (envs s' e)) = USTACKTOP \<and>
    env_id (envs s' e) = push_bit (1 + LOG2NENV) (next_env_id s + 1) OR e \<and>
    LIST_FOREACH (sched_q s') (cur_sched s) = Some (e # xs) \<and> (\<forall>x. x \<noteq> e \<longrightarrow> envs s' x = envs s x) \<and>
    curenv s' = curenv s \<and> sched_pos s' = sched_pos s \<and>
    (\<forall>sl. is_slot sl \<longrightarrow> sl \<noteq> va_slot sv \<longrightarrow>
      pt_view (mem s') (env_pgdir (envs s' e)) sl = pt_view (mem s) (pg_dir s) sl) \<and>
    (if tables_missing (mem s) (pg_dir s) sv \<le> length fl
     then pp_ref s' p2 = 2 \<and> (\<exists>a. page_lookup (env_pgdir (envs s' e)) sv s' = (Inr (Some (p2, a)), s'))
     else pp_ref s' p2 = 1 \<and> pt_view (mem s') (env_pgdir (envs s' e)) (va_slot sv) AND PTE_V = 0)"
proof -
  let ?d = "page2pa p"
  from env_alloc_vm [OF ep pool pt, of 0] obtain s1 where a: "env_alloc 0 s = (Inr (0, Some e), s1)"
    and vm1: "vm_ok s1 ?d (p2 # fl)" and es: "envs s1 = (envs s)(e := (envs s e)\<lparr>env_pgdir := ?d,
      env_parent_id := 0, env_status := ENV_RUNNABLE, env_runs := 0,
      env_id := push_bit (1 + LOG2NENV) (next_env_id s + 1) OR e,
      env_tf := (env_tf (envs s e))\<lparr>tf_sp := USTACKTOP\<rparr>\<rparr>)"
    and v1: "\<And>sl. is_slot sl \<Longrightarrow> pt_view (mem s1) ?d sl = pt_view (mem s) (pg_dir s) sl"
    and nb1: "\<And>va. no_block (mem s1) ?d va = no_block (mem s) (pg_dir s) va"
    and k1: "tables_missing (mem s1) ?d sv = tables_missing (mem s) (pg_dir s) sv"
    and f1: "sched_q s1 = sched_q s" "cur_sched s1 = cur_sched s" "npage s1 = npage s" "curenv s1 = curenv s"
      "sched_pos s1 = sched_pos s" by blast
  have e1: "env_pgdir (envs s1 e) = ?d" "env_status (envs s1 e) = ENV_RUNNABLE"
    "env_id (envs s1 e) = push_bit (1 + LOG2NENV) (next_env_id s + 1) OR e"
    "\<And>x. x \<noteq> e \<Longrightarrow> envs s1 x = envs s x" unfolding es by simp_all
  from alloc_vm [OF vm1] obtain s2 where b: "page_alloc s1 = (Inr (0, Some p2), s2)"
    and vm2: "vm_ok s2 ?d fl" and r2: "rest s2 = rest s1" "pp_ref s2 = pp_ref s1"
    and v2: "\<And>sl. is_slot sl \<Longrightarrow> pt_view (mem s2) ?d sl = pt_view (mem s1) ?d sl" "no_block (mem s2) ?d sv"
    and t2: "\<And>ix. is_path ix \<Longrightarrow> tab (mem s2) ?d ix = tab (mem s1) ?d ix"
    using nb nb1 by blast
  have p1: "pool_ok s1 (p2 # fl)" using vm1 by (simp add: vm_ok_def)
  let ?i = "incref p2 s2"
  have p2: "p2 \<notin> set fl" "pp_ref s2 p2 = 0" "p2 < npage ?i"
    using pool_distinct [OF p1] p1 r2(2) rest_fields(9) [OF r2(1)] by (auto simp: pool_ok_def incref_def)
  have vm3: "vm_ok ?i ?d fl" using vm2 p2(1) by (auto simp: vm_ok_def pool_ok_def incref_def)
  have mi: "mem ?i = mem s2" "rest ?i = rest s1" "pp_ref ?i p2 = 1"
    using p2(2) r2(1) by (auto simp: incref_def rest_def)
  have u3: "pt_view (mem ?i) ?d (va_slot sv) AND PTE_V = 0" and nb3: "no_block (mem ?i) ?d sv"
    using u v1 v2 by (simp_all add: mi(1) del: pt_view.simps)
  have "(1 :: u32) OR 1 = 1" "(1 :: u32) < 4096" by simp_all
  note fresh = insert_fresh [OF vm3 nb3 p2(1,3) u3 this]
  have k3: "tables_missing (mem ?i) ?d sv = tables_missing (mem s) (pg_dir s) sv"
    using tables_missing_cong [OF t2] k1 by (simp add: mi(1))
  from fresh [unfolded k3] obtain r s3 fl' where i: "page_insert ?d p2 sv 1 ?i = (Inr r, s3)" and s3: "vm_ok s3 ?d fl'"
    and res: "r = (if tables_missing (mem s) (pg_dir s) sv \<le> length fl then 0 else - E_NO_MEM)"
    and "rest s3 = rest ?i" "pp_ref s3 p2 = pp_ref ?i p2 + (if r = 0 \<and> p2 = p2 then 1 else 0)"
    and v3: "\<And>sl. is_slot sl \<Longrightarrow> pt_view (mem s3) ?d sl =
      (if r = 0 \<and> sl = va_slot sv then page_desc p2 1 else pt_view (mem ?i) ?d sl)"
    using p2(1) by (elim exE conjE) blast
  then have r3: "rest s3 = rest s1" "pp_ref s3 p2 = (if r = 0 then 2 else 1)" using mi by simp_all
  note f3 = rest_fields [OF r3(1)]
  let ?s = "(env_upd e (\<lambda>x. x\<lparr>env_pri := word_of_int pri, env_tf := (env_tf x)\<lparr>tf_pc := b, tf_sp := USTACKTOP\<rparr>\<rparr>) s3)
    \<lparr>sched_q := LIST_INSERT_HEAD (sched_q s3) (cur_sched s3) e\<rparr>"
  have call: "env_create_priority b sz pri s = (Inr (), ?s)"
    using a b i r2(1) e1(1) rest_fields(1) [OF r2(1)]
    by (simp add: env_create_priority_def sv_def [symmetric] PTE_V_def env_upd_def Let_def incref_def kbind_def)
  have vs: "vm_ok ?s ?d fl'" "p2 < npage ?s" "mem ?s = mem s3"
    using s3 p2(3) f3(9) rest_fields(9) [OF mi(2)] by (simp_all add: vm_ok_def pool_ok_def env_upd_def)
  have look: "\<exists>a. page_lookup ?d sv ?s = (Inr (Some (p2, a)), ?s)" if "r = 0"
    using v3 [OF is_slot_va, of sv] that lookup_mapped [OF vs(1) _ _ vs(2), of sv 1] by (simp add: vs(3)) blast
  have q: "LIST_FOREACH (sched_q ?s) (cur_sched s) = Some (e # xs)"
    using lst_insert_head [OF l] f1 f3 by (simp add: foreach_lst)
  have vw: "is_slot sl \<Longrightarrow> sl \<noteq> va_slot sv \<Longrightarrow> pt_view (mem s3) ?d sl = pt_view (mem s) (pg_dir s) sl" for sl
    using v1 v2(1) v3 mi(1) by simp
  have "- E_NO_MEM \<noteq> 0" by (simp add: E_NO_MEM_def)
  then show ?thesis
    using call q e1 f1(4,5) f3 r3(2) u3 v3 [OF is_slot_va, of sv] vw look res
    by (intro exI [of _ ?s]) (auto simp: env_upd_def simp del: pt_view.simps split: if_splits)
qed

text \<open>C10: \<open>env_create_priority\<close> makes a runnable environment that starts at the given code, first on the
  scheduling list; no other environment changes, and but for its stack the new address space is the
  kernel's. The stack page is mapped, and counted
  twice, when the free list has a page for every table that is missing for it; otherwise it is
  mapped nowhere and still counted once: the function reports neither.\<close>

lemma env_create_spec:
  fixes s :: kstate
  defines "sv \<equiv> USTACKTOP - BY2PG"
  assumes ep: "env_pool s (e # el)" and pool: "pool_ok s (p # p2 # fl)"
    and pt: "pt_ok (mem s) (pg_dir s) (p # p2 # fl)"
    and nb: "no_block (mem s) (pg_dir s) sv" and u: "pt_view (mem s) (pg_dir s) (va_slot sv) AND PTE_V = 0"
    and l: "lst (sched_q s) (cur_sched s) xs" "e \<notin> set xs"
  shows "\<exists>s'. env_create_priority b sz pri s = (Inr (), s') \<and>
    env_status (envs s' e) = ENV_RUNNABLE \<and> env_pri (envs s' e) = word_of_int pri \<and>
    tf_pc (env_tf (envs s' e)) = b \<and> tf_sp (env_tf (envs s' e)) = USTACKTOP \<and>
    env_id (envs s' e) = push_bit (1 + LOG2NENV) (next_env_id s + 1) OR e \<and>
    LIST_FOREACH (sched_q s') (cur_sched s) = Some (e # xs) \<and> (\<forall>x. x \<noteq> e \<longrightarrow> envs s' x = envs s x) \<and>
    (\<forall>sl. is_slot sl \<longrightarrow> sl \<noteq> va_slot sv \<longrightarrow>
      pt_view (mem s') (env_pgdir (envs s' e)) sl = pt_view (mem s) (pg_dir s) sl) \<and>
    (if tables_missing (mem s) (pg_dir s) sv \<le> length fl
     then pp_ref s' p2 = 2 \<and> (\<exists>a. page_lookup (env_pgdir (envs s' e)) sv s' = (Inr (Some (p2, a)), s'))
     else pp_ref s' p2 = 1 \<and> pt_view (mem s') (env_pgdir (envs s' e)) (va_slot sv) AND PTE_V = 0)"
  using env_create_result [OF ep pool pt nb [unfolded sv_def] u [unfolded sv_def] l, of b sz pri]
  unfolding sv_def by (elim exE conjE) (intro exI conjI, assumption+)

text \<open>On the small machine after \<open>env_init\<close>: the premises.\<close>

lemma env_state_create:
  "\<exists>el. env_pool env_state (0 # el)" "no_block (mem env_state) (pg_dir env_state) va"
  "pt_view (mem env_state) (pg_dir env_state) sl = 0"
  "lst (sched_q env_state) (cur_sched env_state) []" "cur_sched env_state = 0"
proof -
  from counter_NENV env_state(1) show "\<exists>el. env_pool env_state (0 # el)" by metis
  show "no_block (mem env_state) (pg_dir env_state) va" "pt_view (mem env_state) (pg_dir env_state) sl = 0"
    using small_vm(2,3) small_pool(3) env_state(5,6) by simp_all
  show "lst (sched_q env_state) (cur_sched env_state) []"
    by (simp add: env_state_def env_init_def Let_def lst_def set_first_def end_ref_def)
  show "cur_sched env_state = 0" by (simp add: env_state_def env_init_def Let_def)
qed

lemma env_create_spec_witness:
  "\<exists>s'. env_create_priority 0x80000 0 1 env_state = (Inr (), s') \<and> env_status (envs s' 0) = ENV_RUNNABLE \<and>
    LIST_FOREACH (sched_q s') 0 = Some [0] \<and> pp_ref s' 6 = 2"
proof -
  have "tables_missing (mem env_state) (pg_dir env_state) (USTACKTOP - BY2PG) \<le> length [5, 4, 3, 2 :: u64]"
    by (simp add: tables_missing_def)
  moreover from env_state_create(1) obtain el where el: "env_pool env_state (0 # el)" by blast
  ultimately show ?thesis
    using env_create_spec [OF el env_state(2,3) env_state_create(2) _ env_state_create(4), of "0x80000" 0 1]
      env_state_create(3,5)
    by (auto simp del: pt_view.simps)
qed

subsection \<open>\<open>fork\<close>\<close>

lemma mmu_page_view:
  assumes "tab m pud (va_path va) = Some t" and "is_table_desc (pt_view m pud (va_slot va))"
  shows "mmu_page m pud va = Some (page2pa (PPN (pt_view m pud (va_slot va))))"
  using assms
  by (auto simp: mmu_page_def Let_def va_path_def va_slot_def next_tab_def is_table_desc_def TYPE_BLOCK_def TYPE_PAGE_def
      PTE_ADDR_PPN split: if_splits)

lemma no_clobber_pages:
  assumes "p < 2 ^ 40" "q < 2 ^ 40" "p \<noteq> q"
  shows "no_clobber (page2pa q) (page2pa p) BY2PG"
proof -
  have b: "unat p < 2 ^ 40" "unat q < 2 ^ 40" "unat p \<noteq> unat q"
    using assms by (simp_all add: word_less_nat_alt word_unat_eq_iff)
  have "unat (page2pa p - page2pa q) = (if 4096 * unat q \<le> 4096 * unat p
      then 4096 * unat p - 4096 * unat q else 4096 * unat p + 2 ^ 64 - 4096 * unat q)"
    by (simp only: unat_sub_if' unat_page2pa [OF assms(1)] unat_page2pa [OF assms(2)] len_of_numeral_defs) simp
  then have "4096 \<le> unat (page2pa p - page2pa q)" using b by (cases "unat q \<le> unat p") auto
  then show ?thesis by (simp add: no_clobber_def BY2PG_def word_le_nat_alt)
qed

text \<open>Copying a user page into a page that is no table leaves every translation alone.\<close>

lemma copy_user_page_vm:
  assumes vm: "vm_ok s d fl" and nt: "\<not> is_tab (mem s) d (page2pa p)" and c: "curenv s = Some c"
    and w: "mmu_page (mem s) (env_pgdir (envs s c)) sv = Some (page2pa q)"
    and pq: "p < 2 ^ 40" "q < 2 ^ 40" "p \<noteq> q"
  shows "\<exists>m. copy_user_page sv (page2pa p) s = (Inr (), s\<lparr>mem := m\<rparr>) \<and> vm_ok (s\<lparr>mem := m\<rparr>) d fl \<and>
    (\<forall>sl. is_slot sl \<longrightarrow> pt_view m d sl = pt_view (mem s) d sl) \<and>
    (\<forall>q. is_path q \<longrightarrow> tab m d q = tab (mem s) d q) \<and>
    (\<forall>va. no_block (mem s) d va \<longrightarrow> no_block m d va) \<and> \<not> is_tab m d (page2pa p) \<and>
    (\<forall>i < 512. load64 m (entry (page2pa p) i) = load64 (mem s) (entry (page2pa q) i))"
proof -
  let ?m = "copied (mem s) (page2pa q) (page2pa p) BY2PG"
  have cp: "load64 ?m (entry t i) = (if page2pa p = t then load64 (mem s) (entry (page2pa q) i) else load64 (mem s) (entry t i))"
    if "page_aligned t" "i < 512" for t i
    using that by (intro load64_copied_page) simp_all
  have "bcopy (mem s) (page2pa q) (page2pa p) BY2PG = Some ?m"
    using unat_page2pa [OF pq(1)] pq(1) no_clobber_pages [OF pq]
    by (intro bcopy_eq) (simp_all add: BY2PG_def word_less_nat_alt)
  then have b: "copy_user_page sv (page2pa p) s = (Inr (), s\<lparr>mem := ?m\<rparr>)"
    using c w by (simp add: copy_user_page_def)
  have "load64 ?m (entry t i) = load64 (mem s) (entry t i)" if "is_tab (mem s) d t" "i < 512" for t i
  proof -
    have "page_aligned t" "t \<noteq> page2pa p"
      using that(1) nt tab_aligned [OF vm_okD(2) [OF vm]] by (auto simp: is_tab_def)
    then show ?thesis using cp that(2) by simp
  qed
  note fr = tables_frame [of "mem s" d ?m, OF this]
  have "vm_ok (s\<lparr>mem := ?m\<rparr>) d fl" using vm fr(4) by (simp add: vm_ok_def pool_ok_def)
  then show ?thesis using b cp nt fr(1,2,3,5)
    by (intro exI [of _ ?m]) (simp del: split_paired_All pt_view.simps)
qed

text \<open>Writing outside a directory's tables, into a page taken from the free list, keeps it.\<close>

lemma directory_kept:
  assumes vm: "vm_ok s b (p # fl)" and m: "\<And>t c. page_aligned t \<Longrightarrow> t \<noteq> page2pa p \<Longrightarrow> c < 512 \<Longrightarrow>
    load64 m (entry t c) = load64 (mem s) (entry t c)"
  shows "is_path ix \<Longrightarrow> tab m b ix = tab (mem s) b ix" "is_slot sl \<Longrightarrow> pt_view m b sl = pt_view (mem s) b sl"
    "pt_ok m b fl"
proof -
  have "load64 m (entry t i) = load64 (mem s) (entry t i)" if "is_tab (mem s) b t" "i < 512" for t i
  proof -
    have "page_aligned t" using that(1) tab_aligned [OF vm_okD(2) [OF vm]] by (auto simp: is_tab_def)
    moreover have "t \<noteq> page2pa p" using that(1) vm_okD(5) [OF vm] by auto
    ultimately show ?thesis using m that(2) by simp
  qed
  note fr = tables_frame [of "mem s" b m, OF this]
  show "is_path ix \<Longrightarrow> tab m b ix = tab (mem s) b ix" "is_slot sl \<Longrightarrow> pt_view m b sl = pt_view (mem s) b sl"
    using fr(1,3) by simp_all
  have "pt_ok (mem s) b fl" using vm by (auto simp: vm_ok_def pt_ok_def)
  then show "pt_ok m b fl" using fr(4) by blast
qed

text \<open>One round of the copying loop, and the last test of its condition.\<close>

lemma copy_stack_once:
  fixes s :: kstate
  assumes vm: "vm_ok s d (p # fl)" and nb: "no_block (mem s) d sv" and u: "pt_view (mem s) d (va_slot sv) AND PTE_V = 0"
    and sv: "sv < USTACKTOP" "USTACKTOP \<le> sv + BY2PG"
    and c: "curenv s = Some c" "env_pgdir (envs s e) = d"
    and src: "vm_ok s (env_pgdir (envs s c)) (p # fl)" "tab (mem s) (env_pgdir (envs s c)) (va_path sv) = Some t"
      "x = pt_view (mem s) (env_pgdir (envs s c)) (va_slot sv)" "is_table_desc x"
    and q: "q = PPN x" "q < npage s" "q \<noteq> p"
  shows "\<exists>s' fl'. copy_stack e sv s = (Inr 0, s') \<and> rest s' = rest s \<and> vm_ok s' d fl' \<and>
    (\<forall>i < 512. load64 (mem s') (entry (page2pa p) i) = load64 (mem s) (entry (page2pa q) i)) \<and>
    (\<forall>sl. is_slot sl \<longrightarrow> sl \<noteq> va_slot sv \<longrightarrow> pt_view (mem s') d sl = pt_view (mem s) d sl) \<and>
    (if tables_missing (mem s) d sv \<le> length fl
     then pp_ref s' p = 1 \<and> pt_view (mem s') d (va_slot sv) = page_desc p 1
     else pp_ref s' p = 0 \<and> pt_view (mem s') d (va_slot sv) AND PTE_V = 0)"
proof -
  let ?b = "env_pgdir (envs s c)"
  from alloc_vm [OF vm] obtain s1 where a: "page_alloc s = (Inr (0, Some p), s1)"
    and vm1: "vm_ok s1 d fl" "rest s1 = rest s" "pp_ref s1 = pp_ref s" "no_block (mem s1) d sv"
      "\<And>sl. is_slot sl \<Longrightarrow> pt_view (mem s1) d sl = pt_view (mem s) d sl" "\<not> is_tab (mem s1) d (page2pa p)"
      "\<And>ix. is_path ix \<Longrightarrow> tab (mem s1) d ix = tab (mem s) d ix"
    and other: "\<And>t i. page_aligned t \<Longrightarrow> t \<noteq> page2pa p \<Longrightarrow> i < 512 \<Longrightarrow>
      load64 (mem s1) (entry t i) = load64 (mem s) (entry t i)"
    using nb by blast
  note f1 = rest_fields [OF vm1(2)]
  from alloc_vm [OF src(1)] a have b1: "tab (mem s1) ?b (va_path sv) = Some t"
    "pt_view (mem s1) ?b (va_slot sv) = x"
    using src(2,3) is_path_va(1) is_slot_va by (auto simp del: pt_view.simps split_paired_All)
  have pool: "pool_ok s (p # fl)" using vm by (simp add: vm_ok_def)
  have p: "p \<notin> set fl" "pp_ref s p = 0" "p < 2 ^ 40" "p < npage s" "npage s \<le> 2 ^ 40"
    using pool_distinct [OF pool] pool pool_page [OF pool] by (auto simp: pool_ok_def)
  then have q': "q < 2 ^ 40" "page2pa q \<noteq> page2pa p" using q by (auto simp: page2pa_eq_iff)
  have "mmu_page (mem s1) (env_pgdir (envs s1 c)) sv = Some (page2pa q)" and c1: "curenv s1 = Some c"
    using mmu_page_view [OF b1(1)] b1(2) src(4) q(1) f1(1,4) c(1) by simp_all
  from copy_user_page_vm [OF vm1(1,6) c1 this(1) p(3) q'(1) q(3) [symmetric]]
  obtain m where b: "copy_user_page sv (page2pa p) s1 = (Inr (), s1\<lparr>mem := m\<rparr>)"
    and vm2: "vm_ok (s1\<lparr>mem := m\<rparr>) d fl"
      "\<And>sl. is_slot sl \<Longrightarrow> pt_view m d sl = pt_view (mem s1) d sl" "\<not> is_tab m d (page2pa p)"
      "\<And>ix. is_path ix \<Longrightarrow> tab m d ix = tab (mem s1) d ix" "no_block (mem s1) d sv \<Longrightarrow> no_block m d sv"
    and cp: "\<forall>i < 512. load64 m (entry (page2pa p) i) = load64 (mem s1) (entry (page2pa q) i)"
    by blast
  have v2: "pt_view m d sl = pt_view (mem s) d sl" if "is_slot sl" for sl using vm2(2) vm1(5) that by simp
  have u2: "pt_view m d (va_slot sv) AND PTE_V = 0" using u v2 [OF is_slot_va] by simp
  have k2: "tables_missing m d sv = tables_missing (mem s) d sv"
    using vm2(4) vm1(7) by (intro tables_missing_cong) simp
  let ?s = "s1\<lparr>mem := m\<rparr>"
  have "no_block (mem ?s) d sv" "p < npage ?s" "pt_view (mem ?s) d (va_slot sv) AND PTE_V = 0"
    "(1 :: u32) OR 1 = 1" "(1 :: u32) < 4096"
    using vm2(5) [OF vm1(4)] u2 p(4) f1(9) by simp_all
  note fresh = insert_fresh [OF vm2(1) this(1) p(1) this(2,3,4,5)]
  have ms: "mem ?s = m" by simp
  from fresh [unfolded ms k2] obtain r s3 where i: "page_insert d p sv 1 ?s = (Inr r, s3)"
    and s3: "vm_ok s3 d (drop (tables_missing (mem s) d sv) fl)" "rest s3 = rest ?s"
      "pp_ref s3 p = pp_ref ?s p + (if r = 0 \<and> p = p then 1 else 0)"
      "\<And>sl. is_slot sl \<Longrightarrow> pt_view (mem s3) d sl = (if r = 0 \<and> sl = va_slot sv then page_desc p 1 else pt_view m d sl)"
      "\<forall>i < 512. load64 (mem s3) (entry (page2pa p) i) = load64 m (entry (page2pa p) i)"
      "r = (if tables_missing (mem s) d sv \<le> length fl then 0 else - E_NO_MEM)"
    using vm2(3) p(1) by (elim exE conjE) blast
  have "copy_stack e sv s = (Inr 0, s3)"
    using sv(1) sv(2) [folded not_less] a b i c f1(1) by (simp add: copy_stack.simps [of e sv] copy_stack.simps [of e "sv + BY2PG"] PTE_V_def)
  moreover have "\<forall>i < 512. load64 (mem s3) (entry (page2pa p) i) = load64 (mem s) (entry (page2pa q) i)"
    using s3(5) cp other q'(2) by simp
  moreover have "rest s3 = rest s" using s3(2) vm1(2) by simp
  moreover have "- E_NO_MEM \<noteq> 0" by (simp add: E_NO_MEM_def)
  ultimately show ?thesis using s3(1,3,4,6) vm1(3) u2 v2 p(2)
    by (intro exI [of _ s3] exI [of _ "drop (tables_missing (mem s) d sv) fl"])
      (cases "tables_missing (mem s) d sv \<le> length fl"; simp del: pt_view.simps split_paired_All)
qed

text \<open>C6: a fork. For a caller with one page of stack, \<open>sys_env_alloc\<close> returns the identifier of a new
  runnable environment with the caller's registers, but 0 for the result of the call, with the
  caller as its parent, and its new page holds a copy of the caller's stack page. When the free list
  has a page for every table that is missing, that page is mapped at the stack of the child, valid,
  with exactly one reference; only otherwise is it mapped nowhere, and no error is reported. Every
  other address of the child is translated as in the kernel's directory. The child is not put on
  the scheduling list.\<close>

lemma fork_spec:
  fixes s :: kstate
  defines "sv \<equiv> ROUNDDOWN (tf_sp (kernel_tf s)) BY2PG"
  assumes ep: "env_pool s (e # el)" and pool: "pool_ok s (p # p2 # fl)"
    and pt: "pt_ok (mem s) (pg_dir s) (p # p2 # fl)"
    and nb: "no_block (mem s) (pg_dir s) sv" and u: "pt_view (mem s) (pg_dir s) (va_slot sv) AND PTE_V = 0"
    and sv: "sv < USTACKTOP" "USTACKTOP \<le> sv + BY2PG"
    and c: "curenv s = Some c" "c \<noteq> e" and vmc: "vm_ok s (env_pgdir (envs s c)) (p # p2 # fl)"
    and x: "x = pt_view (mem s) (env_pgdir (envs s c)) (va_slot sv)" "is_table_desc x"
    and q: "q = PPN x" "q < npage s" "q \<notin> {p, p2}"
  shows "\<exists>s'. sys_env_alloc s = (Inr (sint (ucast (env_id (envs s' e)) :: u32)), s') \<and>
    env_id (envs s' e) = push_bit (1 + LOG2NENV) (next_env_id s + 1) OR e \<and>
    env_status (envs s' e) = ENV_RUNNABLE \<and> env_parent_id (envs s' e) = env_id (envs s c) \<and>
    env_tf (envs s' e) = (kernel_tf s)\<lparr>tf_x := (tf_x (kernel_tf s))(0 := 0)\<rparr> \<and>
    (\<forall>i < 512. load64 (mem s') (entry (page2pa p2) i) = load64 (mem s) (entry (page2pa q) i)) \<and>
    (\<forall>sl. is_slot sl \<longrightarrow> sl \<noteq> va_slot sv \<longrightarrow>
      pt_view (mem s') (env_pgdir (envs s' e)) sl = pt_view (mem s) (pg_dir s) sl) \<and>
    (if tables_missing (mem s) (pg_dir s) sv \<le> length fl
     then pp_ref s' p2 = 1 \<and> (\<exists>a. page_lookup (env_pgdir (envs s' e)) sv s' = (Inr (Some (p2, a)), s') \<and>
       load64 (mem s') a = page_desc p2 1)
     else pp_ref s' p2 = 0 \<and> pt_view (mem s') (env_pgdir (envs s' e)) (va_slot sv) AND PTE_V = 0) \<and>
    sched_q s' = sched_q s"
proof -
  let ?d = "page2pa p" and ?b = "env_pgdir (envs s c)"
  let ?id = "push_bit (1 + LOG2NENV) (next_env_id s + 1) OR e"
  from env_alloc_vm [OF ep pool pt, of "env_id (envs s c)"] obtain s1 where
    a: "env_alloc (env_id (envs s c)) s = (Inr (0, Some e), s1)"
    and vm1: "vm_ok s1 ?d (p2 # fl)" and es: "envs s1 = (envs s)(e := (envs s e)\<lparr>env_pgdir := ?d,
      env_parent_id := env_id (envs s c), env_status := ENV_RUNNABLE, env_runs := 0, env_id := ?id,
      env_tf := (env_tf (envs s e))\<lparr>tf_sp := USTACKTOP\<rparr>\<rparr>)"
    and v1: "\<And>sl. is_slot sl \<Longrightarrow> pt_view (mem s1) ?d sl = pt_view (mem s) (pg_dir s) sl"
    and nb1: "no_block (mem s1) ?d sv = no_block (mem s) (pg_dir s) sv"
    and k1: "tables_missing (mem s1) ?d sv = tables_missing (mem s) (pg_dir s) sv"
    and other: "\<And>t i. page_aligned t \<Longrightarrow> t \<noteq> ?d \<Longrightarrow> i < 512 \<Longrightarrow>
       load64 (mem s1) (entry t i) = load64 (mem s) (entry t i)"
    and f1: "sched_q s1 = sched_q s" "npage s1 = npage s" "curenv s1 = curenv s" "kernel_tf s1 = kernel_tf s"
    by blast
  let ?tf = "(kernel_tf s)\<lparr>tf_x := (tf_x (kernel_tf s))(0 := 0)\<rparr>"
  let ?s = "env_upd e (\<lambda>x. x\<lparr>env_status := ENV_NOT_RUNNABLE, env_tf := ?tf, env_pri := env_pri (envs s c)\<rparr>) s1"
  have m: "mem ?s = mem s1" "npage ?s = npage s" "curenv ?s = Some c" "envs ?s c = envs s c"
    "sched_q ?s = sched_q s" "env_pgdir (envs ?s e) = ?d"
    using c f1 es by (simp_all add: env_upd_def)
  note kept = directory_kept [OF vmc other, simplified]
  have vmd: "vm_ok ?s ?d (p2 # fl)" using vm1 by (simp add: vm_ok_def pool_ok_def env_upd_def)
  have vmb: "vm_ok ?s (env_pgdir (envs ?s c)) (p2 # fl)" using vmd m kept(3) by (simp add: vm_ok_def)
  have "x AND PTE_V \<noteq> 0" using x(2) by (rule table_desc_valid)
  then obtain t where t: "tab (mem s) ?b (va_path sv) = Some t"
    using mapped_walk [OF vmc, of sv] x(1) by blast
  have nbs: "no_block (mem ?s) ?d sv" "pt_view (mem ?s) ?d (va_slot sv) AND PTE_V = 0"
    using nb nb1 u v1 m(1) by (simp_all del: pt_view.simps)
  have tb: "tab (mem ?s) (env_pgdir (envs ?s c)) (va_path sv) = Some t"
    "x = pt_view (mem ?s) (env_pgdir (envs ?s c)) (va_slot sv)"
    using t x(1) kept(1) [of "va_path sv"] kept(2) [of "va_slot sv"] m by (simp_all del: pt_view.simps)
  have q': "q < npage ?s" "q \<noteq> p2" using q m by auto
  from copy_stack_once [OF vmd nbs sv m(3,6) vmb tb x(2) q(1) q'] obtain s2 fl' where
    cs: "copy_stack e sv ?s = (Inr 0, s2)" "rest s2 = rest ?s" "vm_ok s2 ?d fl'"
    and cp: "\<forall>i < 512. load64 (mem s2) (entry (page2pa p2) i) = load64 (mem ?s) (entry (page2pa q) i)"
    and v2: "\<And>sl. is_slot sl \<Longrightarrow> sl \<noteq> va_slot sv \<Longrightarrow> pt_view (mem s2) ?d sl = pt_view (mem ?s) ?d sl"
    and st: "if tables_missing (mem ?s) ?d sv \<le> length fl
     then pp_ref s2 p2 = 1 \<and> pt_view (mem s2) ?d (va_slot sv) = page_desc p2 1
     else pp_ref s2 p2 = 0 \<and> pt_view (mem s2) ?d (va_slot sv) AND PTE_V = 0" by blast
  have vw: "pt_view (mem s2) ?d sl = pt_view (mem s) (pg_dir s) sl" if "is_slot sl" "sl \<noteq> va_slot sv" for sl
    using v2 [OF that] v1 [OF that(1)] m(1) by (simp del: pt_view.simps)
  note f2 = rest_fields [OF cs(2)]
  let ?r = "env_upd e (\<lambda>x. x\<lparr>env_status := ENV_RUNNABLE\<rparr>) s2"
  have "p < 2 ^ 40" "q < 2 ^ 40" using pool_page [OF pool, of p] pool q(2) by (auto simp: pool_ok_def)
  then have "page2pa q \<noteq> ?d" using q(3) by (auto simp: page2pa_eq_iff)
  then have cp': "\<forall>i < 512. load64 (mem ?r) (entry (page2pa p2) i) = load64 (mem s) (entry (page2pa q) i)"
    using cp other m(1) by (simp add: env_upd_def)
  have r: "mem ?r = mem s2" "pp_ref ?r = pp_ref s2" "sched_q ?r = sched_q s" "vm_ok ?r ?d fl'" "p2 < npage ?r"
    using f2 m cs(3) pool by (simp_all add: env_upd_def vm_ok_def pool_ok_def)
  have look: "\<exists>a. page_lookup ?d sv ?r = (Inr (Some (p2, a)), ?r) \<and> load64 (mem ?r) a = page_desc p2 1"
    if "pt_view (mem s2) ?d (va_slot sv) = page_desc p2 1"
    using lookup_mapped [OF r(4) that [folded r(1)] _ r(5)] by auto
  have er: "envs ?r e = (envs s e)\<lparr>env_pgdir := ?d, env_parent_id := env_id (envs s c),
      env_status := ENV_RUNNABLE, env_runs := 0, env_id := ?id, env_tf := ?tf, env_pri := env_pri (envs s c)\<rparr>"
    using f2(1) es by (simp add: env_upd_def)
  have "sys_env_alloc s = (Inr (sint (ucast (env_id (envs ?r e)) :: u32)), ?r)"
    using a c cs(1) f1 sv_def es by (simp add: sys_env_alloc_def env_upd_def Let_def)
  moreover have "tables_missing (mem ?s) ?d sv = tables_missing (mem s) (pg_dir s) sv" using k1 m(1) by simp
  ultimately show ?thesis
    using er cp' st look r vw by (intro exI [of _ ?r]) (simp del: pt_view.simps split_paired_All split: if_splits)
qed

text \<open>
  A machine on which environment 7 forks: its directory at \<open>0x1000\<close> maps its stack page to page 4,
  the kernel's directory at \<open>0x5000\<close> is empty, and environment 8 and the pages 9 to 6 are free.
\<close>

definition fork_state :: kstate where
  "fork_state = reset_state\<lparr>npage := 10, pp_ref := (\<lambda>p. if p \<le> 5 then 1 else 0),
     mem := store64 (two_tables 3 255) (entry 0x3000 0x1fd) (page_desc 4 1), pg_dir := 0x5000,
     page_q := LIST_INSERT_HEAD (LIST_INSERT_HEAD (LIST_INSERT_HEAD (LIST_INSERT_HEAD no_lists () 6) () 7) () 8) () 9,
     env_q := LIST_INSERT_HEAD no_lists () 8, curenv := Some 7,
     kernel_tf := reset_tf\<lparr>tf_sp := 0xdfffd010\<rparr>,
     envs := (\<lambda>e. if e = 7 then reset_env\<lparr>env_pgdir := 0x1000, env_id := 0x807, env_status := 1\<rparr>
               else reset_env)\<rparr>"

lemma fork_sv: "ROUNDDOWN 0xdfffd010 BY2PG = 0xdfffd000" "va_slot 0xdfffd000 = (3, 255, 0x1fd)"
  "va_path 0xdfffd000 = [3, 255]" "PTEX 0xdfffd000 = 0x1fd"
  by (simp_all add: ROUNDDOWN_def BY2PG_def va_slot_def va_path_def PUDX_def PMDX_def PTEX_def)

lemma fork_mem:
  "pt_ok (mem fork_state) 0x1000 [9, 8, 7, 6]" "pt_ok (mem fork_state) 0x5000 [9, 8, 7, 6]"
  "pt_view (mem fork_state) 0x1000 (va_slot 0xdfffd000) = page_desc 4 1"
  "no_block (mem fork_state) 0x5000 0xdfffd000" "pt_view (mem fork_state) 0x5000 (va_slot 0xdfffd000) = 0"
proof -
  have al: "page_aligned 0x1000" "page_aligned 0x3000" "page_aligned 0x5000" by (simp_all add: page_aligned_def)
  have ij: "3 < (512 :: u64)" "255 < (512 :: u64)" by simp_all
  note tt = two_tables [OF ij]
  let ?m = "store64 (two_tables 3 255) (entry 0x3000 0x1fd) (page_desc 4 1)"
  have m: "mem fork_state = ?m" by (simp add: fork_state_def)
  have pg: "page2pa 9 = 0x9000" "page2pa 8 = 0x8000" "page2pa 7 = 0x7000" "page2pa 6 = 0x6000" by (simp_all add: page2pa_def page2ppn_def push_bit_eq_mult)
  have ls: "leaf_set 0x1000 0xdfffd000 (page_desc 4 1) (two_tables 3 255) ?m"
    using leaf_set_store [OF tt(1) al(1), of "0xdfffd000" "0x3000" "page_desc 4 1"] tt(2)
    by (simp add: fork_sv del: tab.simps)
  have "pt_ok (two_tables 3 255) 0x1000 [9, 8, 7, 6]" using al(1) tt(1,3) pg by (auto simp: pt_ok_def)
  then show "pt_ok (mem fork_state) 0x1000 [9, 8, 7, 6]" using leaf_set_tabs(3) [OF ls] m by simp
  show "pt_view (mem fork_state) 0x1000 (va_slot 0xdfffd000) = page_desc 4 1"
    using ls m by (simp add: leaf_set_def del: split_paired_All pt_view.simps)
  have z: "load64 ?m (entry 0x5000 c) = 0" if "c < 512" for c
    using al that tt(5) by (simp add: ts.get_put_cell)
  then have nt: "next_tab ?m 0x5000 c = None" if "c < 512" for c using that by (simp add: next_tab_def)
  have tb: "tab ?m 0x5000 q = (if q = [] then Some 0x5000 else None)" if "is_path q" for q
    using that nt by (cases q) (simp_all add: is_path_def)
  then have it: "is_tab ?m 0x5000 t \<longleftrightarrow> t = 0x5000" for t
    by (auto simp: is_tab_def intro!: exI [of _ "[]"] split: if_splits)
  show "pt_ok (mem fork_state) 0x5000 [9, 8, 7, 6]"
    using al(3) it pg tb unfolding m by (auto simp: pt_ok_def pt_inj_def split: if_splits)
  show "no_block (mem fork_state) 0x5000 0xdfffd000" "pt_view (mem fork_state) 0x5000 (va_slot 0xdfffd000) = 0"
    unfolding m using z nt by (simp_all add: no_block_def ok_entry_def fork_sv(2))
qed

lemma fork_spec_witness:
  "\<exists>s'. sys_env_alloc fork_state = (Inr 0x808, s') \<and> env_parent_id (envs s' 8) = 0x807 \<and>
    tf_sp (env_tf (envs s' 8)) = 0xdfffd010 \<and> pp_ref s' 8 = 1"
proof -
  have q: "lst (page_q fork_state) () [9, 8, 7, 6]" "lst (env_q fork_state) () [8]"
    using lst_insert_head [OF lst_insert_head [OF lst_insert_head [OF lst_insert_head [OF
        lst_no_lists [of "()"], of "6 :: u64"], of 7], of 8], of 9]
      lst_insert_head [OF lst_no_lists [of "()"], of "8 :: u64"] by (simp_all add: fork_state_def)
  have ep: "env_pool fork_state [8]" using q(2) by (simp add: env_pool_def)
  have pool: "pool_ok fork_state [9, 8, 7, 6]" using q(1) by (simp add: pool_ok_def) (simp add: fork_state_def)
  have f: "pg_dir fork_state = 0x5000" "env_pgdir (envs fork_state 7) = 0x1000" "curenv fork_state = Some 7"
    "tf_sp (kernel_tf fork_state) = 0xdfffd010" "npage fork_state = 10" "next_env_id fork_state = 0"
    "env_id (envs fork_state 7) = 0x807"
    by (simp_all add: fork_state_def reset_state_def)
  have v: "is_table_desc (page_desc 4 1)" by (simp add: page_desc_eq is_table_desc_def or_and_low TYPE_PAGE_def)
  have st: "(0xdfffd000 :: u64) < USTACKTOP" "USTACKTOP \<le> (0xdfffd000 :: u64) + BY2PG"
    by (simp_all add: USTACKTOP_def UTOP_def BY2PG_def)
  have x: "PPN (page_desc 4 1) = 4" by (rule PPN_page_desc) simp_all
  have vm: "vm_ok fork_state 0x1000 [9, 8, 7, 6]" using fork_mem(1) pool by (simp add: vm_ok_def)
  have u: "pt_view (mem fork_state) 0x5000 (va_slot 0xdfffd000) AND PTE_V = 0" using fork_mem(5) by simp
  from fork_spec [OF ep pool, of 7 "page_desc 4 1" 4, unfolded f fork_sv(1),
      OF fork_mem(2,4) u st refl _ vm fork_mem(3) [symmetric] v x [symmetric]]
  obtain s' where s': "sys_env_alloc fork_state = (Inr (sint (ucast (env_id (envs s' 8)) :: u32)), s')"
    "env_id (envs s' 8) = push_bit (1 + LOG2NENV) (0 + 1) OR 8" "env_parent_id (envs s' 8) = 0x807"
    "env_tf (envs s' 8) = (kernel_tf fork_state)\<lparr>tf_x := (tf_x (kernel_tf fork_state))(0 := 0)\<rparr>"
    "tables_missing (mem fork_state) 0x5000 0xdfffd000 \<le> 2 \<longrightarrow> pp_ref s' 8 = 1"
    by (auto simp del: pt_view.simps)
  have "env_id (envs s' 8) = 0x808" unfolding s'(2) by (simp add: LOG2NENV_def)
  moreover have "tables_missing (mem fork_state) 0x5000 0xdfffd000 \<le> 2" by (simp add: tables_missing_def)
  ultimately show ?thesis using s' f(4) by (intro exI [of _ s']) simp
qed

end
