(* ===== verification/Boot.thy ===== *)
theory Boot
  imports Env_Create
begin

text \<open>
  Boot: the first page tables of \<^verbatim>\<open>init/mmu.c\<close>, and the allocator and the mappings \<^verbatim>\<open>mm/pmap.c\<close>
  sets up before its page lists exist. The linker's symbols \<^verbatim>\<open>_end\<close> and \<^verbatim>\<open>_data\<close> are arguments;
  \<^verbatim>\<open>_pg_dir\<close> is the field \<open>pg_dir\<close>.
\<close>

subsection \<open>\<open>boot_mmu_setup\<close>\<close>

text \<open>A store of \<open>v\<close> at entry \<open>i\<close> of a table.\<close>

definition put_entry :: "u64 \<Rightarrow> u64 \<Rightarrow> u64 \<Rightarrow> kstate \<Rightarrow> kstate" where
  "put_entry tbl i v s = s\<lparr>mem := store64 (mem s) (entry tbl i) v\<rparr>"

text \<open>\<open>*entry = freemem | ...; freemem += BY2PG\<close>\<close>

definition boot_table :: "u64 \<Rightarrow> u64 \<Rightarrow> kstate \<Rightarrow> kstate" where
  "boot_table tbl i s =
     (let s = put_entry tbl i (freemem s OR TYPE_PAGE OR PTE_AF OR PTE_USER OR PTE_ISH OR PTE_NORMAL) s
      in s\<lparr>freemem := freemem s + BY2PG\<rparr>)"

definition boot_leaf :: "u64 \<Rightarrow> u64 \<Rightarrow> u64 \<Rightarrow> u64 \<Rightarrow> kstate \<Rightarrow> kstate" where
  "boot_leaf data pmd r t s =
     (let i = push_bit 21 r + push_bit 12 t;
          pte = load64 (mem s) (entry pmd r) AND 0xfffffffffffff000 in
      if 0x80000 \<le> i \<and> i < data
      then put_entry pte t (i OR TYPE_PAGE OR PTE_AF OR PTE_NORMAL OR PTE_USER OR PTE_RO) s
      else put_entry pte t (i OR TYPE_PAGE OR PTE_AF OR PTE_NORMAL OR PTE_USER) s)"

definition boot_row :: "u64 \<Rightarrow> u64 \<Rightarrow> u64 \<Rightarrow> kstate \<Rightarrow> kstate" where
  "boot_row data pmd r s = fold (boot_leaf data pmd r) (counter 0 512) (boot_table pmd r s)"

definition boot_device :: "u64 \<Rightarrow> u64 \<Rightarrow> kstate \<Rightarrow> kstate" where
  "boot_device pmd r =
     put_entry pmd r (push_bit 21 r OR TYPE_BLOCK OR PTE_AF OR PTE_USER OR PTE_DEVICE)"

definition boot_mmu_setup :: "u64 \<Rightarrow> u64 \<Rightarrow> kstate \<Rightarrow> kstate" where
  "boot_mmu_setup end_addr data s =
     (let s = s\<lparr>freemem := pg_dir s\<rparr>;
          s = s\<lparr>freemem := ROUND (freemem s) BY2PG\<rparr>;
          pud = freemem s;
          s = s\<lparr>freemem := freemem s + BY2PG\<rparr>;
          pmd = freemem s;
          s = boot_table pud (PUDX end_addr) s;
          s = fold (boot_row data pmd) (counter 0 (drop_bit 21 0x3f000000)) s;
          s = fold (boot_device pmd) (counter (drop_bit 21 0x3f000000) 512) s;
          pmd = freemem s;
          s = boot_table pud (PUDX 0x40000000) s;
          r = drop_bit 21 0x40000000;
          s = put_entry pmd 0 (push_bit 21 r OR TYPE_BLOCK OR PTE_AF OR PTE_USER OR PTE_DEVICE) s;
          s = kprintf (''>>>Lower half page tables for EL1 generated!'' @ [CHR 0x0A]) [] s
      in kprintf (''>>>test:current freemem:%x'' @ [CHR 0x0A]) [VA_num (freemem s)] s)"

subsection \<open>The boot-time allocator and mappings\<close>

definition boot_alloc :: "u64 \<Rightarrow> u64 \<Rightarrow> bool \<Rightarrow> u64 kfun" where
  "boot_alloc n align clear s =
     (let s = s\<lparr>freemem := ROUND (freemem s) align\<rparr>;
          alloced_mem = freemem s;
          s = s\<lparr>freemem := freemem s + n\<rparr>
      in kbind (if clear then kzero alloced_mem n else kret ()) (\<lambda>_ s.
           if maxpa s \<le> freemem s
           then kpanic ''out of memory'' []
                  (kprintf ''freemem:%x,maxpa:%x'' [VA_num (freemem s), VA_num (maxpa s)] s)
           else (Inr alloced_mem, s)) s)"

text \<open>One level of \<open>boot_pgdir_walk\<close>; the code has it twice.\<close>

definition boot_level :: "u64 \<Rightarrow> u64 \<Rightarrow> bool \<Rightarrow> u64 kfun" where
  "boot_level tbl i create s =
     (let e = load64 (mem s) (entry tbl i) in
      if e AND PTE_V = 0 \<and> create then
        kbind (boot_alloc BY2PG BY2PG True) (\<lambda>t s.
          (Inr t, put_entry tbl i (t OR TYPE_PAGE OR PTE_AF OR PTE_USER OR PTE_ISH OR PTE_NORMAL) s)) s
      else (Inr (PTE_ADDR e), s))"

definition boot_pgdir_walk :: "u64 \<Rightarrow> u64 \<Rightarrow> bool \<Rightarrow> u64 kfun" where
  "boot_pgdir_walk pud va create =
     kbind (boot_level pud (PUDX va) create) (\<lambda>pmd.
       kbind (boot_level pmd (PMDX va) create) (\<lambda>pte s. (Inr (entry pte (PTEX va)), s)))"

definition boot_map_page :: "u64 \<Rightarrow> u64 \<Rightarrow> u64 \<Rightarrow> u64 \<Rightarrow> u64 \<Rightarrow> unit kfun" where
  "boot_map_page pud va pa perm i =
     kbind (boot_pgdir_walk pud (va + i) True) (\<lambda>pte_entry s.
       (Inr (), s\<lparr>mem := store64 (mem s) pte_entry
          (pa + i OR perm OR TYPE_PAGE OR PTE_AF OR PTE_USER OR PTE_ISH OR PTE_NORMAL)\<rparr>))"

definition boot_map_segment :: "u64 \<Rightarrow> u64 \<Rightarrow> u64 \<Rightarrow> u64 \<Rightarrow> u64 \<Rightarrow> unit kfun" where
  "boot_map_segment pud va len pa perm s =
     (if len mod BY2PG \<noteq> 0
      then (Inr (), kprintf (''the size is not multiple of BY2PG'' @ [CHR 0x0A]) [] s)
      else kfor (map (push_bit 12) (counter 0 (len div BY2PG))) (boot_map_page pud va pa perm) s)"

text \<open>
  The arrays \<^verbatim>\<open>pages\<close> and \<^verbatim>\<open>envs\<close> and the trap frames at the top of the two stacks are fields of the
  state beside the memory. When the code makes a pointer to fresh memory one of them, the field
  takes the values the memory has there, whatever they are: a \<open>struct Page\<close> has 24 bytes, a
  \<open>struct Env\<close> 416, a \<open>struct Trapframe\<close> 280. NULL is \<open>None\<close>, and another link points to the element
  whose number is its distance from the array, or to the \<open>le_next\<close> of one. Beyond the end of an
  array, which the code does not read, the fields are zero.
\<close>

definition load16 :: "memory \<Rightarrow> u64 \<Rightarrow> u16" where
  "load16 m a = ucast (m a) OR push_bit 8 (ucast (m (a + 1)))"

definition index_of :: "u64 \<Rightarrow> u64 \<Rightarrow> u64 \<Rightarrow> u64 option" where
  "index_of base esize w = (if w = 0 then None else Some ((w - base) div esize))"

definition links_at :: "memory \<Rightarrow> u64 \<Rightarrow> u64 \<Rightarrow> u64 \<Rightarrow> u64 \<Rightarrow> u64 \<Rightarrow> ('h, u64) list_entry" where
  "links_at m base esize n off x =
     (if x < n
      then \<lparr>le_next = index_of base esize (load64 m (base + (esize * x + off))),
            le_prev = map_option Next (index_of (base + off) esize (load64 m (base + (esize * x + off + 8))))\<rparr>
      else \<lparr>le_next = None, le_prev = None\<rparr>)"

definition trapframe_at :: "memory \<Rightarrow> u64 \<Rightarrow> u64 \<Rightarrow> trapframe" where
  "trapframe_at m base off =
     \<lparr>tf_x = (\<lambda>i. if i < 31 then load64 m (base + (off + 8 * word_of_nat i)) else 0),
      tf_sp = load64 m (base + (off + 248)), tf_elr_el1 = load64 m (base + (off + 256)),
      tf_pstate = load64 m (base + (off + 264)), tf_pc = load64 m (base + (off + 272))\<rparr>"

definition env_at :: "memory \<Rightarrow> u64 \<Rightarrow> u64 \<Rightarrow> env" where
  "env_at m base off =
     \<lparr>env_tf = trapframe_at m base off, env_id = load64 m (base + (off + 296)),
      env_parent_id = load64 m (base + (off + 304)), env_status = load64 m (base + (off + 312)),
      env_pgdir = load64 m (base + (off + 320)), env_pri = load64 m (base + (off + 328)),
      env_ipc_value = load64 m (base + (off + 352)), env_ipc_from = load64 m (base + (off + 360)),
      env_ipc_recving = load64 m (base + (off + 368)), env_ipc_dstva = load64 m (base + (off + 376)),
      env_ipc_perm = load64 m (base + (off + 384)), env_pgfault_handler = load64 m (base + (off + 392)),
      env_xstacktop = load64 m (base + (off + 400)), env_runs = load64 m (base + (off + 408))\<rparr>"

definition page_array :: "u64 \<Rightarrow> kstate \<Rightarrow> kstate" where
  "page_array a s = s\<lparr>pages := a,
     pp_ref := (\<lambda>p. if p < npage s then load16 (mem s) (a + (24 * p + 16)) else 0),
     page_q := (page_q s)\<lparr>link := links_at (mem s) a 24 (npage s) 0\<rparr>\<rparr>"

definition env_array :: "u64 \<Rightarrow> kstate \<Rightarrow> kstate" where
  "env_array a s = s\<lparr>envs_ptr := a,
     envs := (\<lambda>e. if e < NENV then env_at (mem s) a (416 * e) else reset_env),
     env_q := (env_q s)\<lparr>link := links_at (mem s) a 416 NENV 280\<rparr>,
     sched_q := (sched_q s)\<lparr>link := links_at (mem s) a 416 NENV 336\<rparr>\<rparr>"

definition map_pages :: "unit kfun" where
  "map_pages s =
     kbind (boot_alloc (npage s * 24) BY2PG True) (\<lambda>a s.
       let s = page_array a s;
           s = kprintf (''to memory %x for struct Pages.'' @ [CHR 0x0A]) [VA_num (freemem s)] s;
           n = ROUND (npage s * 24) BY2PG in
       boot_map_segment (pg_dir s) UPAGES n (pages s) PTE_V s) s"

definition map_envs :: "unit kfun" where
  "map_envs =
     kbind (boot_alloc (NENV * 416) BY2PG True) (\<lambda>a s.
       let s = env_array a s;
           s = kprintf (''to memory %x for struct Envs.'' @ [CHR 0x0A]) [VA_num (freemem s)] s;
           n = ROUND (NENV * 416) BY2PG in
       boot_map_segment (pg_dir s) UENVS n (envs_ptr s) PTE_V s)"

definition map_timestack :: "unit kfun" where
  "map_timestack =
     kbind (boot_alloc BY2PG BY2PG True) (\<lambda>timestack s.
       let s = s\<lparr>timestack_tf := trapframe_at (mem s) timestack (BY2PG - 280)\<rparr>;
           s = kprintf (''to memory %x for TIMESTACK.'' @ [CHR 0x0A]) [VA_num (freemem s)] s in
       boot_map_segment (pg_dir s) (TIMESTACK - BY2PG) BY2PG timestack PTE_V s)"

definition map_kernel_sp :: "unit kfun" where
  "map_kernel_sp =
     kbind (boot_alloc BY2PG BY2PG True) (\<lambda>kernel_sp s.
       let s = s\<lparr>kernel_tf := trapframe_at (mem s) kernel_sp (BY2PG - 280)\<rparr>;
           s = kprintf (''to memory %x for KERNEL SP.'' @ [CHR 0x0A]) [VA_num (freemem s)] s in
       boot_map_segment (pg_dir s) (KERNEL_SP - BY2PG) BY2PG kernel_sp PTE_V s)"

definition aarch64_vm_init :: "unit kfun" where
  "aarch64_vm_init s =
     kbind map_pages (\<lambda>_. kbind map_envs (\<lambda>_. kbind map_timestack (\<lambda>_. kbind map_kernel_sp (\<lambda>_ s.
       let s = kprintf (''aarch64_vm_init:boot_pgdir is %x'' @ [CHR 0x0A]) [VA_num (pg_dir s)] s in
       (Inr (), kprintf (''pmap.c:'' @ [CHR 0x09] @ '' ArmV8 vm init success'' @ [CHR 0x0A]) [] s)))))
     (kprintf (''to memory %x for struct page directory.'' @ [CHR 0x0A]) [VA_num (pg_dir s)] s)"

subsection \<open>Cleared memory\<close>

text \<open>The arrays in memory that has been cleared: all fields are zero, and no element is linked.\<close>

definition unlinked :: "('h, 'a) lists \<Rightarrow> ('h, 'a) lists" where
  "unlinked q = q\<lparr>link := (\<lambda>_. \<lparr>le_next = None, le_prev = None\<rparr>)\<rparr>"

lemma zeroed_at: "off < n \<Longrightarrow> zeroed m b n (b + off) = 0"
  by (simp add: zeroed_def in_block_def)

lemma load64_zeroed:
  assumes "unat off + 8 \<le> unat n"
  shows "load64 (zeroed m b n) (b + off) = 0"
proof -
  have "zeroed m b n (b + off + k) = 0" if "k < 8" for k
  proof -
    have "unat k < 8" using that by (simp add: word_less_nat_alt)
    then have "unat (off + k) = unat off + unat k" using assms unat64_less [of n] by (intro unat_add_small) simp
    then have "off + k < n" using \<open>unat k < 8\<close> assms by (simp add: word_less_nat_alt)
    then show ?thesis using zeroed_at [of "off + k" n m b] by (simp only: add.assoc)
  qed
  then have "load64 (zeroed m b n) (b + off) = load64 (\<lambda>_. 0) 0" by (intro load64_eqI) simp
  then show ?thesis by (simp add: load64_def)
qed

lemma field_offset:
  fixes x N n esize c :: u64
  assumes "x < N" and "unat esize * unat N \<le> unat n" "unat c < unat esize"
  shows "unat (esize * x + c) = unat esize * unat x + unat c" "unat esize * unat x + unat esize \<le> unat n"
proof -
  have "unat esize * (unat x + 1) \<le> unat esize * unat N" using assms(1) by (intro mult_le_mono2) (simp add: word_less_nat_alt)
  then show le: "unat esize * unat x + unat esize \<le> unat n" using assms(2) by simp
  have "unat (esize * x) = unat esize * unat x"
    using le unat64_less [of n] by (simp add: unat_word_ariths)
  then show "unat (esize * x + c) = unat esize * unat x + unat c"
    using le assms(3) unat64_less [of n] by (subst unat_add_small) simp_all
qed

lemma field_zeroed:
  fixes x N n esize c :: u64
  assumes x: "x < N" "unat esize * unat N \<le> unat n" and c: "unat c + 8 \<le> unat esize"
  shows "load64 (zeroed m b n) (b + (esize * x + c)) = 0"
proof -
  have "unat c < unat esize" using c by simp
  note f = field_offset [OF x this]
  show ?thesis using f c by (intro load64_zeroed) simp
qed

lemma half_zeroed:
  fixes x N n esize c :: u64
  assumes x: "x < N" "unat esize * unat N \<le> unat n" and c: "unat c + 2 \<le> unat esize"
  shows "load16 (zeroed m b n) (b + (esize * x + c)) = 0"
proof -
  have "unat c < unat esize" using c by simp
  note f = field_offset [OF x this]
  then have "unat (esize * x + c) + 2 \<le> unat n" using c by simp
  moreover from this have "unat (esize * x + c + 1) = unat (esize * x + c) + 1"
    using unat64_less [of n] by (subst unat_add_small) simp_all
  ultimately have "esize * x + c < n" "esize * x + c + 1 < n" by (simp_all only: word_less_nat_alt)
  from this [THEN zeroed_at] show ?thesis by (simp add: load16_def add.assoc)
qed

lemma links_zeroed:
  fixes N n esize off :: u64
  assumes "unat esize * unat N \<le> unat n" "unat off + 16 \<le> unat esize"
  shows "links_at (zeroed m b n) b esize N off = (\<lambda>_. \<lparr>le_next = None, le_prev = None\<rparr>)"
proof
  fix x
  have o: "unat (off + 8) = unat off + 8" using assms(2) unat64_less [of esize] by (subst unat_add_small) simp_all
  show "links_at (zeroed m b n) b esize N off x = \<lparr>le_next = None, le_prev = None\<rparr>"
  proof (cases "x < N")
    case True
    from field_zeroed [OF True assms(1), of off m b] field_zeroed [OF True assms(1), of "off + 8" m b] assms(2) o
    show ?thesis by (simp add: links_at_def index_of_def add.assoc)
  qed (simp add: links_at_def)
qed

lemma page_array_zeroed:
  assumes "npage s = 0x40000" "mem s = zeroed m a 0x600000"
  shows "page_array a s = s\<lparr>pages := a, pp_ref := (\<lambda>_. 0), page_q := unlinked (page_q s)\<rparr>"
proof -
  have "load16 (zeroed m a 0x600000) (a + (24 * p + 16)) = 0" if "p < 0x40000" for p
    by (rule half_zeroed [OF that]) simp_all
  then have "(\<lambda>p. if p < 0x40000 then load16 (zeroed m a 0x600000) (a + (24 * p + 16)) else 0) = (\<lambda>_. 0)"
    by (intro ext) simp
  then show ?thesis unfolding page_array_def unlinked_def assms by (simp add: links_zeroed)
qed

lemma env_at_zeroed:
  assumes e: "e < NENV"
  shows "env_at (zeroed m a 0x68000) a (416 * e) = reset_env"
proof -
  have z: "load64 (zeroed m a 0x68000) (a + (416 * e + c)) = 0" if "unat c + 8 \<le> 416" for c
    using that by (intro field_zeroed [OF e]) (simp_all add: NENV_def)
  have "load64 (zeroed m a 0x68000) (a + (416 * e + 8 * word_of_nat i)) = 0" if "i < 31" for i
    using that by (intro z) (simp add: unat_word_ariths unat_of_nat take_bit_nat_eq_self)
  then show ?thesis using z by (simp add: env_at_def trapframe_at_def reset_env_def reset_tf_def fun_eq_iff)
qed

lemma env_array_zeroed:
  assumes "mem s = zeroed m a 0x68000"
  shows "env_array a s = s\<lparr>envs_ptr := a, envs := (\<lambda>_. reset_env), env_q := unlinked (env_q s),
    sched_q := unlinked (sched_q s)\<rparr>"
proof -
  have "(\<lambda>e. if e < NENV then env_at (zeroed m a 0x68000) a (416 * e) else reset_env) = (\<lambda>_. reset_env)"
    using env_at_zeroed by (intro ext) simp
  then show ?thesis unfolding env_array_def unlinked_def assms by (simp add: links_zeroed NENV_def)
qed

lemma trapframe_zeroed: "trapframe_at (zeroed m a BY2PG) a (BY2PG - 280) = reset_tf"
proof -
  have "load64 (zeroed m a BY2PG) (a + (BY2PG - 280 + 8 * word_of_nat i)) = 0" if "i < 31" for i
  proof (rule load64_zeroed)
    have "unat (8 * word_of_nat i :: u64) = 8 * i" using that by (simp add: unat_word_ariths unat_of_nat take_bit_nat_eq_self)
    then show "unat (BY2PG - 280 + 8 * word_of_nat i) + 8 \<le> unat BY2PG"
      using that by (subst unat_add_small) (simp_all add: BY2PG_def)
  qed
  moreover have "load64 (zeroed m a BY2PG) (a + (BY2PG - c)) = 0" if "c \<in> {32, 24, 16, 8}" for c
    using that by (intro load64_zeroed) (auto simp: BY2PG_def)
  ultimately show ?thesis by (simp add: trapframe_at_def reset_tf_def fun_eq_iff)
qed

subsection \<open>The kernel's own mapping: lemmas\<close>

text \<open>The leaf of the page at \<open>i\<close>: read-only for the kernel's text.\<close>

definition kernel_leaf :: "u64 \<Rightarrow> u64 \<Rightarrow> u64" where
  "kernel_leaf data i = (if 0x80000 \<le> i \<and> i < data then i OR 0x4C3 else i OR 0x443)"

lemmas boot_attrs = TYPE_PAGE_def TYPE_BLOCK_def PTE_AF_def PTE_USER_def PTE_ISH_def PTE_NORMAL_def PTE_RO_def
  PTE_DEVICE_def

lemma attr_eqs:
  "x OR TYPE_PAGE OR PTE_AF OR PTE_USER OR PTE_ISH OR PTE_NORMAL = x OR 0x743"
  "x OR TYPE_PAGE OR PTE_AF OR PTE_NORMAL OR PTE_USER OR PTE_RO = x OR 0x4C3"
  "x OR TYPE_PAGE OR PTE_AF OR PTE_NORMAL OR PTE_USER = x OR 0x443"
  "x OR TYPE_BLOCK OR PTE_AF OR PTE_USER OR PTE_DEVICE = x OR 0x445"
  by (simp_all add: boot_attrs or.assoc)

lemma load_put_entry:
  assumes "page_aligned tbl" "page_aligned t" "i < 512" "c < 512"
  shows "load64 (mem (put_entry tbl i v s)) (entry t c) =
    (if tbl = t \<and> i = c then v else load64 (mem s) (entry t c))"
  using assms by (simp add: put_entry_def ts.get_put_cell)

lemma put_entry_rest: "put_entry tbl i v s = s\<lparr>mem := mem (put_entry tbl i v s)\<rparr>"
  by (simp add: put_entry_def)

lemma page2pa_PPN: "page_aligned F \<Longrightarrow> page2pa (PPN F) = F"
proof -
  assume "page_aligned F"
  then have "unat (F AND NOT (2 ^ 12 - 1)) = unat F" by (simp only: unat_and_not_pow2) (simp add: page_aligned_def)
  then have "F AND NOT (2 ^ 12 - 1) = F" by (simp only: word_unat_eq_iff)
  then show ?thesis using PTE_ADDR_PPN [of F] by (simp add: PTE_ADDR_def)
qed

lemma mask_addr: "page_aligned F \<Longrightarrow> (F OR 0x743) AND 0xfffffffffffff000 = F"
proof -
  assume F: "page_aligned F"
  have "PTE_ADDR (page2pa (PPN F) OR 0x743) = page2pa (PPN F)" by (rule PTE_ADDR_or) simp
  moreover have "(0xfffffffffffff000 :: u64) = NOT 0xFFF" by simp
  ultimately show ?thesis using page2pa_PPN [OF F] by (simp only: PTE_ADDR_def)
qed

text \<open>The loop over a table of leaves.\<close>

lemma boot_leaves:
  assumes al: "page_aligned pmd" "page_aligned F" "F \<noteq> pmd" and r: "r < 512"
  shows "distinct ks \<Longrightarrow> \<forall>t \<in> set ks. t < 512 \<Longrightarrow> load64 (mem s) (entry pmd r) = F OR 0x743 \<Longrightarrow>
    \<exists>m. fold (boot_leaf data pmd r) ks s = s\<lparr>mem := m\<rparr> \<and>
      (\<forall>t c. page_aligned t \<longrightarrow> c < 512 \<longrightarrow> load64 m (entry t c) =
        (if t = F \<and> c \<in> set ks then kernel_leaf data (push_bit 21 r + push_bit 12 c) else load64 (mem s) (entry t c)))"
proof (induction ks arbitrary: s)
  case Nil
  then show ?case by (intro exI [of _ "mem s"]) simp
next
  case (Cons k ks)
  let ?v = "kernel_leaf data (push_bit 21 r + push_bit 12 k)" and ?s = "boot_leaf data pmd r k s"
  have s: "?s = put_entry F k ?v s"
    using Cons.prems(3) mask_addr [OF al(2)] by (simp add: boot_leaf_def Let_def attr_eqs kernel_leaf_def)
  have k: "k < 512" "k \<notin> set ks" using Cons.prems by auto
  have ld: "load64 (mem ?s) (entry t c) = (if F = t \<and> k = c then ?v else load64 (mem s) (entry t c))"
    if "page_aligned t" "c < 512" for t c
    unfolding s by (rule load_put_entry [OF al(2) that(1) k(1) that(2)])
  then have "load64 (mem ?s) (entry pmd r) = F OR 0x743" using al(1,3) r Cons.prems(3) by simp
  from Cons.IH [OF _ _ this] Cons.prems obtain m where m: "fold (boot_leaf data pmd r) ks ?s = ?s\<lparr>mem := m\<rparr>"
    "\<And>t c. page_aligned t \<Longrightarrow> c < 512 \<Longrightarrow> load64 m (entry t c) =
      (if t = F \<and> c \<in> set ks then kernel_leaf data (push_bit 21 r + push_bit 12 c) else load64 (mem ?s) (entry t c))"
    by auto
  have "?s\<lparr>mem := m\<rparr> = s\<lparr>mem := m\<rparr>" by (simp add: s put_entry_def)
  then show ?case using m ld k(2) by (intro exI [of _ m]) auto
qed

lemma boot_row_effect:
  fixes s :: kstate
  assumes al: "page_aligned pmd" "page_aligned (freemem s)" "freemem s \<noteq> pmd" and r: "r < 512"
  shows "\<exists>m. boot_row data pmd r s = s\<lparr>mem := m, freemem := freemem s + BY2PG\<rparr> \<and>
      (\<forall>t c. page_aligned t \<longrightarrow> c < 512 \<longrightarrow> load64 m (entry t c) =
        (if t = freemem s then kernel_leaf data (push_bit 21 r + push_bit 12 c)
         else if t = pmd \<and> c = r then freemem s OR 0x743 else load64 (mem s) (entry t c)))"
proof -
  let ?s = "boot_table pmd r s"
  have t: "?s = s\<lparr>mem := mem (put_entry pmd r (freemem s OR 0x743) s), freemem := freemem s + BY2PG\<rparr>"
    by (simp add: boot_table_def put_entry_def Let_def attr_eqs)
  have ld: "load64 (mem ?s) (entry t c) = (if pmd = t \<and> r = c then freemem s OR 0x743 else load64 (mem s) (entry t c))"
    if "page_aligned t" "c < 512" for t c
    using load_put_entry [OF al(1) that(1) r that(2)] by (simp add: t)
  have "load64 (mem ?s) (entry pmd r) = freemem s OR 0x743" using ld [OF al(1) r] by simp
  from boot_leaves [OF al r distinct_counter _ this, of 0 512 data] obtain m where m:
    "boot_row data pmd r s = ?s\<lparr>mem := m\<rparr>"
    "\<And>t c. page_aligned t \<Longrightarrow> c < 512 \<Longrightarrow> load64 m (entry t c) =
      (if t = freemem s then kernel_leaf data (push_bit 21 r + push_bit 12 c) else load64 (mem ?s) (entry t c))"
    by (auto simp: boot_row_def set_counter)
  have "?s\<lparr>mem := m\<rparr> = s\<lparr>mem := m, freemem := freemem s + BY2PG\<rparr>" unfolding t by simp
  then show ?thesis using m ld by (intro exI [of _ m]) auto
qed

lemma page2pa_Suc: "page2pa x + BY2PG = page2pa (x + 1)"
  by (simp add: page2pa_def page2ppn_def BY2PG_def push_bit_eq_mult algebra_simps)

lemma counter_Suc: "Suc n < 2 ^ 64 \<Longrightarrow> counter 0 (word_of_nat (Suc n)) = counter 0 (word_of_nat n) @ [word_of_nat n]"
  by (simp add: counter_def unat_of_nat take_bit_nat_eq_self del: of_nat_Suc)

text \<open>
  After \<open>n\<close> rows: row \<open>r\<close> of the middle directory names the page \<open>f + r\<close>, which holds the
  leaves of the addresses from \<open>2 MiB * r\<close> on; no other entry has changed.
\<close>

definition rows_done :: "u64 \<Rightarrow> u64 \<Rightarrow> u64 \<Rightarrow> nat \<Rightarrow> memory \<Rightarrow> memory \<Rightarrow> bool" where
  "rows_done data pmd f n m m' \<longleftrightarrow>
     (\<forall>r < n. load64 m' (entry pmd (word_of_nat r)) = page2pa (f + word_of_nat r) OR 0x743) \<and>
     (\<forall>r < n. \<forall>c < 512. load64 m' (entry (page2pa (f + word_of_nat r)) c) =
        kernel_leaf data (push_bit 21 (word_of_nat r) + push_bit 12 c)) \<and>
     (\<forall>t c. page_aligned t \<longrightarrow> c < 512 \<longrightarrow> (\<forall>r < n. t \<noteq> page2pa (f + word_of_nat r)) \<longrightarrow>
        (t = pmd \<longrightarrow> word_of_nat n \<le> c) \<longrightarrow> load64 m' (entry t c) = load64 m (entry t c))"

lemma row_pages:
  fixes f q :: u64
  assumes q: "q < f" and f: "unat f + 512 \<le> 2 ^ 40"
  shows "r < 512 \<Longrightarrow> r' < 512 \<Longrightarrow> page2pa (f + word_of_nat r) = page2pa (f + word_of_nat r') \<longleftrightarrow> r = r'"
    "r < 512 \<Longrightarrow> page2pa (f + word_of_nat r) \<noteq> page2pa q"
proof -
  have u: "unat (f + word_of_nat r) = unat f + r" if "r < 512" for r
    using f that by (subst unat_add_small) (simp_all add: unat_of_nat take_bit_nat_eq_self)
  have l: "f + word_of_nat r < 2 ^ 40" if "r < 512" for r using u [OF that] that f by (simp add: word_less_nat_alt)
  show "page2pa (f + word_of_nat r) = page2pa (f + word_of_nat r') \<longleftrightarrow> r = r'" if "r < 512" "r' < 512"
    using u [OF that(1)] u [OF that(2)] by (simp only: page2pa_eq_iff [OF l l] that) (simp add: word_unat_eq_iff)
  show "page2pa (f + word_of_nat r) \<noteq> page2pa q" if "r < 512"
  proof -
    have "q < 2 ^ 40" "f + word_of_nat r \<noteq> q" using u [OF that] q f that by (auto simp: word_less_nat_alt)
    then show ?thesis using l [OF that] by (simp add: page2pa_eq_iff)
  qed
qed

lemma rows_done_Suc:
  fixes f q :: u64
  defines "pmd \<equiv> page2pa q"
  assumes n: "n < 512" and qf: "q < f" "unat f + 512 \<le> 2 ^ 40" and al: "page_aligned pmd"
    and d: "rows_done data pmd f n m0 m"
    and ld: "\<And>t c. page_aligned t \<Longrightarrow> c < 512 \<Longrightarrow> load64 m' (entry t c) =
        (if t = page2pa (f + word_of_nat n) then kernel_leaf data (push_bit 21 (word_of_nat n) + push_bit 12 c)
         else if t = pmd \<and> c = word_of_nat n then page2pa (f + word_of_nat n) OR 0x743 else load64 m (entry t c))"
  shows "rows_done data pmd f (Suc n) m0 m'"
proof -
  let ?F = "\<lambda>r. page2pa (f + word_of_nat r)"
  note inj = row_pages(1) [OF qf] and ne = row_pages(2) [OF qf, folded pmd_def]
  have w: "unat (word_of_nat r :: u64) = r" if "r < 2 ^ 10" for r
    using that by (simp add: unat_of_nat take_bit_nat_eq_self)
  show ?thesis
  unfolding rows_done_def
  proof (intro conjI allI impI)
    fix r assume "r < Suc n"
    then have r: "r < 512" "(word_of_nat r :: u64) < 512" "word_of_nat r = (word_of_nat n :: u64) \<longleftrightarrow> r = n"
      using n w [of r] w [of n] by (auto simp: word_less_nat_alt word_unat_eq_iff)
    show "load64 m' (entry pmd (word_of_nat r)) = ?F r OR 0x743"
      using ld [OF al r(2)] ne [OF n] r(3) d \<open>r < Suc n\<close> by (auto simp: rows_done_def less_Suc_eq)
    show "load64 m' (entry (?F r) c) = kernel_leaf data (push_bit 21 (word_of_nat r) + push_bit 12 c)"
      if "c < 512" for c
      using ld [OF _ that, of "?F r"] inj [OF r(1) n] ne [OF r(1)] d that \<open>r < Suc n\<close>
      by (auto simp: rows_done_def less_Suc_eq)
  next
    fix t c assume t: "page_aligned t" "c < (512 :: u64)" "\<forall>r < Suc n. t \<noteq> ?F r"
      "t = pmd \<longrightarrow> word_of_nat (Suc n) \<le> c"
    have "unat (word_of_nat (Suc n) :: u64) = Suc n" using n by (intro w) simp
    then have "t = pmd \<longrightarrow> word_of_nat n \<le> c \<and> c \<noteq> word_of_nat n"
      using t(4) w [of n] n by (auto simp: word_le_nat_alt simp del: of_nat_Suc)
    moreover have "\<forall>r < n. t \<noteq> ?F r" "t \<noteq> ?F n" using t(3) by auto
    ultimately show "load64 m' (entry t c) = load64 m0 (entry t c)"
      using ld [OF t(1,2)] d t(1,2) unfolding rows_done_def by metis
  qed
qed

lemma boot_rows:
  fixes s :: kstate
  assumes pmd: "pmd = page2pa q" "q < f" and f: "freemem s = page2pa f" "unat f + 512 \<le> 2 ^ 40"
  shows "n \<le> 512 \<Longrightarrow> \<exists>m. fold (boot_row data pmd) (counter 0 (word_of_nat n)) s =
      s\<lparr>mem := m, freemem := page2pa (f + word_of_nat n)\<rparr> \<and> rows_done data pmd f n (mem s) m"
proof (induction n)
  case 0
  then show ?case using f by (intro exI [of _ "mem s"]) (simp add: counter_def rows_done_def)
next
  case (Suc n)
  then have n: "n < 512" by simp
  from Suc obtain m where m: "fold (boot_row data pmd) (counter 0 (word_of_nat n)) s =
      s\<lparr>mem := m, freemem := page2pa (f + word_of_nat n)\<rparr>" and d: "rows_done data pmd f n (mem s) m" by auto
  let ?F = "\<lambda>r. page2pa (f + word_of_nat r)" and ?s = "s\<lparr>mem := m, freemem := page2pa (f + word_of_nat n)\<rparr>"
  note ne = row_pages(2) [OF pmd(2) f(2), folded pmd(1)]
  have w: "unat (word_of_nat r :: u64) = r" if "r < 2 ^ 10" for r
    using that by (simp add: unat_of_nat take_bit_nat_eq_self)
  have al: "page_aligned pmd" "page_aligned (freemem ?s)" using pmd(1) by simp_all
  have rn: "(word_of_nat n :: u64) < 512" using n w [of n] by (simp add: word_less_nat_alt)
  from boot_row_effect [OF al _ rn, of data] ne [OF n] obtain m' where
    m': "boot_row data pmd (word_of_nat n) ?s = ?s\<lparr>mem := m', freemem := freemem ?s + BY2PG\<rparr>"
    and ld: "\<And>t c. page_aligned t \<Longrightarrow> c < 512 \<Longrightarrow> load64 m' (entry t c) =
        (if t = ?F n then kernel_leaf data (push_bit 21 (word_of_nat n) + push_bit 12 c)
         else if t = pmd \<and> c = word_of_nat n then ?F n OR 0x743 else load64 m (entry t c))" by auto
  have nx: "page2pa (f + word_of_nat n) + BY2PG = page2pa (f + word_of_nat (Suc n))"
    unfolding page2pa_Suc by (simp add: ac_simps)
  have "fold (boot_row data pmd) (counter 0 (word_of_nat (Suc n))) s =
      s\<lparr>mem := m', freemem := page2pa (f + word_of_nat (Suc n))\<rparr>"
    using n m m' nx by (simp add: counter_Suc del: of_nat_Suc)
  moreover have "rows_done data pmd f (Suc n) (mem s) m'"
    using ld unfolding pmd(1) by (intro rows_done_Suc [OF n pmd(2) f(2) _ d [unfolded pmd(1)]]) simp_all
  ultimately show ?case by blast
qed

lemma put_entries:
  assumes al: "page_aligned tbl"
  shows "distinct ks \<Longrightarrow> \<forall>i \<in> set ks. i < 512 \<Longrightarrow> \<exists>m. fold (\<lambda>i. put_entry tbl i (v i)) ks s = s\<lparr>mem := m\<rparr> \<and>
    (\<forall>t c. page_aligned t \<longrightarrow> c < 512 \<longrightarrow>
       load64 m (entry t c) = (if t = tbl \<and> c \<in> set ks then v c else load64 (mem s) (entry t c)))"
proof (induction ks arbitrary: s)
  case Nil
  then show ?case by (intro exI [of _ "mem s"]) simp
next
  case (Cons k ks)
  let ?s = "put_entry tbl k (v k) s"
  from Cons.IH [of ?s] Cons.prems obtain m where "fold (\<lambda>i. put_entry tbl i (v i)) ks ?s = ?s\<lparr>mem := m\<rparr>"
    "\<And>t c. page_aligned t \<Longrightarrow> c < 512 \<Longrightarrow>
       load64 m (entry t c) = (if t = tbl \<and> c \<in> set ks then v c else load64 (mem ?s) (entry t c))" by auto
  moreover have "?s\<lparr>mem := m\<rparr> = s\<lparr>mem := m\<rparr>" by (simp add: put_entry_def)
  ultimately show ?case using Cons.prems load_put_entry [OF al, of _ k _ "v k" s]
    by (intro exI [of _ m]) auto
qed

lemma ROUND_page: "page_aligned a \<Longrightarrow> unat a + 4096 \<le> 2 ^ 64 \<Longrightarrow> ROUND a BY2PG = a"
proof -
  assume a: "page_aligned a" "unat a + 4096 \<le> 2 ^ 64"
  have b: "(2 :: u64) ^ 12 = BY2PG" by (simp add: BY2PG_def)
  have "4096 dvd unat (ROUND a BY2PG)" "a \<le> ROUND a BY2PG" "unat (ROUND a BY2PG) < unat a + 4096"
    using ROUND_spec [of 12 a, unfolded b] a(2) by simp_all
  moreover from a(1) obtain k where "unat a = 4096 * k" by (auto simp: page_aligned_def)
  ultimately have "unat (ROUND a BY2PG) = unat a" by (auto simp: word_le_nat_alt)
  then show ?thesis by (simp add: word_unat_eq_iff)
qed

text \<open>The pages that follow \<open>b\<close> are different pages.\<close>

lemma page_after:
  fixes b :: u64
  assumes b: "unat b + 600 \<le> 2 ^ 40"
  shows "k \<le> 512 \<Longrightarrow> unat (b + k) = unat b + unat k"
    "k \<le> 512 \<Longrightarrow> k' \<le> 512 \<Longrightarrow> page2pa (b + k) = page2pa (b + k') \<longleftrightarrow> k = k'"
    "k \<le> 512 \<Longrightarrow> page2pa b = page2pa (b + k) \<longleftrightarrow> k = 0"
    "k \<le> 512 \<Longrightarrow> page2pa (b + k) = page2pa b \<longleftrightarrow> k = 0"
proof -
  show u: "unat (b + k) = unat b + unat k" if "k \<le> 512" for k
    using b that by (subst unat_add_small) (simp_all add: word_le_nat_alt)
  show pg: "page2pa (b + k) = page2pa (b + k') \<longleftrightarrow> k = k'" if "k \<le> 512" "k' \<le> 512" for k k'
  proof -
    have "b + k < 2 ^ 40" "b + k' < 2 ^ 40" using u that b by (simp_all add: word_less_nat_alt word_le_nat_alt)
    then show ?thesis by (simp add: page2pa_eq_iff)
  qed
  show "page2pa b = page2pa (b + k) \<longleftrightarrow> k = 0" "page2pa (b + k) = page2pa b \<longleftrightarrow> k = 0" if "k \<le> 512" for k
    using pg [of 0 k] pg [of k 0] that by auto
qed

lemma leaf_page_ne:
  fixes b :: u64
  assumes b: "unat b + 600 \<le> 2 ^ 40" and r: "r < 504"
  shows "page2pa b \<noteq> page2pa (b + 2 + word_of_nat r)" "page2pa (b + 1) \<noteq> page2pa (b + 2 + word_of_nat r)"
    "page2pa (b + 506) \<noteq> page2pa (b + 2 + word_of_nat r)"
proof -
  have w: "unat (word_of_nat r :: u64) = r" using r by (simp add: unat_of_nat take_bit_nat_eq_self)
  have "unat (2 + word_of_nat r :: u64) = 2 + r" using r w by (subst unat_add_small) auto
  then have "(2 + word_of_nat r :: u64) \<le> 512" "(2 + word_of_nat r :: u64) \<notin> {0, 1, 506}"
    using r by (auto simp: word_le_nat_alt word_unat_eq_iff)
  then show "page2pa b \<noteq> page2pa (b + 2 + word_of_nat r)" "page2pa (b + 1) \<noteq> page2pa (b + 2 + word_of_nat r)"
    "page2pa (b + 506) \<noteq> page2pa (b + 2 + word_of_nat r)"
    using page_after(3) [OF b, of "2 + word_of_nat r"] page_after(2) [OF b, of _ "2 + word_of_nat r"]
    by (auto simp: add.assoc)
qed

text \<open>The stores of \<open>boot_mmu_setup\<close> before, in and after its loop over the rows.\<close>

lemma boot_chain:
  fixes s :: kstate
  assumes b: "pg_dir s = page2pa b" "unat b + 600 \<le> 2 ^ 40" and e: "PUDX end_addr = 0"
  shows "\<exists>m1 m2. rows_done data (page2pa (b + 1)) (b + 2) 504 m1 m2 \<and>
    freemem (boot_mmu_setup end_addr data s) = page2pa (b + 507) \<and>
    (\<forall>c < 512. \<forall>y. load64 (mem (boot_mmu_setup end_addr data s)) (entry (page2pa y) c) =
      (if page2pa (b + 506) = page2pa y \<and> 0 = c then 0x40000000 OR 0x445
       else if page2pa b = page2pa y \<and> 1 = c then page2pa (b + 506) OR 0x743
       else if page2pa y = page2pa (b + 1) \<and> 504 \<le> c then push_bit 21 c OR 0x445
       else load64 m2 (entry (page2pa y) c))) \<and>
    (\<forall>c < 512. \<forall>y. load64 m1 (entry (page2pa y) c) = (if page2pa b = page2pa y \<and> 0 = c then page2pa (b + 1) OR 0x743
      else load64 (mem s) (entry (page2pa y) c)))"
proof -
  note u = page_after(1) [OF b(2)]
  have load: "load64 (mem (put_entry (page2pa x) i v st)) (entry (page2pa y) c) =
      (if page2pa x = page2pa y \<and> i = c then v else load64 (mem st) (entry (page2pa y) c))"
    if "i < 512" "c < 512" for x y i c v and st :: kstate
    using that by (intro load_put_entry) simp_all
  define m1 where "m1 = mem (put_entry (page2pa b) 0 (page2pa (b + 1) OR 0x743) s)"
  have s1: "boot_table (page2pa b) 0 (s\<lparr>freemem := page2pa (b + 1)\<rparr>) = s\<lparr>mem := m1, freemem := page2pa (b + 2)\<rparr>"
    using page2pa_Suc [of "b + 1"] by (simp add: m1_def boot_table_def put_entry_def Let_def attr_eqs add.assoc)
  have "b + 1 < b + 2" "unat (b + 2) + 512 \<le> 2 ^ 40"
    using u [of 1] u [of 2] b(2) by (simp_all add: word_less_nat_alt)
  from boot_rows [OF refl this(1), of "s\<lparr>mem := m1, freemem := page2pa (b + 2)\<rparr>" 504 data] this(2)
  obtain m2 where s2: "fold (boot_row data (page2pa (b + 1))) (counter 0 504) (s\<lparr>mem := m1, freemem := page2pa (b + 2)\<rparr>) =
      s\<lparr>mem := m2, freemem := page2pa (b + 506)\<rparr>" and d: "rows_done data (page2pa (b + 1)) (b + 2) 504 m1 m2"
    by (auto simp: add.assoc)
  from put_entries [of "page2pa (b + 1)" "counter 504 512" "\<lambda>r. push_bit 21 r OR 0x445"
      "s\<lparr>mem := m2, freemem := page2pa (b + 506)\<rparr>"]
  obtain m3 where f3: "fold (\<lambda>r. put_entry (page2pa (b + 1)) r (push_bit 21 r OR 0x445)) (counter 504 512)
      (s\<lparr>mem := m2, freemem := page2pa (b + 506)\<rparr>) = s\<lparr>mem := m2, freemem := page2pa (b + 506)\<rparr>\<lparr>mem := m3\<rparr>"
    and d3: "\<And>t c. page_aligned t \<Longrightarrow> c < 512 \<Longrightarrow> load64 m3 (entry t c) =
      (if t = page2pa (b + 1) \<and> 504 \<le> c then push_bit 21 c OR 0x445 else load64 m2 (entry t c))"
    by (auto simp: distinct_counter set_counter)
  have "s\<lparr>mem := m2, freemem := page2pa (b + 506)\<rparr>\<lparr>mem := m3\<rparr> = s\<lparr>mem := m3, freemem := page2pa (b + 506)\<rparr>" by simp
  note s3 = f3 [unfolded this]
  define m4 where "m4 = mem (put_entry (page2pa b) 1 (page2pa (b + 506) OR 0x743) (s\<lparr>mem := m3\<rparr>))"
  have s4: "boot_table (page2pa b) 1 (s\<lparr>mem := m3, freemem := page2pa (b + 506)\<rparr>) =
      s\<lparr>mem := m4, freemem := page2pa (b + 507)\<rparr>"
    using page2pa_Suc [of "b + 506"] by (simp add: m4_def boot_table_def put_entry_def Let_def attr_eqs add.assoc)
  define m5 where "m5 = mem (put_entry (page2pa (b + 506)) 0 (0x40000000 OR 0x445) (s\<lparr>mem := m4\<rparr>))"
  have s5: "put_entry (page2pa (b + 506)) 0 (0x40000000 OR 0x445) (s\<lparr>mem := m4, freemem := page2pa (b + 507)\<rparr>) =
      s\<lparr>mem := m5, freemem := page2pa (b + 507)\<rparr>" by (simp add: m5_def put_entry_def)
  have dev: "boot_device pmd = (\<lambda>r. put_entry pmd r (push_bit 21 r OR 0x445))" for pmd
    by (rule ext) (simp add: boot_device_def attr_eqs)
  have rnd: "ROUND (page2pa b) BY2PG = page2pa b"
    using b(2) unat_page2pa [of b] by (intro ROUND_page) (simp_all add: word_less_nat_alt)
  have call: "mem (boot_mmu_setup end_addr data s) = m5" "freemem (boot_mmu_setup end_addr data s) = page2pa (b + 507)"
    using s1 s2 s3 s4 s5 e b(1) page2pa_Suc [of b]
    by (simp_all add: boot_mmu_setup_def Let_def rnd dev attr_eqs PUDX_def kprintf_eq)
  have l5: "load64 m5 (entry (page2pa y) c) = (if page2pa (b + 506) = page2pa y \<and> 0 = c then 0x40000000 OR 0x445
      else if page2pa b = page2pa y \<and> 1 = c then page2pa (b + 506) OR 0x743
      else if page2pa y = page2pa (b + 1) \<and> 504 \<le> c then push_bit 21 c OR 0x445
      else load64 m2 (entry (page2pa y) c))" if "c < 512" for y c
    using that by (simp add: m5_def m4_def load d3)
  have l1: "load64 m1 (entry (page2pa y) c) = (if page2pa b = page2pa y \<and> 0 = c then page2pa (b + 1) OR 0x743
      else load64 (mem s) (entry (page2pa y) c))" if "c < 512" for y c
    using that by (simp add: m1_def load)
  show ?thesis using d call l5 l1 by (intro exI [of _ m1] exI [of _ m2]) simp
qed

text \<open>The tables \<open>boot_mmu_setup\<close> leaves behind: the page \<open>b\<close> is the upper directory, \<open>b + 1\<close> and
  \<open>b + 506\<close> are the middle ones, and \<open>b + 2\<close> to \<open>b + 505\<close> hold the leaves.\<close>

lemma boot_tables:
  fixes s :: kstate
  assumes b: "pg_dir s = page2pa b" "unat b + 600 \<le> 2 ^ 40" and e: "PUDX end_addr = 0"
  shows "\<exists>m. mem (boot_mmu_setup end_addr data s) = m \<and> freemem (boot_mmu_setup end_addr data s) = page2pa (b + 507) \<and>
    load64 m (entry (page2pa b) 0) = page2pa (b + 1) OR 0x743 \<and>
    load64 m (entry (page2pa b) 1) = page2pa (b + 506) OR 0x743 \<and>
    (\<forall>r < 504. load64 m (entry (page2pa (b + 1)) r) = page2pa (b + 2 + r) OR 0x743) \<and>
    (\<forall>r < 504. \<forall>c < 512. load64 m (entry (page2pa (b + 2 + r)) c) = kernel_leaf data (push_bit 21 r + push_bit 12 c)) \<and>
    (\<forall>r < 512. 504 \<le> r \<longrightarrow> load64 m (entry (page2pa (b + 1)) r) = push_bit 21 r OR 0x445) \<and>
    load64 m (entry (page2pa (b + 506)) 0) = 0x40000000 OR 0x445 \<and>
    (\<forall>c < 512. 2 \<le> c \<longrightarrow> load64 m (entry (page2pa b) c) = load64 (mem s) (entry (page2pa b) c)) \<and>
    (\<forall>c < 512. 1 \<le> c \<longrightarrow> load64 m (entry (page2pa (b + 506)) c) = load64 (mem s) (entry (page2pa (b + 506)) c))"
proof -
  note pg = page_after(2) [OF b(2)] and pg0 = page_after(3,4) [OF b(2)] and ne = leaf_page_ne [OF b(2)]
  from boot_chain [OF assms, of data] obtain m1 m2 where d: "rows_done data (page2pa (b + 1)) (b + 2) 504 m1 m2"
    and free: "freemem (boot_mmu_setup end_addr data s) = page2pa (b + 507)"
    and l5: "\<And>c y. c < 512 \<Longrightarrow> load64 (mem (boot_mmu_setup end_addr data s)) (entry (page2pa y) c) =
      (if page2pa (b + 506) = page2pa y \<and> 0 = c then 0x40000000 OR 0x445
       else if page2pa b = page2pa y \<and> 1 = c then page2pa (b + 506) OR 0x743
       else if page2pa y = page2pa (b + 1) \<and> 504 \<le> c then push_bit 21 c OR 0x445
       else load64 m2 (entry (page2pa y) c))"
    and l1: "\<And>c y. c < 512 \<Longrightarrow> load64 m1 (entry (page2pa y) c) =
      (if page2pa b = page2pa y \<and> 0 = c then page2pa (b + 1) OR 0x743 else load64 (mem s) (entry (page2pa y) c))" by blast
  let ?m = "mem (boot_mmu_setup end_addr data s)"
  have rw: "\<exists>n < 504. r = word_of_nat n" if "r < 504" for r :: u64
    using that by (intro exI [of _ "unat r"]) (simp add: word_less_nat_alt)
  have d1: "\<And>r. r < 504 \<Longrightarrow> load64 m2 (entry (page2pa (b + 1)) (word_of_nat r)) = page2pa (b + 2 + word_of_nat r) OR 0x743"
    "\<And>r c. r < 504 \<Longrightarrow> c < 512 \<Longrightarrow> load64 m2 (entry (page2pa (b + 2 + word_of_nat r)) c) =
        kernel_leaf data (push_bit 21 (word_of_nat r) + push_bit 12 c)"
    "\<And>c. c < 512 \<Longrightarrow> load64 m2 (entry (page2pa b) c) = load64 m1 (entry (page2pa b) c)"
    "\<And>c. c < 512 \<Longrightarrow> load64 m2 (entry (page2pa (b + 506)) c) = load64 m1 (entry (page2pa (b + 506)) c)"
    using d ne(1,3) pg0 [of 1] pg [of 1 506] by (simp_all add: rows_done_def)
  have "load64 ?m (entry (page2pa b) 0) = page2pa (b + 1) OR 0x743"
    "load64 ?m (entry (page2pa b) 1) = page2pa (b + 506) OR 0x743"
    "load64 ?m (entry (page2pa (b + 506)) 0) = 0x40000000 OR 0x445"
    using l5 l1 d1(3) pg0 [of 506] pg0 [of 1] pg [of 1 506] by simp_all
  moreover have "load64 ?m (entry (page2pa b) c) = load64 (mem s) (entry (page2pa b) c)" if "c < 512" "2 \<le> c" for c
  proof -
    have "c \<noteq> 0" "c \<noteq> 1" using that(2) by (auto simp: word_le_nat_alt)
    then show ?thesis using l5 [OF that(1), of b] l1 [OF that(1), of b] d1(3) [OF that(1)] pg0 [of 506] pg0 [of 1] by simp
  qed
  moreover have "load64 ?m (entry (page2pa (b + 506)) c) = load64 (mem s) (entry (page2pa (b + 506)) c)"
    if "c < 512" "1 \<le> c" for c
  proof -
    have "c \<noteq> 0" using that(2) by (auto simp: word_le_nat_alt)
    then show ?thesis using l5 [OF that(1), of "b + 506"] l1 [OF that(1), of "b + 506"] d1(4) [OF that(1)]
        pg0 [of 506] pg [of 1 506] by simp
  qed
  moreover have "load64 ?m (entry (page2pa (b + 1)) r) = page2pa (b + 2 + r) OR 0x743"
    "c < 512 \<Longrightarrow> load64 ?m (entry (page2pa (b + 2 + r)) c) = kernel_leaf data (push_bit 21 r + push_bit 12 c)"
    if "r < 504" for r c
  proof -
    from rw [OF that] obtain n where n: "n < 504" "r = word_of_nat n" by blast
    have "r < 512" using that by (rule order.strict_trans) simp
    then show "load64 ?m (entry (page2pa (b + 1)) r) = page2pa (b + 2 + r) OR 0x743"
      using l5 [of r "b + 1"] that d1(1) [OF n(1)] n(2) pg0 [of 1] pg [of 1 506] by (auto simp: not_le)
    show "load64 ?m (entry (page2pa (b + 2 + r)) c) = kernel_leaf data (push_bit 21 r + push_bit 12 c)" if "c < 512"
      using l5 [OF that, of "b + 2 + r"] ne [OF n(1)] d1(2) [OF n(1) that] n(2) by auto
  qed
  moreover have "load64 ?m (entry (page2pa (b + 1)) r) = push_bit 21 r OR 0x445" if "r < 512" "504 \<le> r" for r
    using l5 [OF that(1), of "b + 1"] that(2) pg0 [of 1] pg [of 1 506] by auto
  ultimately show ?thesis using free by simp
qed

subsection \<open>What the processor translates\<close>

lemma numeral_bits: "bit (0x445 :: u64) n \<longleftrightarrow> n \<in> {0, 2, 6, 10}" "bit (0x743 :: u64) n \<longleftrightarrow> n \<in> {0, 1, 6, 8, 9, 10}"
  "bit (0x443 :: u64) n \<longleftrightarrow> n \<in> {0, 1, 6, 10}" "bit (0x4C3 :: u64) n \<longleftrightarrow> n \<in> {0, 1, 6, 7, 10}"
proof -
  have *: "(0x445 :: u64) = 2 ^ 0 OR 2 ^ 2 OR 2 ^ 6 OR 2 ^ 10" "(0x743 :: u64) = 2 ^ 0 OR 2 ^ 1 OR 2 ^ 6 OR 2 ^ 8 OR 2 ^ 9 OR 2 ^ 10"
    "(0x443 :: u64) = 2 ^ 0 OR 2 ^ 1 OR 2 ^ 6 OR 2 ^ 10" "(0x4C3 :: u64) = 2 ^ 0 OR 2 ^ 1 OR 2 ^ 6 OR 2 ^ 7 OR 2 ^ 10"
    by simp_all
  have b: "bit (2 ^ k :: u64) n \<longleftrightarrow> n = k" if "k < 64" for k
    using that by (auto simp: bit_exp_iff)
  have c: "(0 :: nat) < 64" "(1 :: nat) < 64" "(2 :: nat) < 64" "(6 :: nat) < 64" "(7 :: nat) < 64"
    "(8 :: nat) < 64" "(9 :: nat) < 64" "(10 :: nat) < 64" by simp_all
  show "bit (0x445 :: u64) n \<longleftrightarrow> n \<in> {0, 2, 6, 10}" "bit (0x743 :: u64) n \<longleftrightarrow> n \<in> {0, 1, 6, 8, 9, 10}"
    "bit (0x443 :: u64) n \<longleftrightarrow> n \<in> {0, 1, 6, 10}" "bit (0x4C3 :: u64) n \<longleftrightarrow> n \<in> {0, 1, 6, 7, 10}"
    unfolding * by (simp_all only: bit_or_iff b c insert_iff empty_iff simp_thms)
qed

lemma low_va_index:
  assumes "va < 2 ^ 30"
  shows "PUDX va = 0" "push_bit 21 (PMDX va) + push_bit 12 (PTEX va) = PTE_ADDR va"
    "push_bit 21 (PMDX va) OR push_bit 12 (PTEX va) = PTE_ADDR va" "unat (PMDX va) = unat va div 2 ^ 21"
proof -
  have small: "bit va n \<Longrightarrow> n < 30" for n using assms by (rule bit_small_less)
  show "PUDX va = 0" by (rule bit_word_eqI) (auto simp: bit_index dest: small)
  show or: "push_bit 21 (PMDX va) OR push_bit 12 (PTEX va) = PTE_ADDR va"
  proof (rule bit_word_eqI)
    fix n
    show "bit (push_bit 21 (PMDX va) OR push_bit 12 (PTEX va)) n = bit (PTE_ADDR va) n"
      using small [of n] by (auto simp: PTE_ADDR_eq bit_simps bit_index)
  qed
  have "push_bit 21 (PMDX va) AND push_bit 12 (PTEX va) = 0"
    by (rule bit_word_eqI) (auto simp: bit_simps bit_index)
  then show "push_bit 21 (PMDX va) + push_bit 12 (PTEX va) = PTE_ADDR va"
    using or by (simp add: disjunctive_add_eq_or)
  have "PMDX va = drop_bit 21 va" by (rule bit_word_eqI) (auto simp: bit_index bit_simps dest: small)
  then have "unat (PMDX va) = drop_bit 21 (unat va)" by (simp only: unat_drop_bit_eq)
  then show "unat (PMDX va) = unat va div 2 ^ 21" by (simp only: drop_bit_eq_div [where 'a = nat])
qed

lemma kernel_leaf_page:
  "is_table_desc (kernel_leaf data (page2pa p))" "PTE_ADDR (kernel_leaf data (page2pa p)) = page2pa p"
  "kernel_leaf data (page2pa p) AND PTE_RO \<noteq> 0 \<longleftrightarrow> 0x80000 \<le> page2pa p \<and> page2pa p < data"
  "kernel_leaf data (page2pa p) AND PTE_USER \<noteq> 0"
proof -
  show "is_table_desc (kernel_leaf data (page2pa p))" "PTE_ADDR (kernel_leaf data (page2pa p)) = page2pa p"
    by (simp_all add: kernel_leaf_def is_table_desc_def or_and_low TYPE_PAGE_def PTE_ADDR_or)
  have b: "x AND PTE_RO \<noteq> 0 \<longleftrightarrow> bit x 7" "x AND PTE_USER \<noteq> 0 \<longleftrightarrow> bit x 6" for x :: u64
    unfolding PTE_RO_def PTE_USER_def using and_exp_eq_0_iff_not_bit [of x 7] and_exp_eq_0_iff_not_bit [of x 6]
    by simp_all
  have "\<not> bit (page2pa p) 7" "\<not> bit (page2pa p) 6" by (simp_all add: page2pa_def page2ppn_def bit_simps)
  then show "kernel_leaf data (page2pa p) AND PTE_RO \<noteq> 0 \<longleftrightarrow> 0x80000 \<le> page2pa p \<and> page2pa p < data"
    "kernel_leaf data (page2pa p) AND PTE_USER \<noteq> 0"
    unfolding b by (auto simp: kernel_leaf_def bit_simps numeral_bits)
qed

lemma mmu_page_block:
  assumes "load64 m (entry pud (PUDX va)) = page2pa p OR 0x743"
    and "load64 m (entry (page2pa p) (PMDX va)) = x OR 0x445" and x: "x = push_bit 21 (drop_bit 21 va)"
  shows "mmu_page m pud va = Some (PTE_ADDR va)"
proof -
  have "(x OR 0x445) AND 3 = TYPE_BLOCK"
  proof -
    have m: "(3 :: u64) = mask 2" by (simp add: mask_eq_exp_minus_1)
    show ?thesis unfolding x TYPE_BLOCK_def m
      by (rule bit_word_eqI) (auto simp only: bit_and_iff bit_or_iff bit_mask_iff bit_push_bit_iff numeral_bits bit_1_iff, auto)
  qed
  moreover have "PTE_ADDR (x OR 0x445) AND NOT 0x1FFFFF OR push_bit 12 (PTEX va) = PTE_ADDR va"
  proof -
    have m: "(0x1FFFFF :: u64) = mask 21" by (simp add: mask_eq_exp_minus_1)
    show ?thesis unfolding m x
      by (rule bit_word_eqI) (auto simp: PTE_ADDR_eq bit_simps bit_index numeral_bits)
  qed
  moreover have "is_table_desc (page2pa p OR 0x743)" "PTE_ADDR (page2pa p OR 0x743) = page2pa p"
    by (simp_all add: is_table_desc_def or_and_low TYPE_PAGE_def PTE_ADDR_or)
  ultimately show ?thesis using assms(1,2) by (simp add: mmu_page_def Let_def)
qed

text \<open>The leaves below the devices.\<close>

lemma low_leaf:
  fixes s :: kstate and data end_addr va :: u64
  assumes b: "pg_dir s = page2pa b" "unat b + 600 \<le> 2 ^ 40" and e: "PUDX end_addr = 0" and va: "va < 0x3f000000"
  defines "m \<equiv> mem (boot_mmu_setup end_addr data s)"
  shows "tab m (pg_dir s) (va_path va) = Some (page2pa (b + 2 + PMDX va))"
    "pt_view m (pg_dir s) (va_slot va) = kernel_leaf data (page2pa (PPN va))"
proof -
  from boot_tables [OF b e, of data] have t: "load64 m (entry (page2pa b) 0) = page2pa (b + 1) OR 0x743"
      "\<And>r. r < 504 \<Longrightarrow> load64 m (entry (page2pa (b + 1)) r) = page2pa (b + 2 + r) OR 0x743"
      "\<And>r c. r < 504 \<Longrightarrow> c < 512 \<Longrightarrow>
        load64 m (entry (page2pa (b + 2 + r)) c) = kernel_leaf data (push_bit 21 r + push_bit 12 c)"
    unfolding m_def by (auto simp: Let_def)
  have desc: "is_table_desc (page2pa p OR 0x743)" "PTE_ADDR (page2pa p OR 0x743) = page2pa p" for p
    by (simp_all add: is_table_desc_def or_and_low TYPE_PAGE_def PTE_ADDR_or)
  have "va < 2 ^ 30" using va by (rule order.strict_trans) simp
  note ix = low_va_index [OF this]
  have r: "PMDX va < 504" using va ix(4) by (simp add: word_less_nat_alt)
  show tab: "tab m (pg_dir s) (va_path va) = Some (page2pa (b + 2 + PMDX va))"
    using t(1,2) r by (simp add: b(1) va_path_def ix(1) next_tab_def desc)
  show "pt_view m (pg_dir s) (va_slot va) = kernel_leaf data (page2pa (PPN va))"
    using tab t(3) [OF r index_less(3), of va] ix(2) by (simp add: pt_view_va PTE_ADDR_PPN)
qed

text \<open>C12: The kernel's own mapping is the identity. After \<^verbatim>\<open>boot_mmu_setup\<close> the processor takes every
  virtual address below 0x3f000000 to the physical page at the same address, through a leaf that is
  read-only exactly for the pages from 0x80000 up to \<^verbatim>\<open>_data\<close>, and that the user level may reach;
  the addresses from 0x3f000000 up to 0x40200000 (the devices) go to themselves too. The tables
  take the 507 pages from \<^verbatim>\<open>_pg_dir\<close> on, and \<^verbatim>\<open>freemem\<close> stands behind them.
\<close>

theorem boot_identity:
  fixes s :: kstate and data end_addr va :: u64
  assumes b: "pg_dir s = page2pa b" "unat b + 600 \<le> 2 ^ 40" and e: "PUDX end_addr = 0"
  defines "s' \<equiv> boot_mmu_setup end_addr data s"
  shows "freemem s' = page2pa (b + 507) \<and>
    (va < 0x3f000000 \<longrightarrow> mmu_page (mem s') (pg_dir s) va = Some (PTE_ADDR va) \<and>
      (pt_view (mem s') (pg_dir s) (va_slot va) AND PTE_RO \<noteq> 0 \<longleftrightarrow> 0x80000 \<le> PTE_ADDR va \<and> PTE_ADDR va < data) \<and>
      pt_view (mem s') (pg_dir s) (va_slot va) AND PTE_USER \<noteq> 0) \<and>
    (0x3f000000 \<le> va \<and> va < 0x40200000 \<longrightarrow> mmu_page (mem s') (pg_dir s) va = Some (PTE_ADDR va))"
proof -
  let ?m = "mem s'"
  from boot_tables [OF b e, of data] have free: "freemem s' = page2pa (b + 507)"
    and t: "load64 ?m (entry (page2pa b) 0) = page2pa (b + 1) OR 0x743"
      "load64 ?m (entry (page2pa b) 1) = page2pa (b + 506) OR 0x743"
      "\<And>r. r < 512 \<Longrightarrow> 504 \<le> r \<Longrightarrow> load64 ?m (entry (page2pa (b + 1)) r) = push_bit 21 r OR 0x445"
      "load64 ?m (entry (page2pa (b + 506)) 0) = 0x40000000 OR 0x445"
    unfolding s'_def by (auto simp: Let_def)
  have low: "mmu_page ?m (pg_dir s) va = Some (PTE_ADDR va) \<and>
      (pt_view ?m (pg_dir s) (va_slot va) AND PTE_RO \<noteq> 0 \<longleftrightarrow> 0x80000 \<le> PTE_ADDR va \<and> PTE_ADDR va < data) \<and>
      pt_view ?m (pg_dir s) (va_slot va) AND PTE_USER \<noteq> 0" if va: "va < 0x3f000000"
    using low_leaf [OF b e va, of data, folded s'_def] mmu_page_view kernel_leaf_page [of data "PPN va"]
    by (simp add: PTE_ADDR_PPN [symmetric])
  moreover have "mmu_page ?m (pg_dir s) va = Some (PTE_ADDR va)" if va: "0x3f000000 \<le> va" "va < 2 ^ 30"
  proof -
    note ix = low_va_index [OF va(2)]
    have p: "504 \<le> PMDX va" using va(1) ix(4) by (simp add: word_le_nat_alt)
    have "PMDX va = drop_bit 21 va"
      by (rule bit_word_eqI) (auto simp: bit_index bit_simps dest: bit_small_less [OF va(2)])
    then show ?thesis using t(3) [OF index_less(2) p] t(1) by (intro mmu_page_block) (simp_all only: ix(1) b(1))
  qed
  moreover have "mmu_page ?m (pg_dir s) va = Some (PTE_ADDR va)" if va: "0x40000000 \<le> va" "va < 0x40200000"
  proof -
    have "drop_bit 21 va = 512"
    proof -
      have "unat (drop_bit 21 va) = drop_bit 21 (unat va)" by (simp only: unat_drop_bit_eq)
      also have "\<dots> = unat va div 2 ^ 21" by (simp only: drop_bit_eq_div [where 'a = nat])
      also have "\<dots> = 512" using va by (simp add: word_less_nat_alt word_le_nat_alt)
      finally show ?thesis by (simp add: word_unat_eq_iff)
    qed
    moreover have "drop_bit 30 va = drop_bit 9 (drop_bit 21 va)" by simp
    ultimately have "PUDX va = 1" "PMDX va = 0" "push_bit 21 (drop_bit 21 va) = 0x40000000"
      by (simp_all add: PUDX_def PMDX_def del: drop_bit_drop_bit)
    then show ?thesis using t(2,4) by (intro mmu_page_block) (simp_all only: b(1))
  qed
  ultimately show ?thesis using free by (cases "va < 2 ^ 30") (auto simp: not_less)
qed

lemma boot_identity_witness:
  "mmu_page (mem (boot_mmu_setup 0x500000 0xA0000 (reset_state\<lparr>pg_dir := 0x100000\<rparr>))) 0x100000 0x81234 = Some 0x81000 \<and>
   mmu_page (mem (boot_mmu_setup 0x500000 0xA0000 (reset_state\<lparr>pg_dir := 0x100000\<rparr>))) 0x100000 0x40000040 = Some 0x40000000"
  using boot_identity [where s = "reset_state\<lparr>pg_dir := 0x100000\<rparr>" and b = "0x100" and end_addr = "0x500000" and va = "0x81234" and data = "0xA0000"]
    boot_identity [where s = "reset_state\<lparr>pg_dir := 0x100000\<rparr>" and b = "0x100" and end_addr = "0x500000" and va = "0x40000040" and data = "0xA0000"]
  by (simp add: page2pa_def page2ppn_def PUDX_def PTE_ADDR_def)

end
