(* ===== verification/Boot_Segment.thy ===== *)
theory Boot_Segment
  imports Boot
begin

text \<open>
  Boot_Segment: what \<open>boot_map_segment\<close> and \<open>aarch64_vm_init\<close> of \<^verbatim>\<open>mm/pmap.c\<close> achieve. The tables they
  add come from \<^verbatim>\<open>freemem\<close>; all tables in use lie below it.
\<close>

definition boot_ok :: "kstate \<Rightarrow> u64 \<Rightarrow> bool" where
  "boot_ok s pud \<longleftrightarrow> page_aligned pud \<and> page_aligned (freemem s) \<and> pt_inj (mem s) pud \<and>
     (\<forall>t. is_tab (mem s) pud t \<longrightarrow> 0 < t \<and> t < freemem s)"

text \<open>From \<open>s\<close> to \<open>s'\<close> at most \<open>n\<close> pages have been taken; tables stay where they are, new ones lie in the
  memory that was free, and nothing but tables has been written.\<close>

definition boot_keeps :: "u64 \<Rightarrow> nat \<Rightarrow> kstate \<Rightarrow> kstate \<Rightarrow> bool" where
  "boot_keeps pud n s s' \<longleftrightarrow> boot_ok s' pud \<and> s' = s\<lparr>mem := mem s', freemem := freemem s'\<rparr> \<and>
     freemem s \<le> freemem s' \<and> unat (freemem s') \<le> unat (freemem s) + 4096 * n \<and>
     (\<forall>va. no_block (mem s) pud va \<longrightarrow> no_block (mem s') pud va) \<and>
     (\<forall>q t. is_path q \<longrightarrow> tab (mem s) pud q = Some t \<longrightarrow> tab (mem s') pud q = Some t) \<and>
     (\<forall>t. is_tab (mem s') pud t \<longrightarrow> is_tab (mem s) pud t \<or> freemem s \<le> t) \<and>
     (\<forall>t c. page_aligned t \<longrightarrow> c < 512 \<longrightarrow> \<not> is_tab (mem s') pud t \<longrightarrow>
        load64 (mem s') (entry t c) = load64 (mem s) (entry t c))"

lemma boot_keepsD:
  assumes "boot_keeps pud n s s'"
  shows "boot_ok s' pud" "s' = s\<lparr>mem := mem s', freemem := freemem s'\<rparr>" "maxpa s' = maxpa s" "freemem s \<le> freemem s'"
    "unat (freemem s') \<le> unat (freemem s) + 4096 * n" "no_block (mem s) pud va \<Longrightarrow> no_block (mem s') pud va"
    "is_path q \<Longrightarrow> tab (mem s) pud q = Some t \<Longrightarrow> tab (mem s') pud q = Some t"
    "is_tab (mem s) pud t \<Longrightarrow> is_tab (mem s') pud t"
    "page_aligned t \<Longrightarrow> c < 512 \<Longrightarrow> \<not> is_tab (mem s') pud t \<Longrightarrow>
        load64 (mem s') (entry t c) = load64 (mem s) (entry t c)"
    "npage s' = npage s" "pg_dir s' = pg_dir s" "is_tab (mem s') pud t \<Longrightarrow> is_tab (mem s) pud t \<or> freemem s \<le> t"
proof -
  show s: "s' = s\<lparr>mem := mem s', freemem := freemem s'\<rparr>" using assms by (simp add: boot_keeps_def)
  show "maxpa s' = maxpa s" "npage s' = npage s" "pg_dir s' = pg_dir s" by (subst s, simp)+
qed (use assms in \<open>auto simp: boot_keeps_def is_tab_def\<close>)

lemma boot_keeps_refl: "boot_ok s pud \<Longrightarrow> boot_keeps pud 0 s s"
  by (simp add: boot_keeps_def)

lemma boot_keeps_trans:
  assumes 1: "boot_keeps pud n s s1" and 2: "boot_keeps pud k s1 s2"
  shows "boot_keeps pud (n + k) s s2"
proof -
  have "s2 = s\<lparr>mem := mem s2, freemem := freemem s2\<rparr>"
    by (subst boot_keepsD(2) [OF 2], subst boot_keepsD(2) [OF 1]) simp
  moreover have "load64 (mem s2) (entry t c) = load64 (mem s) (entry t c)"
    if "page_aligned t" "c < 512" "\<not> is_tab (mem s2) pud t" for t c
    using boot_keepsD(9) [OF 1 that(1,2)] boot_keepsD(9) [OF 2 that] boot_keepsD(8) [OF 2] that(3) by auto
  moreover have "is_tab (mem s) pud t \<or> freemem s \<le> t" if "is_tab (mem s2) pud t" for t
    using boot_keepsD(12) [OF 2 that] boot_keepsD(12) [OF 1, of t] boot_keepsD(4) [OF 1] by (auto intro: order.trans)
  moreover have "freemem s \<le> freemem s2" using boot_keepsD(4) [OF 1] boot_keepsD(4) [OF 2] by (rule order.trans)
  moreover have "unat (freemem s2) \<le> unat (freemem s) + 4096 * (n + k)"
    using boot_keepsD(5) [OF 1] boot_keepsD(5) [OF 2] by simp
  ultimately show ?thesis unfolding boot_keeps_def
    using boot_keepsD(1) [OF 2] boot_keepsD(6,7) [OF 1] boot_keepsD(6,7) [OF 2] by simp
qed

subsection \<open>Fresh pages\<close>

lemma boot_alloc_eq:
  assumes al: "page_aligned (freemem s)" and room: "unat (freemem s) + unat n < unat (maxpa s)" "unat (maxpa s) \<le> 2 ^ 60"
  shows "boot_alloc n BY2PG True s =
    (Inr (freemem s), s\<lparr>freemem := freemem s + n, mem := zeroed (mem s) (freemem s) n\<rparr>)"
proof -
  have "ROUND (freemem s) BY2PG = freemem s" using room by (intro ROUND_page al) simp
  moreover have "bzero m (freemem s) n = Some (zeroed m (freemem s) n)" for m using room by (intro bzero_eq) simp
  moreover have "freemem s + n < maxpa s" using room by (simp add: word_less_nat_alt unat_add_small)
  ultimately show ?thesis by (simp add: boot_alloc_def kzero_def not_le [symmetric] Let_def)
qed

lemma page_aligned_add: "page_aligned a \<Longrightarrow> page_aligned b \<Longrightarrow> page_aligned (a + b)"
  unfolding page_aligned_def by (simp add: unat_word_ariths dvd_mod_iff)

lemma page_aligned_BY2PG: "page_aligned BY2PG"
  by (simp add: page_aligned_def BY2PG_def)

lemma no_block_hang:
  assumes inj: "pt_inj m pud" and al: "page_aligned pud" and p: "is_path (p @ [i])" "length p \<le> 1"
    and t: "tab m pud p = Some t" and nt: "next_tab m t i = None"
    and fresh: "\<And>q. is_path q \<Longrightarrow> tab m pud q \<noteq> Some (page2pa f)" and nb: "no_block m pud va"
  shows "no_block (hang m t i f) pud va"
proof -
  have ip: "is_path p" "i < 512" using p by (auto simp: is_path_def)
  have tf: "t \<noteq> page2pa f" using fresh [OF ip(1)] t by auto
  have pf: "pud \<noteq> page2pa f" using fresh [of "[]"] by auto
  note ent = hang_entries [OF tab_aligned [OF al t] _ ip(2) _ tf]
  have e0: "ok_entry (load64 (hang m t i f) (entry pud (PUDX va)))"
    using ent [OF al index_less(1)] nb pf by (auto simp: no_block_def ok_entry_def)
  have "next_tab (hang m t i f) pud (PUDX va) = (if [PUDX va] = p @ [i] then Some (page2pa f) else next_tab m pud (PUDX va))"
    using tab_hang_Some [OF inj al p(1) t nt fresh is_path_va(2), of va] by (simp split: option.splits if_splits)
  moreover have "ok_entry (load64 (hang m t i f) (entry t' (PMDX va)))"
    if "[PUDX va] = p @ [i] \<and> t' = page2pa f \<or> next_tab m pud (PUDX va) = Some t'" for t'
  proof (cases "t' = page2pa f")
    case True
    then show ?thesis using ent [of t' "PMDX va"] tf by (simp add: ok_entry_def)
  next
    case False
    then have n: "next_tab m pud (PUDX va) = Some t'" using that by auto
    then have "page_aligned t'" using tab_aligned [OF al, of m "[PUDX va]" t'] by simp
    then show ?thesis using ent [of t' "PMDX va"] n nb False by (auto simp: no_block_def ok_entry_def)
  qed
  ultimately show ?thesis using e0 by (auto simp: no_block_def split: option.split if_splits)
qed

lemma boot_level_step:
  assumes ok: "boot_ok s pud" and p: "is_path (p @ [i])" "length p \<le> 1" and t: "tab (mem s) pud p = Some t"
    and e: "ok_entry (load64 (mem s) (entry t i))"
    and room: "unat (freemem s) + 4096 < unat (maxpa s)" "unat (maxpa s) \<le> 2 ^ 52"
  shows "\<exists>t' s'. boot_level t i True s = (Inr t', s') \<and> boot_keeps pud 1 s s' \<and> tab (mem s') pud (p @ [i]) = Some t' \<and>
    (\<forall>sl. is_slot sl \<longrightarrow> pt_view (mem s') pud sl = pt_view (mem s) pud sl)"
proof (cases "next_tab (mem s) t i")
  case (Some t')
  then have "boot_level t i True s = (Inr t', s)"
    using table_desc_valid by (auto simp: boot_level_def next_tab_def Let_def split: if_splits)
  moreover have "boot_keeps pud 1 s s" using boot_keeps_refl [OF ok] by (simp add: boot_keeps_def)
  ultimately show ?thesis using t Some by (simp add: tab_append)
next
  case None
  let ?f = "PPN (freemem s)" and ?m = "hang (mem s) t i (PPN (freemem s))"
  let ?s = "s\<lparr>freemem := freemem s + BY2PG, mem := ?m\<rparr>"
  have al: "page_aligned pud" and inj: "pt_inj (mem s) pud" and fa: "page_aligned (freemem s)"
    and below: "\<And>t. is_tab (mem s) pud t \<Longrightarrow> t < freemem s" and pos: "\<And>t. is_tab (mem s) pud t \<Longrightarrow> 0 < t"
    using ok by (auto simp: boot_ok_def)
  have f0: "0 < freemem s" using below [OF is_tabI [of "[]"]] by (auto intro: order.strict_trans1 [of 0 pud])
  have f: "page2pa ?f = freemem s" by (rule page2pa_PPN [OF fa])
  have fresh: "tab (mem s) pud q \<noteq> Some (page2pa ?f)" if "is_path q" for q
    using below [of "freemem s"] is_tabI [OF that] by (auto simp: f)
  note h = tab_hang_Some [OF inj al p(1) t None fresh] and tabs = is_tab_hang [OF inj al p(1) t None fresh]
  have call: "boot_level t i True s = (Inr (page2pa ?f), ?s)"
    using boot_alloc_eq [OF fa, of BY2PG] room e None
    by (simp add: boot_level_def next_tab_None Let_def put_entry_def hang_def f BY2PG_def table_desc_def)
  have up: "unat (freemem s + BY2PG) = unat (freemem s) + 4096"
    using room by (subst unat_add_small) (simp_all add: BY2PG_def)
  have less: "freemem s < freemem s + BY2PG" by (simp add: word_less_nat_alt up)
  have "boot_ok ?s pud"
    unfolding boot_ok_def using hang_inj [OF inj al p(1) t None fresh] al fa tabs below less pos f0
    by (auto simp: f page_aligned_add page_aligned_BY2PG dest: order.strict_trans [OF _ less])
  moreover have "load64 ?m (entry x c) = load64 (mem s) (entry x c)"
    if "page_aligned x" "c < 512" "\<not> is_tab ?m pud x" for x c
  proof -
    have "x \<noteq> t" "x \<noteq> page2pa ?f" "t \<noteq> page2pa ?f" "i < 512"
      using that(3) tabs is_tabI [OF is_path_prefix [OF p(1)] t] fresh [OF is_path_prefix [OF p(1)]] t p(1)
      by (auto simp: is_path_def)
    then show ?thesis using hang_entries [OF tab_aligned [OF al t] that(1) _ that(2)] by simp
  qed
  moreover have "tab (mem s) pud (p @ [i]) = None" using t None by (simp add: tab_append)
  ultimately have "boot_keeps pud 1 s ?s"
    using h no_block_hang [OF inj al p t None fresh] less up tabs by (auto simp: boot_keeps_def f)
  then show ?thesis using call hang_view [OF inj al p t None fresh] h [OF _ p(1)]
    by (intro exI [of _ "page2pa ?f"] exI [of _ ?s]) (simp del: pt_view.simps split_paired_All)
qed

subsection \<open>One page of a segment\<close>

lemma boot_walk_step:
  assumes ok: "boot_ok s pud" and nb: "no_block (mem s) pud va"
    and room: "unat (freemem s) + 8192 < unat (maxpa s)" "unat (maxpa s) \<le> 2 ^ 52"
  shows "\<exists>t s'. boot_pgdir_walk pud va True s = (Inr (entry t (PTEX va)), s') \<and> boot_keeps pud 2 s s' \<and>
    tab (mem s') pud (va_path va) = Some t \<and> (\<forall>sl. is_slot sl \<longrightarrow> pt_view (mem s') pud sl = pt_view (mem s) pud sl)"
proof -
  have "ok_entry (load64 (mem s) (entry pud (PUDX va)))" using nb by (simp add: no_block_def)
  from boot_level_step [OF ok _ _ _ this, of "[]"] room obtain t1 s1 where
    1: "boot_level pud (PUDX va) True s = (Inr t1, s1)" "boot_keeps pud 1 s s1" "tab (mem s1) pud [PUDX va] = Some t1"
    and v1: "\<And>sl. is_slot sl \<Longrightarrow> pt_view (mem s1) pud sl = pt_view (mem s) pud sl"
    by (auto simp del: pt_view.simps split_paired_All)
  have "ok_entry (load64 (mem s1) (entry t1 (PMDX va)))"
    using boot_keepsD(6) [OF 1(2) nb] 1(3) by (simp add: no_block_def split: option.splits)
  from boot_level_step [OF boot_keepsD(1) [OF 1(2)] _ _ 1(3) this] boot_keepsD(3,5) [OF 1(2)] room obtain t2 s2 where
    2: "boot_level t1 (PMDX va) True s1 = (Inr t2, s2)" "boot_keeps pud 1 s1 s2" "tab (mem s2) pud (va_path va) = Some t2"
    and v2: "\<And>sl. is_slot sl \<Longrightarrow> pt_view (mem s2) pud sl = pt_view (mem s1) pud sl"
    by (auto simp: is_path_def va_path_def simp del: pt_view.simps tab.simps split_paired_All)
  have "boot_keeps pud 2 s s2" using boot_keeps_trans [OF 1(2) 2(2)] by (simp only: one_add_one)
  then show ?thesis using 1(1) 2(1,3) v1 v2
    by (intro exI [of _ t2] exI [of _ s2]) (simp add: boot_pgdir_walk_def del: pt_view.simps split_paired_All)
qed

lemma boot_keeps_leaf:
  assumes ok: "boot_ok s pud" and t: "tab (mem s) pud (va_path va) = Some t"
  shows "boot_keeps pud 0 s (s\<lparr>mem := store64 (mem s) (entry t (PTEX va)) v\<rparr>)"
proof -
  let ?m = "store64 (mem s) (entry t (PTEX va)) v"
  have al: "page_aligned pud" and inj: "pt_inj (mem s) pud" using ok by (auto simp: boot_ok_def)
  have l: "leaf_set pud va v (mem s) ?m" by (rule leaf_set_store [OF inj al t])
  have tabs: "is_path q \<Longrightarrow> tab ?m pud q = tab (mem s) pud q" for q using l by (simp add: leaf_set_def)
  have ent: "load64 ?m (entry x c) = load64 (mem s) (entry x c)"
    if "tab (mem s) pud q = Some x" "is_path q" "length q \<le> 1" "c < 512" for x q c
  proof -
    have "t \<noteq> x" using pt_injD [OF inj that(2) is_path_va(1) that(1)] t that(3) by (auto simp: va_path_def)
    then show ?thesis
      using ts.get_put_cell [OF tab_aligned [OF al t] tab_aligned [OF al that(1)] _ that(4), of "PTEX va" "mem s" v] by simp
  qed
  have "no_block ?m pud x" if nb: "no_block (mem s) pud x" for x
  proof -
    have "next_tab ?m pud (PUDX x) = next_tab (mem s) pud (PUDX x)" using tabs [of "[PUDX x]"] by (simp split: option.splits)
    moreover have "load64 ?m (entry t' (PMDX x)) = load64 (mem s) (entry t' (PMDX x))"
      if "next_tab (mem s) pud (PUDX x) = Some t'" for t' using ent [of "[PUDX x]" t' "PMDX x"] that by simp
    moreover have "load64 ?m (entry pud (PUDX x)) = load64 (mem s) (entry pud (PUDX x))" using ent [of "[]" pud "PUDX x"] by simp
    ultimately show ?thesis using nb by (auto simp: no_block_def split: option.splits)
  qed
  moreover have "boot_ok (s\<lparr>mem := ?m\<rparr>) pud" using ok leaf_set_tabs(1,2) [OF l] by (simp add: boot_ok_def)
  ultimately show ?thesis using l leaf_set_tabs(1) [OF l] tabs by (simp add: boot_keeps_def leaf_set_def)
qed

lemma boot_map_page_step:
  assumes ok: "boot_ok s pud" and nb: "no_block (mem s) pud (va + i)"
    and room: "unat (freemem s) + 8192 < unat (maxpa s)" "unat (maxpa s) \<le> 2 ^ 52"
  shows "\<exists>s'. boot_map_page pud va pa perm i s = (Inr (), s') \<and> boot_keeps pud 2 s s' \<and>
    (\<exists>t. tab (mem s') pud (va_path (va + i)) = Some t) \<and>
    (\<forall>sl. is_slot sl \<longrightarrow> pt_view (mem s') pud sl =
      (if sl = va_slot (va + i) then pa + i OR (perm OR 0x743) else pt_view (mem s) pud sl))"
proof -
  from boot_walk_step [OF ok nb room] obtain t s1 where
    w: "boot_pgdir_walk pud (va + i) True s = (Inr (entry t (PTEX (va + i))), s1)" "boot_keeps pud 2 s s1"
      "tab (mem s1) pud (va_path (va + i)) = Some t"
    and v: "\<And>sl. is_slot sl \<Longrightarrow> pt_view (mem s1) pud sl = pt_view (mem s) pud sl"
    by (auto simp del: pt_view.simps split_paired_All)
  let ?v = "pa + i OR (perm OR 0x743)"
  let ?s = "s1\<lparr>mem := store64 (mem s1) (entry t (PTEX (va + i))) ?v\<rparr>"
  have ok1: "page_aligned pud" "pt_inj (mem s1) pud" using boot_keepsD(1) [OF w(2)] by (simp_all add: boot_ok_def)
  have l: "leaf_set pud (va + i) ?v (mem s1) (mem ?s)" using leaf_set_store [OF ok1(2,1) w(3)] by simp
  have a: "x OR perm OR TYPE_PAGE OR PTE_AF OR PTE_USER OR PTE_ISH OR PTE_NORMAL = x OR (perm OR 0x743)" for x
    by (simp add: boot_attrs or.assoc)
  have "boot_keeps pud 2 s ?s" using boot_keeps_trans [OF w(2) boot_keeps_leaf [OF boot_keepsD(1) [OF w(2)] w(3)]] by simp
  moreover have "boot_map_page pud va pa perm i s = (Inr (), ?s)" using w(1) by (simp add: boot_map_page_def a)
  moreover have "tab (mem ?s) pud (va_path (va + i)) = Some t" using l w(3) by (simp add: leaf_set_def)
  ultimately show ?thesis using l v
    by (intro exI [of _ ?s]) (simp add: leaf_set_def del: pt_view.simps split_paired_All)
qed

subsection \<open>The segment\<close>

text \<open>The tables reach \<open>va\<close>, and its leaf is the descriptor of the page \<open>pa\<close>.\<close>

definition mapped_to :: "memory \<Rightarrow> u64 \<Rightarrow> u64 \<Rightarrow> u64 \<Rightarrow> u64 \<Rightarrow> bool" where
  "mapped_to m pud va pa perm \<longleftrightarrow> (\<exists>t. tab m pud (va_path va) = Some t) \<and>
     pt_view m pud (va_slot va) = pa OR (perm OR 0x743)"

lemma mapped_to_mmu:
  assumes m: "mapped_to m pud va pa perm" and pa: "page_aligned pa" and perm: "perm < 4096"
  shows "mmu_page m pud va = Some pa"
proof -
  have "perm < 2 ^ 12" "(0x743 :: u64) < 2 ^ 12" using perm by simp_all
  then have "perm OR 0x743 < 2 ^ 12" by (intro small_by_bits) (auto simp only: bit_or_iff not_bit_small)
  then have at: "perm OR 0x743 < 4096" by simp
  obtain q where q: "pa = page2pa q" using page2pa_PPN [OF pa] by metis
  have "(perm OR 0x743) AND 3 = TYPE_PAGE"
    by (simp add: bit.conj_disj_distrib2 TYPE_PAGE_def or.commute)
  then have "is_table_desc (page2pa q OR (perm OR 0x743))" by (simp add: is_table_desc_def or_and_low)
  moreover have "page2pa (PPN (page2pa q OR (perm OR 0x743))) = page2pa q"
    using PTE_ADDR_or [OF at] by (simp add: PTE_ADDR_PPN [symmetric])
  ultimately show ?thesis using m mmu_page_view by (auto simp: mapped_to_def q simp del: pt_view.simps)
qed

lemma boot_map_list:
  assumes "boot_ok s pud" and "\<forall>i \<in> set is. no_block (mem s) pud (va + i)"
    and "unat (freemem s) + 8192 * length is < unat (maxpa s)" "unat (maxpa s) \<le> 2 ^ 52"
    and "distinct (map (\<lambda>i. va_slot (va + i)) is)"
  shows "\<exists>s'. kfor is (boot_map_page pud va pa perm) s = (Inr (), s') \<and> boot_keeps pud (2 * length is) s s' \<and>
    (\<forall>i \<in> set is. mapped_to (mem s') pud (va + i) (pa + i) perm) \<and>
    (\<forall>sl. is_slot sl \<longrightarrow> sl \<notin> (\<lambda>i. va_slot (va + i)) ` set is \<longrightarrow> pt_view (mem s') pud sl = pt_view (mem s) pud sl)"
  using assms
proof (induction "is" arbitrary: s)
  case Nil
  then show ?case using boot_keeps_refl by simp
next
  case (Cons i "is")
  from boot_map_page_step [of s pud va i pa perm] Cons.prems obtain s1 where
    1: "boot_map_page pud va pa perm i s = (Inr (), s1)" "boot_keeps pud 2 s s1"
    and t: "\<exists>t. tab (mem s1) pud (va_path (va + i)) = Some t"
    and v: "\<And>sl. is_slot sl \<Longrightarrow> pt_view (mem s1) pud sl =
      (if sl = va_slot (va + i) then pa + i OR (perm OR 0x743) else pt_view (mem s) pud sl)"
    by (auto simp del: pt_view.simps split_paired_All)
  note k = boot_keepsD [OF 1(2)]
  from Cons.IH [OF k(1)] k(3,5,6) Cons.prems obtain s2 where
    2: "kfor is (boot_map_page pud va pa perm) s1 = (Inr (), s2)" "boot_keeps pud (2 * length is) s1 s2"
    and i2: "\<And>j. j \<in> set is \<Longrightarrow> mapped_to (mem s2) pud (va + j) (pa + j) perm"
    and v2: "\<And>sl. is_slot sl \<Longrightarrow> sl \<notin> (\<lambda>i. va_slot (va + i)) ` set is \<Longrightarrow> pt_view (mem s2) pud sl = pt_view (mem s1) pud sl"
    by (auto simp del: pt_view.simps split_paired_All)
  have i: "va_slot (va + i) \<notin> (\<lambda>i. va_slot (va + i)) ` set is" using Cons.prems(5) by simp
  have "boot_keeps pud (2 * length (i # is)) s s2" using boot_keeps_trans [OF 1(2) 2(2)] by simp
  moreover have "\<exists>t. tab (mem s2) pud (va_path (va + i)) = Some t" using t boot_keepsD(7) [OF 2(2)] by fastforce
  then have "mapped_to (mem s2) pud (va + i) (pa + i) perm"
    using v2 [OF is_slot_va i] v [OF is_slot_va, of "va + i"] by (simp add: mapped_to_def del: pt_view.simps)
  ultimately show ?case using 1(1) 2(1) i2 v2 v
    by (intro exI [of _ s2]) (auto simp del: pt_view.simps split_paired_All)
qed

text \<open>The pages of a segment, and their slots.\<close>

lemma page_aligned_offset: "page_aligned a \<Longrightarrow> page_aligned (a + 4096 * word_of_nat i)"
  using page_aligned_push_bit [of "word_of_nat i"]
  by (intro page_aligned_add) (simp_all add: push_bit_eq_mult mult.commute)

lemma unat_page_offset:
  fixes va :: u64
  assumes "unat va + 4096 * n \<le> 2 ^ 39" and "i < n"
  shows "unat (va + 4096 * word_of_nat i) = unat va + 4096 * i"
proof -
  have "unat (4096 * word_of_nat i :: u64) = 4096 * i" using assms
    by (simp add: unat_word_ariths unat_of_nat take_bit_nat_eq_self)
  moreover have "unat va + 4096 * i < 2 ^ 64" using assms by simp
  ultimately show ?thesis by (simp add: unat_add_small)
qed

lemma va_slot_inj:
  assumes "page_aligned a" "page_aligned b" "unat a < 2 ^ 39" "unat b < 2 ^ 39" "va_slot a = va_slot b"
  shows "a = b"
proof -
  have "a < 2 ^ 39" "b < 2 ^ 39" using assms(3,4) by (simp_all add: word_less_nat_alt)
  then have "PPN a = PPN b" using va_slot_eq_iff assms(5) by blast
  then show ?thesis using page2pa_PPN [OF assms(1)] page2pa_PPN [OF assms(2)] by metis
qed

lemma page_offsets:
  assumes "unat va + 4096 * n \<le> 2 ^ 39" and "page_aligned va"
  shows "distinct (map (\<lambda>i. va_slot (va + i)) (map (push_bit 12) (counter 0 (word_of_nat n))))"
    "set (map (push_bit 12) (counter 0 (word_of_nat n))) = (\<lambda>i. 4096 * word_of_nat i) ` {..< n}"
proof -
  have n: "unat (word_of_nat n :: u64) = n" using assms(1) by (simp add: unat_of_nat take_bit_nat_eq_self)
  show "set (map (push_bit 12) (counter 0 (word_of_nat n))) = (\<lambda>i. 4096 * word_of_nat i) ` {..< n}"
    by (simp add: counter_def n push_bit_eq_mult image_image lessThan_atLeast0 mult.commute)
  have "inj_on (\<lambda>i. va_slot (va + 4096 * word_of_nat i)) {..< n}"
  proof (rule inj_onI)
    fix i j assume ij: "i \<in> {..< n}" "j \<in> {..< n}" "va_slot (va + 4096 * word_of_nat i) = va_slot (va + 4096 * word_of_nat j)"
    then have u: "unat (va + 4096 * word_of_nat i) = unat va + 4096 * i" "unat (va + 4096 * word_of_nat j) = unat va + 4096 * j"
      using unat_page_offset [OF assms(1)] by simp_all
    have "unat va + 4096 * i < 2 ^ 39" "unat va + 4096 * j < 2 ^ 39" using ij(1,2) assms(1) by auto
    then have "va + 4096 * word_of_nat i = va + 4096 * word_of_nat j"
      by (intro va_slot_inj page_aligned_offset assms(2) ij(3)) (simp_all only: u)
    from arg_cong [where f = unat, OF this] show "i = j" unfolding u by simp
  qed
  then show "distinct (map (\<lambda>i. va_slot (va + i)) (map (push_bit 12) (counter 0 (word_of_nat n))))"
    by (simp add: counter_def n distinct_map inj_on_def push_bit_eq_mult ac_simps)
qed

lemma boot_map_segment_maps:
  assumes ok: "boot_ok s pud" and len: "unat len = 4096 * n" and va: "page_aligned va" "unat va + unat len \<le> 2 ^ 39"
    and nb: "\<forall>i < n. no_block (mem s) pud (va + 4096 * word_of_nat i)"
    and room: "unat (freemem s) + 2 * unat len < unat (maxpa s)" "unat (maxpa s) \<le> 2 ^ 52"
  shows "\<exists>s'. boot_map_segment pud va len pa perm s = (Inr (), s') \<and> boot_keeps pud (2 * n) s s' \<and>
    (\<forall>i < n. mapped_to (mem s') pud (va + 4096 * word_of_nat i) (pa + 4096 * word_of_nat i) perm) \<and>
    (\<forall>sl. is_slot sl \<longrightarrow> (\<forall>i < n. sl \<noteq> va_slot (va + 4096 * word_of_nat i)) \<longrightarrow>
      pt_view (mem s') pud sl = pt_view (mem s) pud sl)"
proof -
  define ks :: "u64 list" where "ks = map (push_bit 12) (counter 0 (word_of_nat n))"
  have n: "unat (word_of_nat n :: u64) = n" "len div BY2PG = word_of_nat n" "len mod BY2PG = 0" "length ks = n"
    unfolding ks_def using len va(2)
    by (simp_all add: BY2PG_def word_unat_eq_iff unat_div unat_mod unat_of_nat take_bit_nat_eq_self counter_def)
  have offs: "distinct (map (\<lambda>i. va_slot (va + i)) ks)" "set ks = (\<lambda>i. 4096 * word_of_nat i) ` {..< n}"
    using page_offsets [of va n, OF _ va(1)] va(2) len unfolding ks_def by simp_all
  from boot_map_list [OF ok, of ks va pa perm] offs len nb room n(4) obtain s' where
    s': "kfor ks (boot_map_page pud va pa perm) s = (Inr (), s')" "boot_keeps pud (2 * n) s s'"
    and i: "\<forall>i \<in> set ks. mapped_to (mem s') pud (va + i) (pa + i) perm"
    and v: "\<forall>sl. is_slot sl \<longrightarrow> sl \<notin> (\<lambda>i. va_slot (va + i)) ` set ks \<longrightarrow> pt_view (mem s') pud sl = pt_view (mem s) pud sl"
    by (auto simp del: pt_view.simps split_paired_All)
  then show ?thesis using offs(2)
    by (intro exI [of _ s']) (auto simp: boot_map_segment_def n(2,3) ks_def [symmetric] simp del: pt_view.simps split_paired_All)
qed

text \<open>C13: \<^verbatim>\<open>boot_map_segment\<close> maps a segment. With memory left for the tables, the call returns; every
  page of the segment then translates to the page at the same offset from \<^verbatim>\<open>pa\<close>, with the asked
  permission; every other leaf of the directory, and all memory that is no table, is as before;
  the tables that were added took at most two pages for each page of the segment.
\<close>

theorem boot_map_segment_spec:
  assumes ok: "boot_ok s pud" and len: "unat len = 4096 * n" and va: "page_aligned va" "unat va + unat len \<le> 2 ^ 39"
    and pa: "page_aligned pa" and perm: "perm < 4096"
    and nb: "\<forall>i < n. no_block (mem s) pud (va + 4096 * word_of_nat i)"
    and room: "unat (freemem s) + 2 * unat len < unat (maxpa s)" "unat (maxpa s) \<le> 2 ^ 52"
  shows "\<exists>s'. boot_map_segment pud va len pa perm s = (Inr (), s') \<and> boot_keeps pud (2 * n) s s' \<and>
    (\<forall>i < n. mmu_page (mem s') pud (va + 4096 * word_of_nat i) = Some (pa + 4096 * word_of_nat i) \<and>
      pt_view (mem s') pud (va_slot (va + 4096 * word_of_nat i)) = pa + 4096 * word_of_nat i OR (perm OR 0x743)) \<and>
    (\<forall>sl. is_slot sl \<longrightarrow> (\<forall>i < n. sl \<noteq> va_slot (va + 4096 * word_of_nat i)) \<longrightarrow>
      pt_view (mem s') pud sl = pt_view (mem s) pud sl)"
proof -
  from boot_map_segment_maps [OF ok len va nb room, of pa perm] obtain s' where
    s': "boot_map_segment pud va len pa perm s = (Inr (), s')" "boot_keeps pud (2 * n) s s'"
    and i: "\<forall>i < n. mapped_to (mem s') pud (va + 4096 * word_of_nat i) (pa + 4096 * word_of_nat i) perm"
    and v: "\<forall>sl. is_slot sl \<longrightarrow> (\<forall>i < n. sl \<noteq> va_slot (va + 4096 * word_of_nat i)) \<longrightarrow>
      pt_view (mem s') pud sl = pt_view (mem s) pud sl" by blast
  from i have "mmu_page (mem s') pud (va + 4096 * word_of_nat i) = Some (pa + 4096 * word_of_nat i)" if "i < n" for i
    using that by (intro mapped_to_mmu [OF _ page_aligned_offset [OF pa] perm]) blast
  then show ?thesis using s' i v by (intro exI [of _ s']) (simp add: mapped_to_def del: pt_view.simps split_paired_All)
qed

text \<open>An instance: an empty directory at 0x1000, and memory from 0x2000 on.\<close>

definition boot_state :: kstate where
  "boot_state = reset_state\<lparr>freemem := 0x2000, maxpa := 0x40000000, npage := 0x40000, pg_dir := 0x1000\<rparr>"

lemma boot_state:
  "boot_ok boot_state 0x1000" "no_block (mem boot_state) 0x1000 va" "maxpa boot_state = 0x40000000"
  "freemem boot_state = 0x2000"
proof -
  have m: "mem boot_state = (\<lambda>_. 0)" by (simp add: boot_state_def reset_state_def)
  have l: "load64 (\<lambda>_. 0) a = 0" for a by (simp add: load64_def)
  show "boot_ok boot_state 0x1000"
    unfolding boot_ok_def m pt_inj_def is_tab_def zero_tab by (auto simp: boot_state_def page_aligned_def)
  show "no_block (mem boot_state) 0x1000 va" unfolding m by (simp add: no_block_def next_tab_def l ok_entry_def)
qed (simp_all add: boot_state_def)

lemma boot_map_segment_spec_witness:
  "\<exists>s'. boot_map_segment 0x1000 0x50000000 0x2000 0x80000 1 boot_state = (Inr (), s') \<and>
    mmu_page (mem s') 0x1000 0x50000000 = Some 0x80000 \<and> mmu_page (mem s') 0x1000 0x50001000 = Some 0x81000"
proof -
  from boot_map_segment_spec [of boot_state "0x1000" "0x2000" 2 "0x50000000" "0x80000" 1] boot_state obtain s' where
    "boot_map_segment 0x1000 0x50000000 0x2000 0x80000 1 boot_state = (Inr (), s')"
    and "\<And>i. i < 2 \<Longrightarrow> mmu_page (mem s') 0x1000 (0x50000000 + 4096 * word_of_nat i) = Some (0x80000 + 4096 * word_of_nat i)"
    by (auto simp: page_aligned_def simp del: pt_view.simps split_paired_All)
  from this(1) this(2) [of 0] this(2) [of 1] show ?thesis by simp
qed

subsection \<open>\<open>aarch64_vm_init\<close>\<close>

text \<open>What the steps of \<open>aarch64_vm_init\<close> keep: the tables, the leaves outside the addresses \<open>V\<close>
  that the step maps, and the pages that are neither free nor tables; at most \<open>n\<close> bytes of memory are
  taken.\<close>

definition vm_step :: "u64 \<Rightarrow> u64 set \<Rightarrow> nat \<Rightarrow> kstate \<Rightarrow> kstate \<Rightarrow> bool" where
  "vm_step pud V n s s' \<longleftrightarrow> boot_ok s' pud \<and> maxpa s' = maxpa s \<and> npage s' = npage s \<and> pg_dir s' = pg_dir s \<and>
     freemem s \<le> freemem s' \<and> unat (freemem s') \<le> unat (freemem s) + n \<and>
     (\<forall>va. no_block (mem s) pud va \<longrightarrow> no_block (mem s') pud va) \<and>
     (\<forall>q t. is_path q \<longrightarrow> tab (mem s) pud q = Some t \<longrightarrow> tab (mem s') pud q = Some t) \<and>
     (\<forall>sl. is_slot sl \<longrightarrow> sl \<notin> va_slot ` V \<longrightarrow> pt_view (mem s') pud sl = pt_view (mem s) pud sl) \<and>
     (\<forall>t. is_tab (mem s') pud t \<longrightarrow> is_tab (mem s) pud t \<or> freemem s \<le> t) \<and>
     (\<forall>t c. page_aligned t \<longrightarrow> c < 512 \<longrightarrow> t < freemem s \<longrightarrow> \<not> is_tab (mem s) pud t \<longrightarrow>
        load64 (mem s') (entry t c) = load64 (mem s) (entry t c))"

lemma vm_step_trans:
  assumes 1: "vm_step pud V n s s1" and 2: "vm_step pud W k s1 s2"
  shows "vm_step pud (V \<union> W) (n + k) s s2"
proof -
  have le: "freemem s \<le> freemem s1" using 1 by (simp add: vm_step_def)
  have t: "is_tab (mem s) pud t \<or> freemem s \<le> t" if "is_tab (mem s2) pud t" for t
    using that 1 2 le unfolding vm_step_def by (blast intro: order.trans)
  have m: "load64 (mem s2) (entry t c) = load64 (mem s) (entry t c)"
    if "page_aligned t" "c < 512" "t < freemem s" "\<not> is_tab (mem s) pud t" for t c
  proof -
    have "\<not> is_tab (mem s1) pud t" using 1 that(3,4) unfolding vm_step_def by (auto simp: not_le [symmetric])
    moreover have "t < freemem s1" using that(3) le by (rule order.strict_trans2)
    ultimately show ?thesis using 1 2 that unfolding vm_step_def by simp
  qed
  show ?thesis using 1 2 t m unfolding vm_step_def
    by (simp add: image_Un del: pt_view.simps split_paired_All) (auto intro: order.trans)
qed

text \<open>The \<open>n\<close> pages from \<open>a\<close> on hold zeros, and are neither free nor tables.\<close>

definition zero_pages :: "kstate \<Rightarrow> u64 \<Rightarrow> u64 \<Rightarrow> nat \<Rightarrow> bool" where
  "zero_pages s pud a n \<longleftrightarrow> (\<forall>i < n. a + 4096 * word_of_nat i < freemem s \<and>
     \<not> is_tab (mem s) pud (a + 4096 * word_of_nat i) \<and>
     (\<forall>c < 512. load64 (mem s) (entry (a + 4096 * word_of_nat i) c) = 0))"

lemma zero_pages_step:
  assumes z: "zero_pages s pud a n" and st: "vm_step pud V k s s'" and a: "page_aligned a"
  shows "zero_pages s' pud a n"
  unfolding zero_pages_def
proof (intro allI impI)
  fix i assume i: "i < n"
  let ?t = "a + 4096 * word_of_nat i"
  have t: "?t < freemem s" "\<not> is_tab (mem s) pud ?t" "\<forall>c < 512. load64 (mem s) (entry ?t c) = 0" "page_aligned ?t"
    using z i page_aligned_offset [OF a] by (auto simp: zero_pages_def)
  have "\<not> is_tab (mem s') pud ?t" using t(1,2) st unfolding vm_step_def by (auto simp: not_le [symmetric])
  moreover have "?t < freemem s'" using t(1) st unfolding vm_step_def by (auto intro: order.strict_trans2)
  ultimately show "?t < freemem s' \<and> \<not> is_tab (mem s') pud ?t \<and> (\<forall>c < 512. load64 (mem s') (entry ?t c) = 0)"
    using t st unfolding vm_step_def by simp
qed

lemma mapped_to_step:
  "mapped_to (mem s) pud va pa perm \<Longrightarrow> vm_step pud V n s s' \<Longrightarrow> va_slot va \<notin> va_slot ` V \<Longrightarrow>
    mapped_to (mem s') pud va pa perm"
  by (auto simp: mapped_to_def vm_step_def simp del: pt_view.simps split_paired_All)

lemma entry_below:
  assumes "page_aligned t" "page_aligned f" "t < f" "c < 512" "k < 8"
  shows "entry t c + k < f"
proof -
  obtain x y where xy: "unat t = 4096 * x" "unat f = 4096 * y" using assms(1,2) unfolding page_aligned_def dvd_def by blast
  have i: "unat c < 512" "unat k < 8" "4096 * x < 4096 * y" using assms(3-5) xy by (simp_all add: word_less_nat_alt)
  then have "x + 1 \<le> y" by simp
  then have "4096 * (x + 1) \<le> 4096 * y" by (rule mult_le_mono2)
  then have "4096 * x + 8 * unat c + unat k < 4096 * y" using i by simp
  moreover have "4096 * y < 2 ^ 64" using unat64_less [of f] xy by simp
  ultimately show ?thesis using unat_entry [OF assms(1,4)] xy by (simp add: word_less_nat_alt unat_add_small)
qed

lemma not_in_block_below: "x < b \<Longrightarrow> unat b + unat n < 2 ^ 64 \<Longrightarrow> \<not> in_block b n x"
  by (simp add: in_block_def word_less_nat_alt unat_sub_if')

lemma boot_alloc_step:
  assumes ok: "boot_ok s pud" and n: "page_aligned n"
    and room: "unat (freemem s) + unat n < unat (maxpa s)" "unat (maxpa s) \<le> 2 ^ 60"
  shows "\<exists>s'. boot_alloc n BY2PG True s = (Inr (freemem s), s') \<and> vm_step pud {} (unat n) s s' \<and>
    s' = s\<lparr>mem := zeroed (mem s) (freemem s) n, freemem := freemem s + n\<rparr> \<and>
    (\<forall>t. is_tab (mem s') pud t = is_tab (mem s) pud t)"
proof -
  let ?m = "zeroed (mem s) (freemem s) n"
  have al: "page_aligned (freemem s)" "page_aligned pud" and below: "\<And>t. is_tab (mem s) pud t \<Longrightarrow> t < freemem s"
    using ok by (auto simp: boot_ok_def)
  have up: "unat (freemem s + n) = unat (freemem s) + unat n" using room by (simp add: unat_add_small)
  have old: "load64 ?m (entry t c) = load64 (mem s) (entry t c)"
    if "page_aligned t" "t < freemem s" "c < 512" for t c
  proof (rule load64_eqI)
    fix k :: u64 assume "k < 8"
    with that have "entry t c + k < freemem s" using al(1) by (intro entry_below)
    then have "\<not> in_block (freemem s) n (entry t c + k)" using room by (intro not_in_block_below) simp_all
    then show "?m (entry t c + k) = mem s (entry t c + k)" by (simp add: zeroed_def)
  qed
  have "load64 ?m (entry t c) = load64 (mem s) (entry t c)" if "is_tab (mem s) pud t" "c < 512" for t c
  proof -
    have "page_aligned t" using that(1) tab_aligned [OF al(2)] by (auto simp: is_tab_def)
    then show ?thesis using old that below by simp
  qed
  note fr = tables_frame [where m = "mem s" and m' = ?m and pud = pud, OF this]
  have le: "freemem s \<le> freemem s + n" by (simp add: word_le_nat_alt up)
  have below2: "t < freemem s + n" if "is_tab (mem s) pud t" for t using below [OF that] le by (rule order.strict_trans2)
  have "vm_step pud {} (unat n) s (s\<lparr>freemem := freemem s + n, mem := ?m\<rparr>)"
    using ok fr below up n old unfolding vm_step_def boot_ok_def
    by (auto simp: pt_inj_def page_aligned_add le simp del: pt_view.simps split_paired_All dest: below2)
  then show ?thesis using boot_alloc_eq [OF al(1) room] fr(2)
    by (intro exI [of _ "s\<lparr>freemem := freemem s + n, mem := ?m\<rparr>"]) simp
qed

lemma fresh_zero:
  assumes ok: "boot_ok s pud" and n: "unat n = 4096 * k"
    and room: "unat (freemem s) + unat n < unat (maxpa s)" "unat (maxpa s) \<le> 2 ^ 60"
  shows "zero_pages (s\<lparr>mem := zeroed (mem s) (freemem s) n, freemem := freemem s + n\<rparr>) pud (freemem s) k"
  unfolding zero_pages_def
proof (intro allI impI)
  fix i assume i: "i < k"
  let ?s = "s\<lparr>mem := zeroed (mem s) (freemem s) n, freemem := freemem s + n\<rparr>" and ?t = "freemem s + 4096 * word_of_nat i"
  have "page_aligned n" using n by (simp add: page_aligned_def)
  from boot_alloc_step [OF ok this room] have st: "is_tab (mem ?s) pud x = is_tab (mem s) pud x" for x by auto
  have w: "unat (4096 * word_of_nat i :: u64) = 4096 * i" using i n unat64_less [of n]
    by (simp add: unat_word_ariths unat_of_nat take_bit_nat_eq_self)
  then have t: "unat ?t = unat (freemem s) + 4096 * i" using i n room by (simp add: unat_add_small)
  have ts: "is_tab (mem s) pud x \<Longrightarrow> x < freemem s" for x using ok by (simp add: boot_ok_def)
  have up: "unat (freemem s + n) = unat (freemem s) + unat n" using room by (simp add: unat_add_small)
  have "?t < freemem ?s" using t up i n by (simp add: word_less_nat_alt)
  moreover have "\<not> is_tab (mem ?s) pud ?t" using ts [of ?t] st [of ?t] t by (auto simp: word_less_nat_alt)
  moreover have "load64 (mem ?s) (entry ?t c) = 0" if "c < 512" for c
  proof -
    have c: "unat (8 * c) = 8 * unat c" "unat c < 512" using that by (simp_all add: unat_word_ariths word_less_nat_alt)
    have "unat (4096 * word_of_nat i + 8 * c) = 4096 * i + 8 * unat c"
      using w c i n unat64_less [of n] by (subst unat_add_small) simp_all
    then have "load64 (mem ?s) (freemem s + (4096 * word_of_nat i + 8 * c)) = 0"
      using c i n by (simp add: load64_zeroed)
    then show ?thesis by (simp add: entry_def add.assoc)
  qed
  ultimately show "?t < freemem ?s \<and> \<not> is_tab (mem ?s) pud ?t \<and> (\<forall>c < 512. load64 (mem ?s) (entry ?t c) = 0)" by simp
qed

text \<open>A block of fresh memory is mapped at \<open>va\<close>; \<open>F\<close> stands for the variables the caller sets in between.\<close>

lemma alloc_map:
  assumes ok: "boot_ok s pud" and pud: "pg_dir s = pud" and n: "unat n = 4096 * k"
    and va: "page_aligned va" "unat va + unat n \<le> 2 ^ 39"
    and nb: "\<forall>i < k. no_block (mem s) pud (va + 4096 * word_of_nat i)"
    and room: "unat (freemem s) + 3 * unat n < unat (maxpa s)" "unat (maxpa s) \<le> 2 ^ 52"
    and F: "\<And>a s. mem (F a s) = mem s \<and> freemem (F a s) = freemem s" "\<And>a s. maxpa (F a s) = maxpa s \<and> npage (F a s) = npage s \<and> pg_dir (F a s) = pg_dir s"
  shows "\<exists>m f. let s' = (F (freemem s) (s\<lparr>mem := zeroed (mem s) (freemem s) n, freemem := freemem s + n\<rparr>))
      \<lparr>mem := m, freemem := f\<rparr> in
    kbind (boot_alloc n BY2PG True) (\<lambda>a s. boot_map_segment (pg_dir (F a s)) va n a PTE_V (F a s)) s = (Inr (), s') \<and>
    freemem s + n \<le> f \<and>
    vm_step pud ((\<lambda>i. va + 4096 * word_of_nat i) ` {..< k}) (3 * unat n) s s' \<and> zero_pages s' pud (freemem s) k \<and>
    (\<forall>i < k. mapped_to m pud (va + 4096 * word_of_nat i) (freemem s + 4096 * word_of_nat i) PTE_V)"
proof -
  have "page_aligned n" using n by (simp add: page_aligned_def)
  from boot_alloc_step [OF ok this] room obtain s1 where
    1: "boot_alloc n BY2PG True s = (Inr (freemem s), s1)" "vm_step pud {} (unat n) s s1" "freemem s1 = freemem s + n"
      "mem s1 = zeroed (mem s) (freemem s) n"
    and s1: "s1 = s\<lparr>mem := zeroed (mem s) (freemem s) n, freemem := freemem s + n\<rparr>" by auto
  have z1: "zero_pages s1 pud (freemem s) k" unfolding s1 using ok n room by (intro fresh_zero) simp_all
  define s2 where "s2 = F (freemem s) s1"
  have f2: "mem s2 = mem s1" "freemem s2 = freemem s1" using F(1) by (simp_all add: s2_def)
  have f2': "maxpa s2 = maxpa s1" "npage s2 = npage s1" "pg_dir s2 = pg_dir s1" using F(2) by (simp_all add: s2_def)
  have up: "unat (freemem s1) = unat (freemem s) + unat n" using 1(3) room by (simp add: unat_add_small)
  have ok2: "boot_ok s2 pud" "\<forall>i < k. no_block (mem s2) pud (va + 4096 * word_of_nat i)"
    "unat (freemem s2) + 2 * unat n < unat (maxpa s2)" "unat (maxpa s2) \<le> 2 ^ 52"
    using 1(2) nb room up by (simp_all add: f2 f2' vm_step_def boot_ok_def)
  from boot_map_segment_maps [OF ok2(1) n va ok2(2-4), of "freemem s" PTE_V] obtain s3 where
    3: "boot_map_segment pud va n (freemem s) PTE_V s2 = (Inr (), s3)" "boot_keeps pud (2 * k) s2 s3"
    and m: "\<forall>i < k. mapped_to (mem s3) pud (va + 4096 * word_of_nat i) (freemem s + 4096 * word_of_nat i) PTE_V"
    and v: "\<forall>sl. is_slot sl \<longrightarrow> (\<forall>i < k. sl \<noteq> va_slot (va + 4096 * word_of_nat i)) \<longrightarrow>
      pt_view (mem s3) pud sl = pt_view (mem s2) pud sl" by blast
  have s3: "s3 = (F (freemem s) (s\<lparr>mem := zeroed (mem s) (freemem s) n, freemem := freemem s + n\<rparr>))\<lparr>mem := mem s3, freemem := freemem s3\<rparr>"
    using boot_keepsD(2) [OF 3(2)] unfolding s2_def s1 [symmetric] .
  have f3: "maxpa s3 = maxpa s2 \<and> npage s3 = npage s2 \<and> pg_dir s3 = pg_dir s2" using boot_keepsD(3,10,11) [OF 3(2)] by simp
  have kept: "load64 (mem s3) (entry t c) = load64 (mem s1) (entry t c)"
    if "page_aligned t" "c < 512" "t < freemem s1" "\<not> is_tab (mem s1) pud t" for t c
  proof -
    have "\<not> is_tab (mem s3) pud t" using boot_keepsD(12) [OF 3(2), of t] that(3,4) by (auto simp: f2 not_le [symmetric])
    then show ?thesis using boot_keepsD(9) [OF 3(2) that(1,2)] by (simp add: f2)
  qed
  have st3: "vm_step pud ((\<lambda>i. va + 4096 * word_of_nat i) ` {..< k}) (8192 * k) s1 s3"
    unfolding vm_step_def using boot_keepsD(1,4,5,6,7,12) [OF 3(2)] f3 v kept
    by (simp add: f2 f2' image_image del: pt_view.simps split_paired_All) blast
  then have st: "vm_step pud ((\<lambda>i. va + 4096 * word_of_nat i) ` {..< k}) (3 * unat n) s s3"
    using vm_step_trans [OF 1(2)] n by fastforce
  have z: "zero_pages s3 pud (freemem s) k" using ok by (intro zero_pages_step [OF z1 st3]) (simp add: boot_ok_def)
  have "pg_dir s2 = pud" using f2'(3) 1(2) pud by (simp add: vm_step_def)
  then have "kbind (boot_alloc n BY2PG True) (\<lambda>a s. boot_map_segment (pg_dir (F a s)) va n a PTE_V (F a s)) s = (Inr (), s3)"
    using 1(1) 3(1) by (simp add: s2_def)
  then show ?thesis using s3 st m z boot_keepsD(4) [OF 3(2)] 1(3) f2(2)
    by (intro exI [of _ "mem s3"] exI [of _ "freemem s3"]) (simp add: Let_def)
qed

text \<open>The variables that the four parts set, in the shape of \<open>alloc_map\<close>.\<close>

definition set_pages :: "u64 \<Rightarrow> kstate \<Rightarrow> kstate" where
  "set_pages a s = kprintf (''to memory %x for struct Pages.'' @ [CHR 0x0A]) [VA_num (freemem s)]
     (page_array a s)"

definition set_envs :: "u64 \<Rightarrow> kstate \<Rightarrow> kstate" where
  "set_envs a s = kprintf (''to memory %x for struct Envs.'' @ [CHR 0x0A]) [VA_num (freemem s)]
     (env_array a s)"

definition set_timestack :: "u64 \<Rightarrow> kstate \<Rightarrow> kstate" where
  "set_timestack a s = kprintf (''to memory %x for TIMESTACK.'' @ [CHR 0x0A]) [VA_num (freemem s)]
     (s\<lparr>timestack_tf := trapframe_at (mem s) a (BY2PG - 280)\<rparr>)"

definition set_kernel_sp :: "u64 \<Rightarrow> kstate \<Rightarrow> kstate" where
  "set_kernel_sp a s = kprintf (''to memory %x for KERNEL SP.'' @ [CHR 0x0A]) [VA_num (freemem s)]
     (s\<lparr>kernel_tf := trapframe_at (mem s) a (BY2PG - 280)\<rparr>)"

lemmas set_defs = set_pages_def set_envs_def set_timestack_def set_kernel_sp_def kprintf_eq

lemma array_fields [simp]:
  "mem (page_array a s) = mem s" "freemem (page_array a s) = freemem s" "maxpa (page_array a s) = maxpa s"
  "npage (page_array a s) = npage s" "pg_dir (page_array a s) = pg_dir s" "pages (page_array a s) = a"
  "mem (env_array a s) = mem s" "freemem (env_array a s) = freemem s" "maxpa (env_array a s) = maxpa s"
  "npage (env_array a s) = npage s" "pg_dir (env_array a s) = pg_dir s" "envs_ptr (env_array a s) = a"
  by (simp_all add: page_array_def env_array_def)

text \<open>On memory that has just been cleared.\<close>

lemma set_zeroed:
  fixes s :: kstate
  defines "z n \<equiv> s\<lparr>mem := zeroed (mem s) (freemem s) n, freemem := freemem s + n\<rparr>"
  shows "npage s = 0x40000 \<Longrightarrow> set_pages (freemem s) (z 0x600000) =
      kprintf (''to memory %x for struct Pages.'' @ [CHR 0x0A]) [VA_num (freemem s + 0x600000)]
        ((z 0x600000)\<lparr>pages := freemem s, pp_ref := (\<lambda>_. 0), page_q := unlinked (page_q s)\<rparr>)"
    "set_envs (freemem s) (z 0x68000) =
      kprintf (''to memory %x for struct Envs.'' @ [CHR 0x0A]) [VA_num (freemem s + 0x68000)]
        ((z 0x68000)\<lparr>envs_ptr := freemem s, envs := (\<lambda>_. reset_env), env_q := unlinked (env_q s),
          sched_q := unlinked (sched_q s)\<rparr>)"
    "set_timestack (freemem s) (z 0x1000) =
      kprintf (''to memory %x for TIMESTACK.'' @ [CHR 0x0A]) [VA_num (freemem s + 0x1000)] ((z 0x1000)\<lparr>timestack_tf := reset_tf\<rparr>)"
    "set_kernel_sp (freemem s) (z 0x1000) =
      kprintf (''to memory %x for KERNEL SP.'' @ [CHR 0x0A]) [VA_num (freemem s + 0x1000)] ((z 0x1000)\<lparr>kernel_tf := reset_tf\<rparr>)"
proof -
  have t: "trapframe_at (zeroed m a 0x1000) a (BY2PG - 280) = reset_tf" for m a
    using trapframe_zeroed [of m a] by (simp add: BY2PG_def)
  show "npage s = 0x40000 \<Longrightarrow> set_pages (freemem s) (z 0x600000) =
      kprintf (''to memory %x for struct Pages.'' @ [CHR 0x0A]) [VA_num (freemem s + 0x600000)]
        ((z 0x600000)\<lparr>pages := freemem s, pp_ref := (\<lambda>_. 0), page_q := unlinked (page_q s)\<rparr>)"
    using page_array_zeroed [of "z 0x600000" "mem s" "freemem s"] by (simp add: set_pages_def z_def)
  show "set_envs (freemem s) (z 0x68000) =
      kprintf (''to memory %x for struct Envs.'' @ [CHR 0x0A]) [VA_num (freemem s + 0x68000)]
        ((z 0x68000)\<lparr>envs_ptr := freemem s, envs := (\<lambda>_. reset_env), env_q := unlinked (env_q s),
          sched_q := unlinked (sched_q s)\<rparr>)"
    using env_array_zeroed [of "z 0x68000" "mem s" "freemem s"] by (simp add: set_envs_def z_def)
  show "set_timestack (freemem s) (z 0x1000) =
      kprintf (''to memory %x for TIMESTACK.'' @ [CHR 0x0A]) [VA_num (freemem s + 0x1000)] ((z 0x1000)\<lparr>timestack_tf := reset_tf\<rparr>)"
    by (simp add: set_timestack_def z_def t)
  show "set_kernel_sp (freemem s) (z 0x1000) =
      kprintf (''to memory %x for KERNEL SP.'' @ [CHR 0x0A]) [VA_num (freemem s + 0x1000)] ((z 0x1000)\<lparr>kernel_tf := reset_tf\<rparr>)"
    by (simp add: set_kernel_sp_def z_def t)
qed

lemma set_fields [simp]:
  "mem (set_pages a s) = mem s" "freemem (set_pages a s) = freemem s" "maxpa (set_pages a s) = maxpa s"
  "npage (set_pages a s) = npage s" "pg_dir (set_pages a s) = pg_dir s"
  "mem (set_envs a s) = mem s" "freemem (set_envs a s) = freemem s" "maxpa (set_envs a s) = maxpa s"
  "npage (set_envs a s) = npage s" "pg_dir (set_envs a s) = pg_dir s"
  "mem (set_timestack a s) = mem s" "freemem (set_timestack a s) = freemem s" "maxpa (set_timestack a s) = maxpa s"
  "npage (set_timestack a s) = npage s" "pg_dir (set_timestack a s) = pg_dir s"
  "mem (set_kernel_sp a s) = mem s" "freemem (set_kernel_sp a s) = freemem s" "maxpa (set_kernel_sp a s) = maxpa s"
  "npage (set_kernel_sp a s) = npage s" "pg_dir (set_kernel_sp a s) = pg_dir s"
  by (simp_all add: set_defs)

lemma map_eqs:
  "map_envs s = kbind (boot_alloc 0x68000 BY2PG True) (\<lambda>a s.
     boot_map_segment (pg_dir (set_envs a s)) UENVS 0x68000 a PTE_V (set_envs a s)) s"
  "map_timestack s = kbind (boot_alloc 0x1000 BY2PG True) (\<lambda>a s.
     boot_map_segment (pg_dir (set_timestack a s)) 0x51FFF000 0x1000 a PTE_V (set_timestack a s)) s"
  "map_kernel_sp s = kbind (boot_alloc 0x1000 BY2PG True) (\<lambda>a s.
     boot_map_segment (pg_dir (set_kernel_sp a s)) 0x51FFE000 0x1000 a PTE_V (set_kernel_sp a s)) s"
  by (simp_all add: map_envs_def map_timestack_def map_kernel_sp_def set_defs Let_def ROUND_def NENV_def LOG2NENV_def BY2PG_def
    TIMESTACK_def KERNEL_SP_def)

lemma map_pages_eq:
  assumes ok: "boot_ok s pud" and n: "npage s = 0x40000" and room: "unat (freemem s) + 0x600000 < unat (maxpa s)" "unat (maxpa s) \<le> 2 ^ 52"
  shows "map_pages s = kbind (boot_alloc 0x600000 BY2PG True) (\<lambda>a s.
     boot_map_segment (pg_dir (set_pages a s)) UPAGES 0x600000 a PTE_V (set_pages a s)) s"
proof -
  from boot_alloc_step [OF ok, of "0x600000"] room obtain s1 where
    "boot_alloc 0x600000 BY2PG True s = (Inr (freemem s), s1)" "npage s1 = npage s" by (auto simp: page_aligned_def vm_step_def)
  then show ?thesis using n by (simp add: map_pages_def Let_def set_pages_def ROUND_def BY2PG_def kprintf_eq)
qed

text \<open>The pages of a region, and that regions that lie apart share no slot.\<close>

definition region :: "u64 \<Rightarrow> nat \<Rightarrow> u64 set" where
  "region va n = (\<lambda>i. va + 4096 * word_of_nat i) ` {..< n}"

lemma slot_apart:
  assumes "page_aligned a" "page_aligned b" "unat a + 4096 * n \<le> 2 ^ 39" "unat b + 4096 * k \<le> 2 ^ 39" "i < n"
    and "unat a + 4096 * n \<le> unat b \<or> unat b + 4096 * k \<le> unat a"
  shows "va_slot (a + 4096 * word_of_nat i) \<notin> va_slot ` region b k"
proof
  assume "va_slot (a + 4096 * word_of_nat i) \<in> va_slot ` region b k"
  then obtain j where j: "j < k" "va_slot (a + 4096 * word_of_nat i) = va_slot (b + 4096 * word_of_nat j)"
    by (auto simp: region_def)
  have u: "unat (a + 4096 * word_of_nat i) = unat a + 4096 * i" "unat (b + 4096 * word_of_nat j) = unat b + 4096 * j"
    using unat_page_offset [OF assms(3,5)] unat_page_offset [OF assms(4) j(1)] by simp_all
  have "unat a + 4096 * i < 2 ^ 39" "unat b + 4096 * j < 2 ^ 39" using assms(3-5) j(1) by simp_all
  then have "a + 4096 * word_of_nat i = b + 4096 * word_of_nat j"
    by (intro va_slot_inj page_aligned_offset assms(1,2) j(2)) (simp_all only: u)
  from arg_cong [where f = unat, OF this] show False unfolding u using assms(5,6) j(1) by linarith
qed

lemma region_range:
  assumes "unat b + 4096 * k \<le> 2 ^ 39" and "va \<in> region b k"
  shows "unat b \<le> unat va \<and> unat va < unat b + 4096 * k"
  using assms unat_page_offset [OF assms(1)] by (auto simp: region_def)

definition maps_region :: "memory \<Rightarrow> u64 \<Rightarrow> u64 \<Rightarrow> u64 \<Rightarrow> nat \<Rightarrow> bool" where
  "maps_region m pud va pa n \<longleftrightarrow> (\<forall>i < n. mapped_to m pud (va + 4096 * word_of_nat i) (pa + 4096 * word_of_nat i) PTE_V)"

lemma maps_region_step:
  assumes "maps_region (mem s) pud a pa n" "vm_step pud (region b k) c s s'"
    and "page_aligned a" "page_aligned b" "unat a + 4096 * n \<le> 2 ^ 39" "unat b + 4096 * k \<le> 2 ^ 39"
    and "unat a + 4096 * n \<le> unat b \<or> unat b + 4096 * k \<le> unat a"
  shows "maps_region (mem s') pud a pa n"
  using assms(1) mapped_to_step [OF _ assms(2) slot_apart [OF assms(3-6) _ assms(7)]] by (simp add: maps_region_def)

lemma maps_region_mmu:
  assumes "maps_region m pud va pa n" "page_aligned pa" "i < n"
  shows "mmu_page m pud (va + 4096 * word_of_nat i) = Some (pa + 4096 * word_of_nat i)"
  using assms by (intro mapped_to_mmu page_aligned_offset) (auto simp: maps_region_def PTE_V_def)

text \<open>The state between the parts: what each of them needs.\<close>

definition vm_ready :: "u64 \<Rightarrow> nat \<Rightarrow> kstate \<Rightarrow> bool" where
  "vm_ready pud k s \<longleftrightarrow> boot_ok s pud \<and> pg_dir s = pud \<and> npage s = 0x40000 \<and> maxpa s = 0x40000000 \<and>
     unat (freemem s) \<le> k \<and> (\<forall>va. 0x50000000 \<le> va \<and> va < 0x52000000 \<longrightarrow> no_block (mem s) pud va)"

lemma vm_ready_step: "vm_ready pud k s \<Longrightarrow> vm_step pud V n s s' \<Longrightarrow> vm_ready pud (k + n) s'"
  by (auto simp: vm_ready_def vm_step_def)

lemma vm_ready_log [simp]: "vm_ready pud k (log e s) = vm_ready pud k s"
  by (simp add: vm_ready_def boot_ok_def)

lemma vm_part:
  assumes s: "vm_ready pud k s" "k + 3 * unat n < 0x40000000" and n: "unat n = 4096 * c" "0 < c"
    and va: "page_aligned va" "0x50000000 \<le> unat va" "unat va + 4096 * c \<le> 0x52000000"
    and F: "\<And>a s. mem (F a s) = mem s \<and> freemem (F a s) = freemem s"
      "\<And>a s. maxpa (F a s) = maxpa s \<and> npage (F a s) = npage s \<and> pg_dir (F a s) = pg_dir s"
    and p: "part s = kbind (boot_alloc n BY2PG True) (\<lambda>a s. boot_map_segment (pg_dir (F a s)) va n a PTE_V (F a s)) s"
  shows "\<exists>m f. let s' = (F (freemem s) (s\<lparr>mem := zeroed (mem s) (freemem s) n, freemem := freemem s + n\<rparr>))
      \<lparr>mem := m, freemem := f\<rparr> in
    part s = (Inr (), s') \<and> unat (freemem s) + unat n \<le> unat (freemem s') \<and> vm_step pud (region va c) (3 * unat n) s s' \<and>
    vm_ready pud (k + 3 * unat n) s' \<and> maps_region (mem s') pud va (freemem s) c \<and> zero_pages s' pud (freemem s) c"
proof -
  have r: "boot_ok s pud" "pg_dir s = pud" "maxpa s = 0x40000000" "unat (freemem s) \<le> k"
    and nb: "\<And>va. 0x50000000 \<le> va \<Longrightarrow> va < 0x52000000 \<Longrightarrow> no_block (mem s) pud va"
    using s(1) by (auto simp: vm_ready_def)
  have b: "\<forall>i < c. no_block (mem s) pud (va + 4096 * word_of_nat i)"
    using unat_page_offset [of va c] va by (auto intro!: nb simp: word_le_nat_alt word_less_nat_alt)
  have c: "unat va + unat n \<le> 2 ^ 39" "unat (freemem s) + 3 * unat n < unat (maxpa s)" "unat (maxpa s) \<le> 2 ^ 52"
    using va(3) n(1) r(3,4) s(2) by simp_all
  from alloc_map [where F = F, OF r(1,2) n(1) va(1) c(1) b c(2,3) F] obtain m f where
    "let s' = (F (freemem s) (s\<lparr>mem := zeroed (mem s) (freemem s) n, freemem := freemem s + n\<rparr>))\<lparr>mem := m, freemem := f\<rparr> in
      part s = (Inr (), s') \<and> freemem s + n \<le> f \<and> vm_step pud (region va c) (3 * unat n) s s' \<and>
      zero_pages s' pud (freemem s) c \<and> maps_region m pud va (freemem s) c" unfolding p maps_region_def region_def by blast
  moreover have "unat (freemem s + n) = unat (freemem s) + unat n" using r(4) s(2) by (simp add: unat_add_small)
  ultimately show ?thesis using vm_ready_step [OF s(1)]
    by (intro exI [of _ m] exI [of _ f]) (auto simp: Let_def word_le_nat_alt)
qed

text \<open>The variables that no part of \<open>aarch64_vm_init\<close> sets, and the list heads.\<close>

definition heads_kept :: "kstate \<Rightarrow> kstate \<Rightarrow> bool" where
  "heads_kept s s' \<longleftrightarrow> curenv s' = curenv s \<and> sched_pos s' = sched_pos s \<and> next_env_id s' = next_env_id s \<and>
     env_q s' = unlinked (env_q s) \<and> sched_q s' = unlinked (sched_q s)"

lemma vm_parts:
  assumes s: "vm_ready pud 0x20000000 s"
  shows "\<exists>s1 s2 s3 s4. map_pages s = (Inr (), s1) \<and> map_envs s1 = (Inr (), s2) \<and> map_timestack s2 = (Inr (), s3) \<and>
    map_kernel_sp s3 = (Inr (), s4) \<and>
    vm_step pud (region UPAGES 1536 \<union> (region UENVS 104 \<union> (region 0x51FFF000 1 \<union> region 0x51FFE000 1))) 0x133E000 s s4 \<and>
    unat (freemem s) + 0x600000 \<le> unat (freemem s1) \<and> unat (freemem s1) + 0x68000 \<le> unat (freemem s2) \<and>
    unat (freemem s2) + 0x1000 \<le> unat (freemem s3) \<and> unat (freemem s3) + 0x1000 \<le> unat (freemem s4) \<and>
    (\<forall>x \<in> {s1, s2, s3, s4}. page_aligned (freemem x)) \<and> heads_kept s s4 \<and> pages s4 = freemem s \<and> envs_ptr s4 = freemem s1 \<and> pp_ref s4 = (\<lambda>_. 0) \<and> envs s4 = (\<lambda>_. reset_env) \<and>
    page_q s4 = unlinked (page_q s) \<and> timestack_tf s4 = reset_tf \<and> kernel_tf s4 = reset_tf \<and>
    zero_pages s4 pud (freemem s) 1536 \<and> zero_pages s4 pud (freemem s1) 104 \<and>
    zero_pages s4 pud (freemem s2) 1 \<and> zero_pages s4 pud (freemem s3) 1 \<and>
    maps_region (mem s4) pud UPAGES (freemem s) 1536 \<and> maps_region (mem s4) pud UENVS (freemem s1) 104 \<and>
    maps_region (mem s4) pud 0x51FFF000 (freemem s2) 1 \<and> maps_region (mem s4) pud 0x51FFE000 (freemem s3) 1"
proof -
  have al: "page_aligned 0x51FFF000" "page_aligned 0x51FFE000" "page_aligned UPAGES" "page_aligned UENVS"
    "unat UPAGES = 0x50000000" "unat UENVS = 0x51000000" by (simp_all add: page_aligned_def UPAGES_def UENVS_def)
  have np: "npage s = 0x40000" and f0: "page_aligned (freemem s)" using s by (simp_all add: vm_ready_def boot_ok_def)
  have "boot_ok s pud" "npage s = 0x40000" "unat (freemem s) + 0x600000 < unat (maxpa s)" "unat (maxpa s) \<le> 2 ^ 52"
    using s by (simp_all add: vm_ready_def)
  note mp = map_pages_eq [OF this]
  from vm_part [where part = map_pages and F = set_pages, OF s _ _ _ al(3) _ _ _ _ mp, where c = 1536] obtain s1 where
    1: "map_pages s = (Inr (), s1)" "unat (freemem s) + 0x600000 \<le> unat (freemem s1)" "vm_step pud (region UPAGES 1536) 0x1200000 s s1"
      "vm_ready pud 0x21200000 s1" "maps_region (mem s1) pud UPAGES (freemem s) 1536" "zero_pages s1 pud (freemem s) 1536"
    and v1: "pages s1 = freemem s" "pp_ref s1 = (\<lambda>_. 0)" "page_q s1 = unlinked (page_q s)"
    and k1: "curenv s1 = curenv s" "sched_pos s1 = sched_pos s" "next_env_id s1 = next_env_id s" "env_q s1 = env_q s" "sched_q s1 = sched_q s"
    by (auto simp: al np Let_def set_zeroed kprintf_eq)
  from vm_part [where part = map_envs and F = set_envs, OF 1(4) _ _ _ al(4) _ _ _ _ map_eqs(1), where c = 104] obtain s2 where
    2: "map_envs s1 = (Inr (), s2)" "unat (freemem s1) + 0x68000 \<le> unat (freemem s2)" "vm_step pud (region UENVS 104) 0x138000 s1 s2"
      "vm_ready pud 0x21338000 s2" "maps_region (mem s2) pud UENVS (freemem s1) 104" "zero_pages s2 pud (freemem s1) 104"
    and v2: "envs_ptr s2 = freemem s1" "envs s2 = (\<lambda>_. reset_env)" "pages s2 = pages s1" "pp_ref s2 = pp_ref s1"
      "page_q s2 = page_q s1"
    and k2: "curenv s2 = curenv s1" "sched_pos s2 = sched_pos s1" "next_env_id s2 = next_env_id s1" "env_q s2 = unlinked (env_q s1)" "sched_q s2 = unlinked (sched_q s1)"
    by (auto simp: al Let_def set_zeroed kprintf_eq)
  from vm_part [where part = map_timestack and F = set_timestack, OF 2(4) _ _ _ al(1) _ _ _ _ map_eqs(2), where c = 1] obtain s3 where
    3: "map_timestack s2 = (Inr (), s3)" "unat (freemem s2) + 0x1000 \<le> unat (freemem s3)" "vm_step pud (region 0x51FFF000 1) 0x3000 s2 s3"
      "vm_ready pud 0x2133B000 s3" "maps_region (mem s3) pud 0x51FFF000 (freemem s2) 1" "zero_pages s3 pud (freemem s2) 1"
    and v3: "envs_ptr s3 = envs_ptr s2" "envs s3 = envs s2" "pages s3 = pages s2" "pp_ref s3 = pp_ref s2"
      "page_q s3 = page_q s2" "timestack_tf s3 = reset_tf"
    and k3: "curenv s3 = curenv s2" "sched_pos s3 = sched_pos s2" "next_env_id s3 = next_env_id s2" "env_q s3 = env_q s2" "sched_q s3 = sched_q s2"
    by (auto simp: Let_def set_zeroed kprintf_eq)
  from vm_part [where part = map_kernel_sp and F = set_kernel_sp, OF 3(4) _ _ _ al(2) _ _ _ _ map_eqs(3), where c = 1] obtain s4 where
    4: "map_kernel_sp s3 = (Inr (), s4)" "unat (freemem s3) + 0x1000 \<le> unat (freemem s4)" "vm_step pud (region 0x51FFE000 1) 0x3000 s3 s4"
      "maps_region (mem s4) pud 0x51FFE000 (freemem s3) 1" "zero_pages s4 pud (freemem s3) 1"
    and v4: "envs_ptr s4 = envs_ptr s3" "envs s4 = envs s3" "pages s4 = pages s3" "pp_ref s4 = pp_ref s3"
      "page_q s4 = page_q s3" "timestack_tf s4 = timestack_tf s3" "kernel_tf s4 = reset_tf"
    and k4: "curenv s4 = curenv s3" "sched_pos s4 = sched_pos s3" "next_env_id s4 = next_env_id s3" "env_q s4 = env_q s3" "sched_q s4 = sched_q s3"
    by (auto simp: Let_def set_zeroed kprintf_eq)
  have "vm_step pud (region UPAGES 1536 \<union> (region UENVS 104 \<union> (region 0x51FFF000 1 \<union> region 0x51FFE000 1))) 0x133E000 s s4"
    using vm_step_trans [OF 1(3) vm_step_trans [OF 2(3) vm_step_trans [OF 3(3) 4(3)]]] by simp
  moreover have "heads_kept s s4" by (simp add: heads_kept_def k1 k2 k3 k4)
  moreover have fa: "\<forall>x \<in> {s1, s2, s3, s4}. page_aligned (freemem x)"
    using 1(3) 2(3) 3(3) 4(3) by (simp add: vm_step_def boot_ok_def)
  moreover have "zero_pages s4 pud (freemem s) 1536"
    by (intro zero_pages_step [OF zero_pages_step [OF zero_pages_step [OF 1(6) 2(3)] 3(3)] 4(3)] f0)
  moreover have "zero_pages s4 pud (freemem s1) 104"
    using fa by (intro zero_pages_step [OF zero_pages_step [OF 2(6) 3(3)] 4(3)]) simp_all
  moreover have "zero_pages s4 pud (freemem s2) 1" using fa by (intro zero_pages_step [OF 3(6) 4(3)]) simp
  moreover have "maps_region (mem s4) pud UPAGES (freemem s) 1536"
    by (rule maps_region_step [OF maps_region_step [OF maps_region_step [OF 1(5) 2(3)] 3(3)] 4(3)]) (simp_all add: al)
  moreover have "maps_region (mem s4) pud UENVS (freemem s1) 104"
    by (rule maps_region_step [OF maps_region_step [OF 2(5) 3(3)] 4(3)]) (simp_all add: al)
  moreover have "maps_region (mem s4) pud 0x51FFF000 (freemem s2) 1"
    by (rule maps_region_step [OF 3(5) 4(3)]) (simp_all add: al)
  ultimately show ?thesis using 1(1,2) 2(1,2) 3(1,2) 4(1,2,4,5) v1 v2 v3 v4
    by (intro exI [of _ s1] exI [of _ s2] exI [of _ s3] exI [of _ s4]) simp
qed

lemma outside_slot:
  assumes "va < 2 ^ 39" "page_aligned b" "unat b + 4096 * k \<le> 2 ^ 39" "unat va < unat b \<or> unat b + 4096 * k \<le> unat va"
  shows "va_slot va \<notin> va_slot ` region b k"
proof
  assume "va_slot va \<in> va_slot ` region b k"
  then obtain w where w: "w \<in> region b k" "va_slot va = va_slot w" by blast
  from w(1) obtain i where i: "i < k" "w = b + 4096 * word_of_nat i" by (auto simp: region_def)
  have u: "unat w = unat b + 4096 * i" using unat_page_offset [OF assms(3) i(1)] i(2) by simp
  have al: "page_aligned w" using page_aligned_offset [OF assms(2)] i(2) by simp
  have "w < 2 ^ 39" using u i(1) assms(3) by (simp add: word_less_nat_alt)
  then have "PPN va = PPN w" using assms(1) va_slot_eq_iff w(2) by blast
  then have a: "PTE_ADDR va = w" using page2pa_PPN [OF al] by (simp add: PTE_ADDR_PPN)
  have "unat (PTE_ADDR va) = unat va div 4096 * 4096"
    using unat_and_not_pow2 [of 12 va] by (simp add: PTE_ADDR_def)
  then have "unat w = unat va div 4096 * 4096" by (simp add: a)
  moreover from assms(2) obtain q where "unat b = 4096 * q" by (auto simp: page_aligned_def)
  ultimately show False using u i(1) assms(4) by (auto simp: div_mult_mod_eq)
qed

text \<open>The addresses that \<open>aarch64_vm_init\<close> maps: the two arrays, and the pages of the two stacks.\<close>

definition vm_window :: "u64 \<Rightarrow> bool" where
  "vm_window va \<longleftrightarrow> UPAGES \<le> va \<and> va < UPAGES + 0x600000 \<or> UENVS \<le> va \<and> va < UENVS + 0x68000 \<or>
     KERNEL_SP - BY2PG \<le> va \<and> va < TIMESTACK"

lemmas vm_window_eq = vm_window_def UPAGES_def UENVS_def KERNEL_SP_def TIMESTACK_def BY2PG_def

lemma vm_window_range: "vm_window va \<Longrightarrow> 0x50000000 \<le> va \<and> va < 0x52000000"
  by (auto simp: vm_window_eq word_less_nat_alt word_le_nat_alt)

lemma vm_init_result:
  assumes s: "vm_ready (pg_dir s) 0x20000000 s"
  shows "\<exists>s' a b. aarch64_vm_init s = (Inr (), s') \<and> boot_ok s' (pg_dir s) \<and> pg_dir s' = pg_dir s \<and> npage s' = npage s \<and> heads_kept s s' \<and>
    unat (freemem s') \<le> unat (freemem s) + 0x133E000 \<and>
    pages s' = freemem s \<and> unat (pages s') + 24 * unat (npage s') \<le> unat (envs_ptr s') \<and>
    unat (envs_ptr s') + 416 * unat NENV \<le> unat a \<and> unat a + 4096 \<le> unat b \<and> unat b + 4096 \<le> unat (freemem s') \<and>
    zero_pages s' (pg_dir s) (pages s') 1536 \<and> zero_pages s' (pg_dir s) (envs_ptr s') 104 \<and>
    zero_pages s' (pg_dir s) a 1 \<and> zero_pages s' (pg_dir s) b 1 \<and>
    pp_ref s' = (\<lambda>_. 0) \<and> envs s' = (\<lambda>_. reset_env) \<and> timestack_tf s' = reset_tf \<and> kernel_tf s' = reset_tf \<and>
    page_q s' = unlinked (page_q s) \<and>
    (\<forall>i < 1536. mmu_page (mem s') (pg_dir s) (UPAGES + 4096 * word_of_nat i) = Some (pages s' + 4096 * word_of_nat i)) \<and>
    (\<forall>i < 104. mmu_page (mem s') (pg_dir s) (UENVS + 4096 * word_of_nat i) = Some (envs_ptr s' + 4096 * word_of_nat i)) \<and>
    mmu_page (mem s') (pg_dir s) (TIMESTACK - BY2PG) = Some a \<and> mmu_page (mem s') (pg_dir s) (KERNEL_SP - BY2PG) = Some b \<and>
    (\<forall>va. no_block (mem s) (pg_dir s) va \<longrightarrow> no_block (mem s') (pg_dir s) va) \<and>
    (\<forall>va < 2 ^ 39. \<not> vm_window va \<longrightarrow>
      pt_view (mem s') (pg_dir s) (va_slot va) = pt_view (mem s) (pg_dir s) (va_slot va))"
proof -
  let ?p = "pg_dir s" and ?l = "kprintf (''to memory %x for struct page directory.'' @ [CHR 0x0A]) [VA_num (pg_dir s)] s"
  let ?V = "region UPAGES 1536 \<union> (region UENVS 104 \<union> (region 0x51FFF000 1 \<union> region 0x51FFE000 1))"
  have "vm_ready ?p 0x20000000 ?l" using s by (simp add: kprintf_eq)
  from vm_parts [OF this] obtain s1 s2 s3 s4 where
    c: "map_pages ?l = (Inr (), s1)" "map_envs s1 = (Inr (), s2)" "map_timestack s2 = (Inr (), s3)" "map_kernel_sp s3 = (Inr (), s4)"
    and st: "vm_step ?p ?V 0x133E000 ?l s4"
    and f: "unat (freemem s) + 0x600000 \<le> unat (freemem s1)" "unat (freemem s1) + 0x68000 \<le> unat (freemem s2)"
      "unat (freemem s2) + 0x1000 \<le> unat (freemem s3)" "unat (freemem s3) + 0x1000 \<le> unat (freemem s4)"
    and hk: "heads_kept ?l s4" and al: "\<forall>x \<in> {s1, s2, s3, s4}. page_aligned (freemem x)"
    and v: "pages s4 = freemem s" "envs_ptr s4 = freemem s1" "pp_ref s4 = (\<lambda>_. 0)" "envs s4 = (\<lambda>_. reset_env)"
      "page_q s4 = unlinked (page_q s)" "timestack_tf s4 = reset_tf" "kernel_tf s4 = reset_tf"
    and z: "zero_pages s4 ?p (freemem s) 1536" "zero_pages s4 ?p (freemem s1) 104" "zero_pages s4 ?p (freemem s2) 1"
      "zero_pages s4 ?p (freemem s3) 1"
    and m: "maps_region (mem s4) ?p UPAGES (freemem s) 1536" "maps_region (mem s4) ?p UENVS (freemem s1) 104"
      "maps_region (mem s4) ?p 0x51FFF000 (freemem s2) 1" "maps_region (mem s4) ?p 0x51FFE000 (freemem s3) 1"
    unfolding kprintf_eq log_fields by (elim exE conjE) (simp only: log_fields)
  have ok: "boot_ok s4 ?p" "npage s4 = 0x40000" "pg_dir s4 = ?p" "npage s = 0x40000"
    "unat (freemem s4) \<le> unat (freemem s) + 0x133E000" using st s by (simp_all add: vm_step_def vm_ready_def kprintf_eq)
  define s' where "s' = snd (aarch64_vm_init s)"
  have call: "aarch64_vm_init s = (Inr (), s')" "mem s' = mem s4" "freemem s' = freemem s4" "pages s' = pages s4"
    "envs_ptr s' = envs_ptr s4" "pp_ref s' = pp_ref s4" "envs s' = envs s4" "npage s' = npage s4"
    "pg_dir s' = pg_dir s4" "heads_kept s s'" "page_q s' = page_q s4" "timestack_tf s' = timestack_tf s4"
    "kernel_tf s' = kernel_tf s4" "zero_pages s' = zero_pages s4"
    unfolding s'_def using c hk by (simp_all add: aarch64_vm_init_def kprintf_eq heads_kept_def zero_pages_def fun_eq_iff)
  have al: "page_aligned (freemem s)" "page_aligned (freemem s1)" "page_aligned (freemem s2)" "page_aligned (freemem s3)"
    using al s by (simp_all add: vm_ready_def boot_ok_def)
  have nb: "no_block (mem s) ?p va \<Longrightarrow> no_block (mem s4) ?p va" for va using st by (simp add: vm_step_def kprintf_eq)
  have "pt_view (mem s4) ?p (va_slot va) = pt_view (mem s) ?p (va_slot va)"
    if "va < 2 ^ 39" "\<not> vm_window va" for va
  proof -
    have "va_slot va \<notin> va_slot ` ?V"
      unfolding image_Un Un_iff de_Morgan_disj
      using that(2) by (intro conjI outside_slot [OF that(1)])
        (auto simp: vm_window_eq page_aligned_def word_less_nat_alt word_le_nat_alt)
    then show ?thesis using st by (simp add: vm_step_def kprintf_eq del: pt_view.simps split_paired_All)
  qed
  then show ?thesis using call ok v z f nb maps_region_mmu [OF m(1) al(1)] maps_region_mmu [OF m(2) al(2)]
      maps_region_mmu [OF m(3) al(3), of 0] maps_region_mmu [OF m(4) al(4), of 0]
    by (intro exI [of _ s'] exI [of _ "freemem s2"] exI [of _ "freemem s3"])
      (simp add: boot_ok_def TIMESTACK_def KERNEL_SP_def BY2PG_def NENV_def LOG2NENV_def del: pt_view.simps split_paired_All)
qed

text \<open>C11: \<^verbatim>\<open>aarch64_vm_init\<close> sets up the kernel's windows. Called with the first tables in place and at
  least half of the memory free, it returns; the arrays \<^verbatim>\<open>pages\<close> (1536 pages at \<^verbatim>\<open>UPAGES\<close>) and \<^verbatim>\<open>envs\<close>
  (104 pages at \<^verbatim>\<open>UENVS\<close>) and the pages of the two exception stacks lie apart in fresh memory and
  appear in the address space where the macros say. All of that memory holds zeros when the function
  is done, because it was cleared and no table lies in it, and so the arrays that are read from it
  have no reference, no environment in use and no links, and the two saved frames are zero. No leaf
  but those of the mapped pages has changed, and the tables are in order for the next step.
\<close>

theorem aarch64_vm_init_spec:
  assumes s: "vm_ready (pg_dir s) 0x20000000 s"
  shows "\<exists>s' a b. aarch64_vm_init s = (Inr (), s') \<and> boot_ok s' (pg_dir s) \<and>
    pages s' = freemem s \<and> unat (pages s') + 24 * unat (npage s') \<le> unat (envs_ptr s') \<and>
    unat (envs_ptr s') + 416 * unat NENV \<le> unat a \<and> unat a + 4096 \<le> unat b \<and> unat b + 4096 \<le> unat (freemem s') \<and>
    zero_pages s' (pg_dir s) (pages s') 1536 \<and> zero_pages s' (pg_dir s) (envs_ptr s') 104 \<and>
    zero_pages s' (pg_dir s) a 1 \<and> zero_pages s' (pg_dir s) b 1 \<and>
    pp_ref s' = (\<lambda>_. 0) \<and> envs s' = (\<lambda>_. reset_env) \<and> timestack_tf s' = reset_tf \<and> kernel_tf s' = reset_tf \<and>
    page_q s' = unlinked (page_q s) \<and> env_q s' = unlinked (env_q s) \<and> sched_q s' = unlinked (sched_q s) \<and>
    (\<forall>i < 1536. mmu_page (mem s') (pg_dir s) (UPAGES + 4096 * word_of_nat i) = Some (pages s' + 4096 * word_of_nat i)) \<and>
    (\<forall>i < 104. mmu_page (mem s') (pg_dir s) (UENVS + 4096 * word_of_nat i) = Some (envs_ptr s' + 4096 * word_of_nat i)) \<and>
    mmu_page (mem s') (pg_dir s) (TIMESTACK - BY2PG) = Some a \<and> mmu_page (mem s') (pg_dir s) (KERNEL_SP - BY2PG) = Some b \<and>
    (\<forall>va. no_block (mem s) (pg_dir s) va \<longrightarrow> no_block (mem s') (pg_dir s) va) \<and>
    (\<forall>va < 2 ^ 39. \<not> vm_window va \<longrightarrow>
      pt_view (mem s') (pg_dir s) (va_slot va) = pt_view (mem s) (pg_dir s) (va_slot va))"
  using vm_init_result [OF s] unfolding heads_kept_def by blast

lemma aarch64_vm_init_spec_witness:
  "\<exists>s'. aarch64_vm_init boot_state = (Inr (), s') \<and> pages s' = 0x2000 \<and>
    mmu_page (mem s') 0x1000 0x50001000 = Some 0x3000 \<and> mmu_page (mem s') 0x1000 0x51000000 = Some (envs_ptr s')"
proof -
  have p: "pg_dir boot_state = 0x1000" by (simp add: boot_state_def)
  have r: "vm_ready 0x1000 0x20000000 boot_state"
    unfolding vm_ready_def using boot_state by (simp add: boot_state_def)
  from aarch64_vm_init_spec [of boot_state, unfolded p, OF r] boot_state(4) obtain s' where
    "aarch64_vm_init boot_state = (Inr (), s')" "pages s' = 0x2000"
    and u: "\<And>i. i < 1536 \<Longrightarrow> mmu_page (mem s') 0x1000 (UPAGES + 4096 * word_of_nat i) = Some (0x2000 + 4096 * word_of_nat i)"
      "\<And>i. i < 104 \<Longrightarrow> mmu_page (mem s') 0x1000 (UENVS + 4096 * word_of_nat i) = Some (envs_ptr s' + 4096 * word_of_nat i)"
    by (auto simp del: pt_view.simps split_paired_All)
  then show ?thesis using u(1) [of 1] u(2) [of 0] by (simp add: UPAGES_def UENVS_def)
qed

end
