(* ===== verification/Ipc.thy ===== *)
theory Ipc
  imports Env_Create
begin

text \<open>
  Messages between environments: how \<open>sys_ipc_recv\<close>, the scheduler and \<open>sys_ipc_can_send\<close> of
  \<^verbatim>\<open>lib/syscall_all.c\<close> work together, and what a refused message leaves behind; the status call,
  which shares the scheduling list with them.
\<close>

subsection \<open>Switching environments\<close>

lemma env_run_frame [frame_simps]:
  "sched_q (snd (env_run e s)) = sched_q s" "cur_sched (snd (env_run e s)) = cur_sched s"
  "env_q (snd (env_run e s)) = env_q s" "mem (snd (env_run e s)) = mem s"
  "next_env_id (snd (env_run e s)) = next_env_id s" "npage (snd (env_run e s)) = npage s"
  by (simp_all add: env_run_def env_upd_def Let_def tlb_invalidate_eq split: option.split)

lemma env_run_keeps:
  "env_status (envs (snd (env_run e s)) x) = env_status (envs s x)"
  "env_id (envs (snd (env_run e s)) x) = env_id (envs s x)"
  "env_ipc_recving (envs (snd (env_run e s)) x) = env_ipc_recving (envs s x)"
  "env_ipc_dstva (envs (snd (env_run e s)) x) = env_ipc_dstva (envs s x)"
  "env_pgdir (envs (snd (env_run e s)) x) = env_pgdir (envs s x)"
  by (simp_all add: env_run_eq(4) Let_def)

text \<open>When an environment is runnable, \<open>sched_yield\<close> is \<open>env_run\<close> of one that is.\<close>

lemma sched_yield_runs:
  assumes "runnable (envs s) p" "0 \<le> p" "p < 1024"
  obtains p' where "0 \<le> p'" "p' < 1024" "runnable (envs s) p'"
    "sched_yield s = (Inl Enter_user, snd (env_run (word_of_int p') (s\<lparr>sched_pos := p'\<rparr>)))"
proof -
  have "fst (sched_yield s) = Inl Enter_user" using assms by (subst sched_yield_ends) auto
  then obtain p' where p': "sched_search (envs s) (sched_pos s) = Some p'"
    by (cases "sched_search (envs s) (sched_pos s)") (auto simp: sched_yield_def)
  then have "sched_yield s = (Inl Enter_user, snd (env_run (word_of_int p') (s\<lparr>sched_pos := p'\<rparr>)))"
    by (simp add: sched_yield_def env_run_eq(1) [symmetric])
  then show thesis using that sched_search_Some [OF p'] by blast
qed

subsection \<open>Receiving\<close>

text \<open>
  The state in which a receiver is left: not runnable, waiting, and off its scheduling list,
  while another environment runs.
\<close>

definition waiting :: "kstate \<Rightarrow> u64 \<Rightarrow> bool" where
  "waiting s c \<longleftrightarrow> env_status (envs s c) = ENV_NOT_RUNNABLE \<and> env_ipc_recving (envs s c) \<noteq> 0"

lemma sys_ipc_recv_eq:
  assumes c: "curenv s = Some c" and va: "dstva < UTOP" and l: "lst (sched_q s) h xs" "c \<in> set xs"
    and d: "runnable (envs s) p" "0 \<le> p" "p < 1024" "word_of_int p \<noteq> c"
  shows "\<exists>s' d. sys_ipc_recv dstva s = (Inl Enter_user, s') \<and> curenv s' = Some d \<and> d \<noteq> c \<and>
    env_status (envs s d) = ENV_RUNNABLE \<and> waiting s' c \<and> env_ipc_dstva (envs s' c) = dstva \<and>
    lst (sched_q s') h (remove1 c xs) \<and> cur_sched s' = cur_sched s \<and>
    (\<forall>e. env_id (envs s' e) = env_id (envs s e))"
proof -
  from il.rep_remove1 [OF l] obtain q where q: "LIST_REMOVE (sched_q s) c = Some q"
    "lst q h (remove1 c xs)" by blast
  let ?s = "(env_upd c (\<lambda>x. x\<lparr>env_status := ENV_NOT_RUNNABLE, env_ipc_recving := 1, env_ipc_dstva := dstva\<rparr>) s)
    \<lparr>sched_q := q, remaining_time := 0, timestack_tf := kernel_tf s\<rparr>"
  have r: "runnable (envs ?s) x \<longleftrightarrow> runnable (envs s) x \<and> word_of_int x \<noteq> c" for x
    by (simp add: runnable_def env_upd_def ENV_RUNNABLE_def ENV_NOT_RUNNABLE_def)
  have call: "sys_ipc_recv dstva s = sched_yield ?s"
    using c va q(1) by (simp add: sys_ipc_recv_def Let_def env_upd_def not_le [symmetric])
  from sched_yield_runs [of ?s p] d r obtain p' where p': "runnable (envs ?s) p'"
    "sched_yield ?s = (Inl Enter_user, snd (env_run (word_of_int p') (?s\<lparr>sched_pos := p'\<rparr>)))" by blast
  let ?s' = "snd (env_run (word_of_int p') (?s\<lparr>sched_pos := p'\<rparr>))"
  have "waiting ?s' c" "env_ipc_dstva (envs ?s' c) = dstva"
    unfolding waiting_def env_run_keeps by (simp_all add: env_upd_def)
  moreover have "env_id (envs ?s' e) = env_id (envs s e)" for e
    unfolding env_run_keeps by (simp add: env_upd_def)
  moreover have "sched_q ?s' = q" "cur_sched ?s' = cur_sched s" "curenv ?s' = Some (word_of_int p')"
    by (simp_all add: env_run_frame env_run_eq(2) env_upd_def)
  ultimately show ?thesis using call p' r q(2) unfolding runnable_def
    by (intro exI [of _ ?s'] exI [of _ "word_of_int p'"]) auto
qed

subsection \<open>Sending\<close>

lemma envid2env_found:
  assumes "ENVX i = e" "i \<noteq> 0" "env_id (envs s e) = i" "env_status (envs s e) \<noteq> ENV_FREE"
  shows "envid2env i False s = (Inr (0, Some e), s)"
  using assms by (simp add: envid2env_def)

lemma sys_ipc_can_send_value:
  assumes w: "waiting s c" and id: "ENVX (env_id (envs s c)) = c" "env_id (envs s c) \<noteq> 0"
    and d: "curenv s = Some d" and l: "lst (sched_q s) (cur_sched s) ys" "c \<notin> set ys"
  shows "\<exists>s'. sys_ipc_can_send (env_id (envs s c)) v 0 perm s = (Inr 0, s') \<and>
    envs s' = (envs s)(c := (envs s c)\<lparr>env_ipc_value := v, env_ipc_from := env_id (envs s d),
      env_ipc_perm := perm, env_ipc_recving := 0, env_status := ENV_RUNNABLE\<rparr>) \<and>
    lst (sched_q s') (cur_sched s) (c # ys) \<and> curenv s' = Some d"
proof -
  have "envid2env (env_id (envs s c)) False s = (Inr (0, Some c), s)"
    using w id by (intro envid2env_found) (auto simp: waiting_def ENV_FREE_def ENV_NOT_RUNNABLE_def)
  moreover have "\<not> UTOP \<le> 0" by (simp add: UTOP_def)
  ultimately have "sys_ipc_can_send (env_id (envs s c)) v 0 perm s = ipc_deliver c v perm s"
    using w by (simp add: sys_ipc_can_send_def waiting_def)
  then show ?thesis using d lst_insert_head [OF l]
    by (simp add: ipc_deliver_def env_upd_def Let_def)
qed

subsection \<open>Errors\<close>

lemma envid2env_state: "envid2env i b s = (x, t) \<Longrightarrow> t = s"
  by (auto simp: envid2env_def Let_def split: if_splits option.splits)

lemma envid2env_status: "envid2env i b s = (Inr (r, e), t) \<Longrightarrow> r = 0 \<or> r = - E_BAD_ENV \<and> e = None"
  by (auto simp: envid2env_def Let_def split: if_splits option.splits)

lemma ipc_deliver_zero: "ipc_deliver e v perm s = (Inr r, s') \<Longrightarrow> r = 0"
  by (auto simp: ipc_deliver_def Let_def split: option.splits)

lemma can_send_refused:
  assumes "sys_ipc_can_send i v va perm s = (Inr r, s')" and "r < 0"
  shows "rest s' = rest s" "r = - E_IPC_NOT_RECV \<Longrightarrow> s' = s"
    "r \<in> {- E_BAD_ENV, - E_IPC_NOT_RECV, - E_NO_MEM}"
  using assms
  by (auto simp: sys_ipc_can_send_def kbind_def rest_log_iff err_codes split: prod.splits sum.splits option.splits if_splits
      dest!: envid2env_state rest_lookup_insert dest: ipc_deliver_zero)

lemma LIST_REMOVE_unlinked: "le_prev (link q x) = None \<Longrightarrow> LIST_REMOVE q x = None"
  by (auto simp: LIST_REMOVE_def LIST_NEXT_def set_prev_def Let_def split: option.split)

subsection \<open>Properties\<close>

text \<open>A message is delivered: \<open>sys_ipc_recv\<close> takes the caller off its scheduling list and switches to
  another runnable environment; the send that environment makes to the receiver's identifier then
  succeeds, and leaves the receiver runnable, back on the list and holding the value, the sender's
  identifier and the permission; nothing else of any environment changes in the send.\<close>

lemma ipc_rendezvous:
  assumes c: "curenv s = Some c" "ENVX (env_id (envs s c)) = c" "env_id (envs s c) \<noteq> 0"
    and va: "dstva < UTOP" and l: "lst (sched_q s) (cur_sched s) xs" "c \<in> set xs"
    and d: "runnable (envs s) p" "0 \<le> p" "p < 1024" "word_of_int p \<noteq> c"
  shows "\<exists>s' d s''. sys_ipc_recv dstva s = (Inl Enter_user, s') \<and> curenv s' = Some d \<and> d \<noteq> c \<and>
    waiting s' c \<and> LIST_FOREACH (sched_q s') (cur_sched s) = Some (remove1 c xs) \<and>
    sys_ipc_can_send (env_id (envs s c)) v 0 perm s' = (Inr 0, s'') \<and>
    envs s'' = (envs s')(c := (envs s' c)\<lparr>env_ipc_value := v, env_ipc_from := env_id (envs s d),
      env_ipc_perm := perm, env_ipc_recving := 0, env_status := ENV_RUNNABLE\<rparr>) \<and>
    LIST_FOREACH (sched_q s'') (cur_sched s) = Some (c # remove1 c xs)"
proof -
  from sys_ipc_recv_eq [OF c(1) va l d] obtain s' d where r: "sys_ipc_recv dstva s = (Inl Enter_user, s')"
    "curenv s' = Some d" "d \<noteq> c" "waiting s' c" "lst (sched_q s') (cur_sched s) (remove1 c xs)"
    "cur_sched s' = cur_sched s" "\<And>e. env_id (envs s' e) = env_id (envs s e)" by blast
  have "c \<notin> set (remove1 c xs)" using lst_distinct [OF l(1)] by simp
  with sys_ipc_can_send_value [of s' c d "remove1 c xs" v perm] r c obtain s'' where
    "sys_ipc_can_send (env_id (envs s c)) v 0 perm s' = (Inr 0, s'')"
    "envs s'' = (envs s')(c := (envs s' c)\<lparr>env_ipc_value := v, env_ipc_from := env_id (envs s d),
      env_ipc_perm := perm, env_ipc_recving := 0, env_status := ENV_RUNNABLE\<rparr>)"
    "lst (sched_q s'') (cur_sched s) (c # remove1 c xs)" by auto
  with r(1-4) foreach_lst [OF r(5)] foreach_lst [OF this(3)] show ?thesis
    by (intro exI [of _ s'] exI [of _ d] exI [of _ s'']) simp
qed

text \<open>Environment 3 runs and is on the scheduling list; environment 5 is runnable too.\<close>

definition ipc_state :: kstate where
  "ipc_state = two_envs\<lparr>sched_q := LIST_INSERT_HEAD no_lists 0 3,
     envs := (\<lambda>e. (envs two_envs e)\<lparr>env_id := 0x800 OR e\<rparr>)\<rparr>"

lemma ipc_state: "curenv ipc_state = Some 3" "env_id (envs ipc_state 3) = 0x803" "cur_sched ipc_state = 0"
  "lst (sched_q ipc_state) 0 [3]" "runnable (envs ipc_state) 5" "env_status (envs ipc_state 3) = 1"
proof -
  show "lst (sched_q ipc_state) 0 [3]"
    using lst_insert_head [of no_lists 0 "[]" 3] by (simp add: ipc_state_def)
qed (simp_all add: ipc_state_def two_envs_def runnable_def ENV_RUNNABLE_def reset_env_def reset_state_def)

lemma ipc_rendezvous_witness:
  "\<exists>s' s''. sys_ipc_recv 0 ipc_state = (Inl Enter_user, s') \<and>
    sys_ipc_can_send 0x803 42 0 7 s' = (Inr 0, s'') \<and> env_ipc_value (envs s'' 3) = 42"
  using ipc_rendezvous [of ipc_state 3 0 "[3]" 5 42 7] ipc_state
  by (fastforce simp: ENVX_def NENV_def UTOP_def)

text \<open>A refused message changes nothing but the output and, when a page was to be sent, page tables:
  no environment, no queue and not the running environment; when the receiver is not waiting,
  the state is exactly as before.\<close>

lemma ipc_refused:
  assumes "sys_ipc_can_send i v va perm s = (Inr r, s')" and "r < 0"
  shows "r \<in> {- E_BAD_ENV, - E_IPC_NOT_RECV, - E_NO_MEM} \<and> (r = - E_IPC_NOT_RECV \<longrightarrow> s' = s) \<and>
    envs s' = envs s \<and> sched_q s' = sched_q s \<and> env_q s' = env_q s \<and> curenv s' = curenv s"
  using can_send_refused [OF assms] rest_fields [of s' s] by blast

lemma ipc_refused_witness:
  "sys_ipc_can_send 0x803 1 0 0 ipc_state = (Inr (- 6), ipc_state) \<and> envs ipc_state = envs ipc_state"
proof -
  have "sys_ipc_can_send 0x803 1 0 0 ipc_state = (Inr (- 6), ipc_state)"
    using envid2env_found [of "0x803" 3 ipc_state] ipc_state(2,6)
    by (simp add: sys_ipc_can_send_def ENVX_def NENV_def ENV_FREE_def ENV_NOT_RUNNABLE_def E_IPC_NOT_RECV_def)
  then show ?thesis using ipc_refused [of "0x803" 1 0 0 ipc_state "- 6" ipc_state] by simp
qed

text \<open>An environment that is on no scheduling list, as the children made by \<open>sys_env_alloc\<close> are, must
  not receive: \<open>sys_ipc_recv\<close> removes it from a list it is not on, through a NULL pointer, with its
  status already changed.\<close>

lemma ipc_recv_unlinked:
  assumes "curenv s = Some c" and "dstva < UTOP" and "le_prev (link (sched_q s) c) = None"
  shows "\<exists>s'. sys_ipc_recv dstva s = (Inl Null_deref, s') \<and> waiting s' c"
proof -
  have "sys_ipc_recv dstva s = (Inl Null_deref,
      env_upd c (\<lambda>x. x\<lparr>env_status := ENV_NOT_RUNNABLE, env_ipc_recving := 1, env_ipc_dstva := dstva\<rparr>) s)"
    using assms LIST_REMOVE_unlinked [of "sched_q s" c]
    by (simp add: sys_ipc_recv_def env_upd_def not_le [symmetric])
  then show ?thesis by (simp add: waiting_def env_upd_def)
qed

lemma ipc_recv_unlinked_witness:
  "\<exists>s'. sys_ipc_recv 0 two_envs = (Inl Null_deref, s') \<and> waiting s' 3"
  by (rule ipc_recv_unlinked) (simp_all add: two_envs_def reset_state_def no_lists_def UTOP_def)

text \<open>C18: \<open>sys_set_env_status\<close> inserts an environment that becomes runnable without looking whether it is
  on the list already: when it is, the list is closed to a cycle and a traversal never ends.\<close>

lemma set_status_cycle:
  assumes env: "envid2env i False s = (Inr (0, Some e), s)"
    and l: "lst (sched_q s) (cur_sched s) xs" "e \<in> set xs"
  shows "\<exists>s'. sys_set_env_status i ENV_RUNNABLE s = (Inr 0, s') \<and>
    env_status (envs s' e) = ENV_RUNNABLE \<and> LIST_FOREACH (sched_q s') (cur_sched s') = None"
  using env insert_head_member [OF l]
  by (simp add: sys_set_env_status_def env_upd_def ENV_RUNNABLE_def ENV_NOT_RUNNABLE_def ENV_FREE_def)

lemma set_status_cycle_witness:
  "\<exists>s'. sys_set_env_status 0 ENV_RUNNABLE ipc_state = (Inr 0, s') \<and> LIST_FOREACH (sched_q s') (cur_sched s') = None"
  using set_status_cycle [of 0 ipc_state 3 "[3]"] ipc_state
  by (auto simp: envid2env_def)

end
