(* ===== verification/Kernel_Inv.thy ===== *)
theory Kernel_Inv
  imports Ipc
begin

text \<open>
  The kernel as a transition system: user programs run, make system calls and are interrupted by
  the timer. An invariant of every state the kernel can reach: the pointers it keeps stay inside
  the array of environments, identifiers name their slot, and status values are the three that exist.
\<close>

subsection \<open>Links that stay inside an array\<close>

definition links_ok :: "('h, u64) lists \<Rightarrow> bool" where
  "links_ok q \<longleftrightarrow> (\<forall>h x. lh_first q h = Some x \<longrightarrow> x < NENV) \<and>
     (\<forall>y x. le_next (link q y) = Some x \<longrightarrow> x < NENV) \<and>
     (\<forall>y x. le_prev (link q y) = Some (Next x) \<longrightarrow> x < NENV)"

lemma links_ok_no_lists: "links_ok no_lists"
  by (simp add: links_ok_def no_lists_def)

lemma links_ok_set_first: "links_ok q \<Longrightarrow> (\<forall>x. v = Some x \<longrightarrow> x < NENV) \<Longrightarrow> links_ok (set_first h v q)"
  by (simp add: links_ok_def set_first_def)

lemma links_ok_insert: "links_ok q \<Longrightarrow> x < NENV \<Longrightarrow> links_ok (LIST_INSERT_HEAD q h x)"
  by (auto simp: links_ok_def LIST_INSERT_HEAD_def queue_macros queue_upd Let_def split: option.splits)

lemma links_ok_remove: "links_ok q \<Longrightarrow> LIST_REMOVE q x = Some q' \<Longrightarrow> links_ok q'"
  by (auto simp: links_ok_def LIST_REMOVE_def LIST_NEXT_def queue_upd Let_def
      split: option.splits lref.splits if_splits)

subsection \<open>The invariant\<close>

definition kernel_ok :: "kstate \<Rightarrow> bool" where
  "kernel_ok s \<longleftrightarrow> links_ok (env_q s) \<and> links_ok (sched_q s) \<and>
     (\<forall>c. curenv s = Some c \<longrightarrow> c < NENV) \<and>
     (\<forall>e < NENV. env_id (envs s e) = 0 \<or> ENVX (env_id (envs s e)) = e) \<and>
     (\<forall>e < NENV. env_status (envs s e) \<in> {ENV_FREE, ENV_RUNNABLE, ENV_NOT_RUNNABLE}) \<and>
     - 1 \<le> sched_pos s \<and> sched_pos s < 1024"

lemma kernel_ok_rest: "rest s' = rest s \<Longrightarrow> kernel_ok s \<Longrightarrow> kernel_ok s'"
  using rest_fields [of s' s] by (simp add: kernel_ok_def)

text \<open>A result whose state has the invariant and whose value, if any, satisfies \<open>Q\<close>.\<close>

definition holds :: "('a \<Rightarrow> bool) \<Rightarrow> 'a kresult \<Rightarrow> bool" where
  "holds Q r \<longleftrightarrow> kernel_ok (snd r) \<and> (\<forall>x. fst r = Inr x \<longrightarrow> Q x)"

named_theorems keeps \<open>functions that keep the invariant\<close>

lemma holds_simps [simp]: "holds Q (Inr x, s) \<longleftrightarrow> kernel_ok s \<and> Q x" "holds Q (Inl e, s) \<longleftrightarrow> kernel_ok s"
  by (simp_all add: holds_def)

lemma holds_kret [keeps]: "kernel_ok s \<Longrightarrow> Q x \<Longrightarrow> holds Q (kret x s)"
  by simp

lemma holds_mono: "holds P r \<Longrightarrow> (\<And>x. P x \<Longrightarrow> Q x) \<Longrightarrow> holds Q r"
  by (simp add: holds_def)

lemma holds_kbind:
  assumes "holds P (m s)" and "\<And>x t. P x \<Longrightarrow> kernel_ok t \<Longrightarrow> holds Q (f x t)"
  shows "holds Q (kbind m f s)"
  using assms by (auto simp: holds_def kbind_def split: prod.split sum.split)

text \<open>Verification conditions: each state a function assigns is only known to have the invariant.\<close>

lemma holds_kbind_pair:
  assumes "holds P (m s)" and "\<And>a b t. P (a, b) \<Longrightarrow> kernel_ok t \<Longrightarrow> holds Q (f a b t)"
  shows "holds Q (kbind m (\<lambda>(a, b). f a b) s)"
  using assms by (auto simp: holds_def kbind_def split: prod.split sum.split)

lemma holds_let: "kernel_ok a \<Longrightarrow> (\<And>t. kernel_ok t \<Longrightarrow> holds Q (f t)) \<Longrightarrow> holds Q (let t = a in f t)"
  by simp

lemma holds_if: "(b \<Longrightarrow> holds Q x) \<Longrightarrow> (\<not> b \<Longrightarrow> holds Q y) \<Longrightarrow> holds Q (if b then x else y)"
  by simp

lemma holds_option: "(z = None \<Longrightarrow> holds Q x) \<Longrightarrow> (\<And>v. z = Some v \<Longrightarrow> holds Q (y v)) \<Longrightarrow>
    holds Q (case z of None \<Rightarrow> x | Some v \<Rightarrow> y v)"
  by (cases z) simp_all

lemma holds_pair: "(\<And>a b. z = (a, b) \<Longrightarrow> holds Q (f a b)) \<Longrightarrow> holds Q (case z of (a, b) \<Rightarrow> f a b)"
  by (cases z) simp

lemma holds_let_value: "holds Q (f a) \<Longrightarrow> holds Q (let x = (a :: u64) in f x)"
  by simp

named_theorems vc \<open>rules that generate verification conditions\<close>

lemmas holds_control [vc] = holds_let holds_let_value holds_if holds_option holds_pair

lemma holds_rest: "rest (snd (f s)) = rest s \<Longrightarrow> kernel_ok s \<Longrightarrow> holds (\<lambda>_. True) (f s)"
  using kernel_ok_rest [of "snd (f s)" s] by (simp add: holds_def)

lemma ok_log [keeps]: "kernel_ok (log e s) = kernel_ok s" "kernel_ok (kprintf f a s) = kernel_ok s"
  "kernel_ok (tlb_invalidate s) = kernel_ok s" "kernel_ok (incref p s) = kernel_ok s"
  "kernel_ok (s\<lparr>mem := m\<rparr>) = kernel_ok s" "kernel_ok (s\<lparr>page_q := pq\<rparr>) = kernel_ok s"
  "kernel_ok (s\<lparr>timestack_tf := tf\<rparr>) = kernel_ok s" "kernel_ok (s\<lparr>remaining_time := n\<rparr>) = kernel_ok s"
  "kernel_ok (s\<lparr>kernel_tf := tf\<rparr>) = kernel_ok s" "kernel_ok (s\<lparr>next_env_id := i\<rparr>) = kernel_ok s"
  "kernel_ok (s\<lparr>cur_sched := k\<rparr>) = kernel_ok s"
  by (simp_all add: kernel_ok_def kprintf_def tlb_invalidate_def incref_def)

lemma ok_queue:
  "kernel_ok s \<Longrightarrow> links_ok q \<Longrightarrow> kernel_ok (s\<lparr>sched_q := q\<rparr>)"
  "kernel_ok s \<Longrightarrow> links_ok eq \<Longrightarrow> kernel_ok (s\<lparr>env_q := eq\<rparr>)"
  "kernel_ok s \<Longrightarrow> c < NENV \<Longrightarrow> kernel_ok (s\<lparr>curenv := Some c\<rparr>)"
  "kernel_ok s \<Longrightarrow> kernel_ok (s\<lparr>curenv := None\<rparr>)"
  "kernel_ok s \<Longrightarrow> 0 \<le> p \<Longrightarrow> p < 1024 \<Longrightarrow> kernel_ok (s\<lparr>sched_pos := p\<rparr>)"
  by (simp_all add: kernel_ok_def)

text \<open>An assignment to a field other than identifier and status, and to the status.\<close>

lemma ok_upd:
  assumes "kernel_ok s" and "env_id (f (envs s e)) = env_id (envs s e)"
    and "env_status (f (envs s e)) \<in> {env_status (envs s e), ENV_FREE, ENV_RUNNABLE, ENV_NOT_RUNNABLE}"
  shows "kernel_ok (env_upd e f s)"
  using assms by (auto simp: kernel_ok_def env_upd_def)

lemma ok_upd_id:
  assumes "kernel_ok s" and "ENVX i = e"
  shows "kernel_ok (env_upd e (\<lambda>x. x\<lparr>env_id := i\<rparr>) s)"
  using assms by (auto simp: kernel_ok_def env_upd_def)

lemma okD:
  "kernel_ok s \<Longrightarrow> links_ok (env_q s)" "kernel_ok s \<Longrightarrow> links_ok (sched_q s)"
  "kernel_ok s \<Longrightarrow> curenv s = Some c \<Longrightarrow> c < NENV"
  by (simp_all add: kernel_ok_def)

lemma ok_remove:
  "LIST_REMOVE (env_q s) x = Some q \<Longrightarrow> kernel_ok s \<Longrightarrow> links_ok q"
  "LIST_REMOVE (sched_q s) x = Some q' \<Longrightarrow> kernel_ok s \<Longrightarrow> links_ok q'"
  using links_ok_remove okD(1,2) by blast+

lemmas ok_intros = ok_queue ok_upd ok_upd_id links_ok_insert

subsection \<open>Environments keep it\<close>

lemma ENVX_less: "ENVX i < NENV"
proof -
  have "ENVX i \<le> NENV - 1" unfolding ENVX_def by (rule word_and_le1)
  also have "\<dots> < NENV" by (simp add: NENV_def)
  finally show ?thesis .
qed

lemma word_pos_less: "0 \<le> p \<Longrightarrow> p < 1024 \<Longrightarrow> (word_of_int p :: u64) < NENV"
  by (simp add: NENV_def word_less_def uint_word_of_int)

lemma envid2env_holds [keeps]:
  "kernel_ok s \<Longrightarrow> holds (\<lambda>(r, e). \<forall>x. e = Some x \<longrightarrow> x < NENV) (envid2env i b s)"
  by (auto simp: envid2env_def Let_def ENVX_less okD(3) split: option.split)

lemma page_alloc_holds [keeps]: "kernel_ok s \<Longrightarrow> holds (\<lambda>_. True) (page_alloc s)"
  by (rule holds_rest [OF rest_page_alloc])

lemma page_insert_holds [keeps]: "kernel_ok s \<Longrightarrow> holds (\<lambda>_. True) (page_insert pud pp va perm s)"
  by (rule holds_rest [OF rest_page_insert])

lemma page_lookup_holds [keeps]: "kernel_ok s \<Longrightarrow> holds (\<lambda>_. True) (page_lookup pud va s)"
  by (rule holds_rest [OF rest_page_lookup])

lemma page_remove_holds [keeps]: "kernel_ok s \<Longrightarrow> holds (\<lambda>_. True) (page_remove pud va s)"
  by (rule holds_rest [OF rest_page_remove])

lemmas memory_vc [vc] = holds_kbind_pair [OF envid2env_holds] holds_kbind_pair [OF page_alloc_holds]
  holds_kbind [OF page_insert_holds] holds_kbind [OF page_lookup_holds] holds_kbind [OF page_remove_holds]

lemma kpanic_holds [vc]: "kernel_ok s \<Longrightarrow> holds Q (kpanic f a s)"
  by (simp add: kpanic_def keeps)

lemma env_run_holds [vc]: "kernel_ok s \<Longrightarrow> e < NENV \<Longrightarrow> holds Q (env_run e s)"
  by (auto simp: env_run_def Let_def keeps intro!: ok_intros split: option.split)

lemma sched_yield_holds [vc]: "kernel_ok s \<Longrightarrow> holds Q (sched_yield s)"
  using sched_search_Some [of "envs s" "sched_pos s"]
  by (auto simp: sched_yield_def intro!: env_run_holds ok_intros word_pos_less split: option.split)

lemma env_setup_vm_holds: "kernel_ok s \<Longrightarrow> holds (\<lambda>_. True) (env_setup_vm e s)"
  unfolding env_setup_vm_def
  by (intro vc) (auto simp: copy_pgdir_def keeps intro!: ok_intros)

lemma mkenvid_holds: "kernel_ok t \<Longrightarrow> e < NENV \<Longrightarrow> holds (\<lambda>i. ENVX i = e) (mkenvid e t)"
  unfolding mkenvid_def Let_def using ENVX_mkenvid [of e] by (simp only: holds_simps keeps NENV_def)

lemma env_alloc_holds:
  assumes s: "kernel_ok s"
  shows "holds (\<lambda>(r, e). \<forall>x. e = Some x \<longrightarrow> x < NENV) (env_alloc par s)"
proof (cases "LIST_FIRST (env_q s) ()")
  case None
  then show ?thesis using s by (simp add: env_alloc_def keeps)
next
  case (Some e)
  have e: "e < NENV" using okD(1) [OF s] Some by (simp add: links_ok_def LIST_FIRST_def)
  show ?thesis unfolding env_alloc_def Some option.case
    by (intro vc s e holds_kbind [OF env_setup_vm_holds] holds_kbind [OF mkenvid_holds])
      (auto simp: e intro!: ok_intros dest: ok_remove)
qed

lemmas env_alloc_vc [vc] = holds_kbind_pair [OF env_alloc_holds]

lemma env_create_holds: "kernel_ok s \<Longrightarrow> holds Q (env_create_priority b sz pri s)" if "Q ()"
  unfolding env_create_priority_def
  by (intro vc) (auto simp: that keeps intro!: ok_intros dest: okD split: option.split)

lemma rest_free_puds: "rest (snd (free_puds e s)) = rest s"
proof -
  have "rest (snd (free_ptes e i j t s)) = rest s" for i j t s
    unfolding free_ptes_def by (rule rest_kfor) (simp add: rest_simps)
  then have "rest (snd (free_pmds e i t s)) = rest s" for i t s
    unfolding free_pmds_def by (intro rest_kfor) (simp add: rest_simps Let_def)
  then show ?thesis
    unfolding free_puds_def by (intro rest_kfor) (simp add: rest_simps Let_def)
qed

lemma free_puds_holds: "kernel_ok s \<Longrightarrow> holds (\<lambda>_. True) (free_puds e s)"
  by (rule holds_rest [OF rest_free_puds])

lemma env_free_holds: "kernel_ok s \<Longrightarrow> e < NENV \<Longrightarrow> holds (\<lambda>_. True) (env_free e s)"
  unfolding env_free_def
  by (intro vc holds_kbind [OF free_puds_holds])
    (auto simp: keeps intro!: ok_intros dest: okD ok_remove)

lemma env_destroy_holds: "kernel_ok s \<Longrightarrow> e < NENV \<Longrightarrow> holds (\<lambda>_. True) (env_destroy e s)"
  unfolding env_destroy_def
  by (intro vc holds_kbind [OF env_free_holds]) (auto simp: keeps intro!: ok_intros)

subsection \<open>System calls keep it\<close>

lemma sys_simple_holds [keeps]:
  "kernel_ok s \<Longrightarrow> holds (\<lambda>_. True) (sys_putchar ch s)"
  "kernel_ok s \<Longrightarrow> holds (\<lambda>_. True) (sys_getenvid s)"
  "kernel_ok s \<Longrightarrow> holds (\<lambda>_. True) (sys_yield s)"
  "kernel_ok s \<Longrightarrow> holds (\<lambda>_. True) (sys_set_trapframe s)"
  "kernel_ok s \<Longrightarrow> holds (\<lambda>_. True) (sys_panic s)"
  by (simp_all add: sys_putchar_def sys_getenvid_def sys_yield_def sys_set_trapframe_def sys_panic_def
      kpanic_holds sched_yield_holds keeps split: option.split)

lemma sys_env_destroy_holds [keeps]: "kernel_ok s \<Longrightarrow> holds (\<lambda>_. True) (sys_env_destroy i s)"
  unfolding sys_env_destroy_def
  by (intro vc) (auto simp: keeps intro!: holds_kbind [OF env_destroy_holds] split: option.split)

lemma sys_set_pgfault_handler_holds [keeps]: "kernel_ok s \<Longrightarrow> holds (\<lambda>_. True) (sys_set_pgfault_handler i f x s)"
  unfolding sys_set_pgfault_handler_def
  by (intro vc) (auto simp: keeps intro!: ok_intros)

lemma sys_set_env_status_holds [keeps]: "kernel_ok s \<Longrightarrow> holds (\<lambda>_. True) (sys_set_env_status i st s)"
  unfolding sys_set_env_status_def
  by (intro vc) (auto simp: keeps intro!: ok_intros dest: okD ok_remove split: if_splits)

lemma sys_mem_alloc_holds [keeps]: "kernel_ok s \<Longrightarrow> holds (\<lambda>_. True) (sys_mem_alloc i va perm s)"
  unfolding sys_mem_alloc_def
  by (intro vc) (auto simp: keeps intro!: memory_vc split: option.split)

lemma sys_mem_map_holds [keeps]: "kernel_ok s \<Longrightarrow> holds (\<lambda>_. True) (sys_mem_map i va j vb perm s)"
  unfolding sys_mem_map_def Let_def
  by (intro vc) (auto simp: keeps intro!: memory_vc split: option.split)

lemma sys_mem_unmap_holds [keeps]: "kernel_ok s \<Longrightarrow> holds (\<lambda>_. True) (sys_mem_unmap i va s)"
  unfolding sys_mem_unmap_def
  by (intro vc) (auto simp: keeps intro!: memory_vc split: option.split)


lemma copy_user_page_holds: "kernel_ok s \<Longrightarrow> holds (\<lambda>_. True) (copy_user_page va p s)"
  unfolding copy_user_page_def by (intro vc) (simp_all add: keeps)

lemma copy_stack_holds: "kernel_ok s \<Longrightarrow> holds (\<lambda>_. True) (copy_stack e sp s)"
proof (induction e sp s rule: copy_stack.induct)
  case (1 e sp s)
  show ?case
    by (subst copy_stack.simps, intro vc 1 holds_kbind [OF copy_user_page_holds]) (simp_all add: keeps 1(2))
qed

lemma sys_env_alloc_holds [keeps]: "kernel_ok s \<Longrightarrow> holds (\<lambda>_. True) (sys_env_alloc s)"
  unfolding sys_env_alloc_def
  by (intro vc holds_kbind [OF copy_stack_holds]) (auto simp: keeps intro!: ok_intros)

lemma sys_ipc_recv_holds [keeps]: "kernel_ok s \<Longrightarrow> holds (\<lambda>_. True) (sys_ipc_recv va s)"
  unfolding sys_ipc_recv_def
  by (intro vc) (auto simp: keeps intro!: ok_intros dest: okD ok_remove)

lemma ipc_deliver_holds: "kernel_ok s \<Longrightarrow> e < NENV \<Longrightarrow> holds (\<lambda>_. True) (ipc_deliver e v perm s)"
  unfolding ipc_deliver_def
  by (intro vc) (auto simp: keeps intro!: ok_intros dest: okD)

lemma sys_ipc_can_send_holds [keeps]: "kernel_ok s \<Longrightarrow> holds (\<lambda>_. True) (sys_ipc_can_send i v va perm s)"
  unfolding sys_ipc_can_send_def
  by (intro vc) (auto simp: keeps intro!: ipc_deliver_holds)

lemma ret_holds [keeps]:
  "holds (\<lambda>_. True) (f s) \<Longrightarrow> holds (\<lambda>_. True) (ret_int f s)"
  "holds (\<lambda>_. True) (g s) \<Longrightarrow> holds (\<lambda>_. True) (ret_void g s)"
  unfolding ret_int_def ret_void_def by (erule holds_kbind, simp)+

lemma syscall_table_holds: "kernel_ok s \<Longrightarrow> f \<in> set sys_call_table \<Longrightarrow> holds (\<lambda>_. True) (f a b c d e s)"
  by (auto simp: sys_call_table_def keeps)

lemma el0_sync_holds: "kernel_ok s \<Longrightarrow> holds (\<lambda>_. True) (el0_sync x0 a b c d e s)"
  unfolding el0_sync_def invalid_syscall_def
  by (auto simp: Let_def keeps intro!: syscall_table_holds kpanic_holds)

subsection \<open>The machine\<close>

text \<open>
  What may happen while an environment runs. User programs change the memory; the arrays
  \<^verbatim>\<open>pages\<close> and \<^verbatim>\<open>envs\<close> and the kernel's variables are taken to be out of their hands. An exception
  saves the registers \<open>tf\<close> on one of the kernel stacks; the kernel then returns to the caller or enters
  user mode by \<open>env_run\<close>. A kernel that stops makes no further step.
\<close>

inductive kstep :: "kstate \<Rightarrow> kstate \<Rightarrow> bool" where
  user: "kstep s (s\<lparr>mem := m\<rparr>)"
| syscall: "el0_sync x0 a b c d e (s\<lparr>kernel_tf := tf\<rparr>) = (r, s') \<Longrightarrow> r = Inr v \<or> r = Inl Enter_user \<Longrightarrow>
    kstep s s'"
| timer: "handle_irq (s\<lparr>timestack_tf := tf\<rparr>) = (Inl Enter_user, s') \<Longrightarrow> kstep s s'"

inductive_cases kstepE: "kstep s s'"

text \<open>The states from \<open>env_init\<close> on: \<^verbatim>\<open>main\<close> creates environments and prints, then the machine runs.\<close>

inductive reachable :: "kstate \<Rightarrow> bool" where
  init: "envs s = (\<lambda>_. reset_env) \<Longrightarrow> env_q s = no_lists \<Longrightarrow> sched_q s = no_lists \<Longrightarrow>
    curenv s = None \<Longrightarrow> sched_pos s = - 1 \<Longrightarrow> reachable (env_init s)"
| create: "reachable s \<Longrightarrow> env_create_priority b sz pri s = (Inr (), s') \<Longrightarrow> reachable s'"
| prints: "reachable s \<Longrightarrow> reachable (log e s)"
| step: "reachable s \<Longrightarrow> kstep s s' \<Longrightarrow> reachable s'"

lemma kstep_keeps: "kstep s s' \<Longrightarrow> kernel_ok s \<Longrightarrow> kernel_ok s'"
proof (erule kstepE)
  fix m assume "kernel_ok s" "s' = s\<lparr>mem := m\<rparr>"
  then show ?thesis by (simp add: keeps)
next
  fix x0 a b c d e tf r v assume "kernel_ok s" "el0_sync x0 a b c d e (s\<lparr>kernel_tf := tf\<rparr>) = (r, s')"
  then show ?thesis using el0_sync_holds [of "s\<lparr>kernel_tf := tf\<rparr>" x0 a b c d e]
    by (simp add: keeps holds_def)
next
  fix tf assume "kernel_ok s" "handle_irq (s\<lparr>timestack_tf := tf\<rparr>) = (Inl Enter_user, s')"
  then show ?thesis
    using sched_yield_holds [of "log Ev_timer (s\<lparr>timestack_tf := tf\<rparr>)" "\<lambda>_. True"]
    by (simp add: handle_irq_def keeps holds_def)
qed

lemma links_ok_insert_all:
  "links_ok q \<Longrightarrow> \<forall>i \<in> set is. i < NENV \<Longrightarrow> links_ok (fold (\<lambda>i q. LIST_INSERT_HEAD q h i) is q)"
  by (induction "is" arbitrary: q) (simp_all add: links_ok_insert)

lemma env_init_ok:
  assumes "envs s = (\<lambda>_. reset_env)" "env_q s = no_lists" "sched_q s = no_lists" "curenv s = None"
    "sched_pos s = - 1"
  shows "kernel_ok (env_init s)"
proof -
  have f: "curenv (fold env_release is s) = curenv s" "sched_pos (fold env_release is s) = sched_pos s" for "is" s
    by (induction "is" arbitrary: s) (simp_all add: env_release_def env_upd_def Let_def)
  have "links_ok (LIST_INIT no_lists ())" by (simp add: LIST_INIT_def links_ok_set_first links_ok_no_lists)
  then show ?thesis using assms
    by (auto simp: kernel_ok_def env_init_def Let_def env_release_fold f set_counter reset_env_def
        intro!: links_ok_insert_all links_ok_set_first links_ok_no_lists)
qed

lemma reachable_ok: "reachable s \<Longrightarrow> kernel_ok s"
proof (induction rule: reachable.induct)
  case (init s)
  then show ?case by (rule env_init_ok)
next
  case (create s b sz pri s')
  then show ?case using env_create_holds [of "\<lambda>_. True" s b sz pri] by (simp add: holds_def)
next
  case (prints s e)
  then show ?case by (simp add: keeps)
next
  case (step s s')
  then show ?case by (simp add: kstep_keeps)
qed

subsection \<open>Properties\<close>

text \<open>C2: in every state the kernel can reach, whatever programs run and call, each pointer it keeps in
  the free list, in the scheduling lists and in \<open>curenv\<close> is inside the array of environments, the
  identifier of each environment is 0 or names its slot, each status is one of the three, and the
  scheduler's position is inside the array.\<close>

theorem kernel_invariant:
  assumes "reachable s"
  shows "kernel_ok s"
  by (rule reachable_ok [OF assms])

lemma reachable_boot: "reachable (env_init reset_state)"
  by (rule reachable.init) (simp_all add: reset_state_def)

lemma kernel_invariant_witness: "kernel_ok (env_init reset_state)"
  by (rule kernel_invariant [OF reachable_boot])

text \<open>C17: in every reachable state, \<open>envid2env\<close> finds each environment in use by its identifier, and no
  other environment has that identifier.\<close>

theorem ids_resolve:
  assumes r: "reachable s" and e: "e < NENV" "env_id (envs s e) \<noteq> 0" "env_status (envs s e) \<noteq> ENV_FREE"
  shows "envid2env (env_id (envs s e)) False s = (Inr (0, Some e), s) \<and>
    (\<forall>e' < NENV. env_id (envs s e') = env_id (envs s e) \<longrightarrow> e' = e)"
proof -
  have id: "\<And>x. x < NENV \<Longrightarrow> env_id (envs s x) = 0 \<or> ENVX (env_id (envs s x)) = x"
    using reachable_ok [OF r] by (simp add: kernel_ok_def)
  then have "ENVX (env_id (envs s e)) = e" using e by auto
  then show ?thesis using e id envid2env_found [of "env_id (envs s e)" e s] by metis
qed

lemma page_fold_envs:
  "envs (fold page_release is s) = envs s \<and> env_q (fold page_release is s) = env_q s \<and>
   sched_q (fold page_release is s) = sched_q s \<and> curenv (fold page_release is s) = curenv s \<and>
   sched_pos (fold page_release is s) = sched_pos s"
  "envs (fold page_reserve is s) = envs s \<and> env_q (fold page_reserve is s) = env_q s \<and>
   sched_q (fold page_reserve is s) = sched_q s \<and> curenv (fold page_reserve is s) = curenv s \<and>
   sched_pos (fold page_reserve is s) = sched_pos s"
  by (induction "is" arbitrary: s) (simp_all add: page_release_def page_reserve_def)

lemma page_init_envs: "envs (page_init s) = envs s" "env_q (page_init s) = env_q s"
  "sched_q (page_init s) = sched_q s" "curenv (page_init s) = curenv s" "sched_pos (page_init s) = sched_pos s"
  by (simp_all add: page_init_def Let_def page_fold_envs)

lemma ids_resolve_witness:
  "\<exists>s. reachable s \<and> env_id (envs s 0) = 0x800 \<and> envid2env 0x800 False s = (Inr (0, Some 0), s)"
proof -
  have r: "reachable env_state" unfolding env_state_def
    by (rule reachable.init) (simp_all add: small_state_def page_init_envs reset_state_def)
  from env_state_create(1) obtain el where el: "env_pool env_state (0 # el)" by blast
  from env_create_result [OF el env_state(2,3) env_state_create(2) _ env_state_create(4), of "0x80000" 0 1]
  obtain s where s: "env_create_priority 0x80000 0 1 env_state = (Inr (), s)"
    "env_status (envs s 0) = ENV_RUNNABLE" "env_id (envs s 0) = push_bit (1 + LOG2NENV) (next_env_id env_state + 1) OR 0"
    using env_state_create(3) by (auto simp del: pt_view.simps)
  have id: "env_id (envs s 0) = 0x800" using s(3) env_state(4) by (simp add: LOG2NENV_def)
  have rs: "reachable s" by (rule reachable.create [OF r s(1)])
  with ids_resolve [of s 0] s(2) id show ?thesis
    by (auto simp: NENV_def ENV_RUNNABLE_def ENV_FREE_def)
qed

end
