(* ===== verification/Kernel_Main.thy ===== *)
theory Kernel_Main
  imports Boot_Segment Kernel_Inv Ipc
begin

text \<open>
  Kernel_Main: \<^verbatim>\<open>main\<close> of \<^verbatim>\<open>init/main.c\<close> and \<^verbatim>\<open>printel\<close>, from the first instruction in C to the first
  program. The exception level that \<^verbatim>\<open>get_el\<close> reads, the linker's symbols and the address of the first
  program are arguments. \<^verbatim>\<open>uart_init_boot\<close> (see \<open>Uart\<close>), \<^verbatim>\<open>enable_mmu\<close>, \<^verbatim>\<open>irq_vector_init\<close> and
  \<^verbatim>\<open>enable_interrupt_controller\<close> write device and system registers only, which are no part of this state.
\<close>

subsection \<open>\<open>main\<close>\<close>

definition printel :: "u64 \<Rightarrow> kstate \<Rightarrow> kstate" where
  "printel el = kprintf (''Current exception level switched to: %d '' @ [CHR 0x0D, CHR 0x0A]) [VA_num el]"

text \<open>The two lines that say good-bye, as the bytes of their UTF-8 text.\<close>

definition farewell :: "string \<times> string" where
  "farewell = (map char_of
     ([10, 61, 61, 61, 62, 208, 156, 208, 190, 209, 143, 32, 208, 188, 208, 176, 208, 187, 208, 181, 208, 189, 209, 140,
       208, 186, 208, 176, 209, 143, 32, 208, 190, 208, 191, 208, 181, 209, 128, 208, 176, 209, 134, 208, 184, 208, 190,
       208, 189, 208, 189, 208, 176, 209, 143, 32, 209, 129, 208, 184, 209, 129, 209, 130, 208, 181, 208, 188, 208, 176,
       60, 61, 61, 61, 10] :: nat list),
     map char_of
     ([61, 61, 61, 62, 208, 151, 208, 176, 32, 208, 191, 208, 190, 208, 177, 208, 181, 208, 180, 209, 131, 239, 188, 140,
       208, 178, 208, 191, 208, 181, 209, 128, 208, 181, 208, 180, 46, 208, 163, 209, 128, 208, 176, 239, 188, 129,
       60, 61, 61, 61, 10, 10] :: nat list))"

definition kmain :: "u64 \<Rightarrow> u64 \<Rightarrow> u64 \<Rightarrow> u64 \<Rightarrow> unit kfun" where
  "kmain el end_addr data program s =
     (let s = kprintf (''>>>main.c:'' @ [CHR 0x09] @ ''main is start ...>>>'' @ [CHR 0x0A]) [] s;
          s = printel el s;
          s = kprintf (''>>>Uart is initialized'' @ [CHR 0x0A]) [] s;
          s = boot_mmu_setup end_addr data s;
          s = kprintf (''>>>MMU enabled'' @ [CHR 0x0A]) [] s;
          s = mips_detect_memory s
      in kbind aarch64_vm_init (\<lambda>_ s.
           let s = page_init s;
               s = env_init s
           in kbind (env_create_priority program 0 1) (\<lambda>_ s.
                let s = log Ev_timer s;
                    s = kprintf (''>>>timer interrupt started!'' @ [CHR 0x0A]) [] s;
                    s = kprintf (fst farewell) [] s;
                    s = kprintf (snd farewell) [] s
                in kpanic ''main is over,Halt!'' [] s) s) s)"

subsection \<open>The first tables form a tree\<close>

text \<open>The page behind \<^verbatim>\<open>_pg_dir\<close> that holds the table at a path.\<close>

definition boot_page :: "u64 list \<Rightarrow> u64 option" where
  "boot_page q = (case q of [] \<Rightarrow> Some 0 | [i] \<Rightarrow> (if i = 0 then Some 1 else if i = 1 then Some 506 else None)
     | [i, j] \<Rightarrow> (if i = 0 \<and> j < 504 then Some (2 + j) else None) | _ \<Rightarrow> None)"

lemma boot_page_le: "boot_page q = Some k \<Longrightarrow> k \<le> 506"
proof -
  have "2 + j \<le> 506" if "j < 504" for j :: u64
    using that by (simp add: word_le_nat_alt word_less_nat_alt unat_add_small)
  then show "boot_page q = Some k \<Longrightarrow> k \<le> 506"
    by (auto simp: boot_page_def split: list.splits if_splits)
qed

lemma boot_page_inj: "boot_page p = Some k \<Longrightarrow> boot_page q = Some k \<Longrightarrow> p = q"
proof -
  have "2 + j \<notin> {0, 1, 506}" if "j < 504" for j :: u64
  proof -
    have "unat (2 + j) = 2 + unat j" "unat j < 504" using that by (simp_all add: word_less_nat_alt unat_add_small)
    then show ?thesis by (auto simp: word_unat_eq_iff)
  qed
  then show "boot_page p = Some k \<Longrightarrow> boot_page q = Some k \<Longrightarrow> p = q"
    unfolding boot_page_def by (auto split: list.splits if_splits)
qed

text \<open>The directory pages that \<^verbatim>\<open>boot_mmu_setup\<close> does not fill completely hold zeros.\<close>

definition boot_ram :: "memory \<Rightarrow> u64 \<Rightarrow> bool" where
  "boot_ram m b \<longleftrightarrow> (\<forall>c < 512. load64 m (entry (page2pa b) c) = 0 \<and> load64 m (entry (page2pa (b + 506)) c) = 0)"

lemma block_no_table: "next_tab m t i = None" if "load64 m (entry t i) = push_bit 21 r OR 0x445"
proof -
  have "(push_bit 21 r OR 0x445 :: u64) AND 3 = 1"
  proof -
    have m: "(3 :: u64) = mask 2" by (simp add: mask_eq_exp_minus_1)
    show ?thesis unfolding m
      by (rule bit_word_eqI) (auto simp only: bit_and_iff bit_or_iff bit_mask_iff bit_push_bit_iff numeral_bits bit_1_iff, auto)
  qed
  then show ?thesis using that by (simp add: next_tab_def is_table_desc_def TYPE_PAGE_def)
qed

lemma boot_tree:
  fixes s :: kstate and data end_addr :: u64
  assumes b: "pg_dir s = page2pa b" "unat b + 600 \<le> 2 ^ 40" and e: "PUDX end_addr = 0" and z: "boot_ram (mem s) b"
  defines "m \<equiv> mem (boot_mmu_setup end_addr data s)"
  shows "is_path q \<Longrightarrow> tab m (page2pa b) q = map_option (\<lambda>k. page2pa (b + k)) (boot_page q)"
    "PUDX va = 3 \<Longrightarrow> load64 m (entry (page2pa b) (PUDX va)) = 0"
    "PUDX va = 1 \<Longrightarrow> PMDX va \<noteq> 0 \<Longrightarrow> load64 m (entry (page2pa (b + 506)) (PMDX va)) = 0"
proof -
  from boot_tables [OF b e, of data] have t: "load64 m (entry (page2pa b) 0) = page2pa (b + 1) OR 0x743"
      "load64 m (entry (page2pa b) 1) = page2pa (b + 506) OR 0x743"
      "\<And>r. r < 504 \<Longrightarrow> load64 m (entry (page2pa (b + 1)) r) = page2pa (b + 2 + r) OR 0x743"
      "\<And>r. r < 512 \<Longrightarrow> 504 \<le> r \<Longrightarrow> load64 m (entry (page2pa (b + 1)) r) = push_bit 21 r OR 0x445"
      "load64 m (entry (page2pa (b + 506)) 0) = push_bit 21 512 OR 0x445"
      "\<And>c. c < 512 \<Longrightarrow> 2 \<le> c \<Longrightarrow> load64 m (entry (page2pa b) c) = 0"
      "\<And>c. c < 512 \<Longrightarrow> 1 \<le> c \<Longrightarrow> load64 m (entry (page2pa (b + 506)) c) = 0"
    using z unfolding m_def boot_ram_def by (auto simp: Let_def)
  have desc: "is_table_desc (page2pa p OR 0x743)" "PTE_ADDR (page2pa p OR 0x743) = page2pa p" for p
    by (simp_all add: is_table_desc_def or_and_low TYPE_PAGE_def PTE_ADDR_or)
  have ge: "c = 0 \<or> 1 \<le> c" "c = 0 \<or> c = 1 \<or> 2 \<le> c" for c :: u64 by (auto simp: word_le_nat_alt word_unat_eq_iff)
  have nz: "load64 m (entry x i) = 0 \<Longrightarrow> next_tab m x i = None" for x i by (simp add: next_tab_def)
  have n0: "next_tab m (page2pa b) i = map_option (\<lambda>k. page2pa (b + k)) (boot_page [i])" if "i < 512" for i
    using that t(1,2) t(6) [of i] ge(2) [of i] by (auto simp: boot_page_def desc next_tab_def)
  have n1: "next_tab m (page2pa (b + 1)) j = map_option (\<lambda>k. page2pa (b + k)) (boot_page [0, j])" if "j < 512" for j
    using that t(3) [of j] block_no_table [OF t(4) [of j]] by (auto simp: boot_page_def desc next_tab_def add.assoc not_less)
  have n2: "next_tab m (page2pa (b + 506)) j = None" if "j < 512" for j
    using that ge(1) [of j] nz [OF t(7) [of j]] block_no_table [OF t(5)] by auto
  show "tab m (page2pa b) q = map_option (\<lambda>k. page2pa (b + k)) (boot_page q)" if "is_path q" for q
  proof -
    from that consider "q = []" | i where "q = [i]" "i < 512" | i j where "q = [i, j]" "i < 512" "j < 512"
      by (auto simp: is_path_def length_Suc_conv le_Suc_eq numeral_2_eq_2)
    then show ?thesis
    proof cases
      case 3
      then show ?thesis using n0 [of i] n1 [of j] n2 [of j] by (simp add: boot_page_def)
    qed (simp_all add: n0, simp add: boot_page_def)
  qed
  show "PUDX va = 3 \<Longrightarrow> load64 m (entry (page2pa b) (PUDX va)) = 0" using t(6) [of 3] by simp
  show "PUDX va = 1 \<Longrightarrow> PMDX va \<noteq> 0 \<Longrightarrow> load64 m (entry (page2pa (b + 506)) (PMDX va)) = 0"
    using t(7) [of "PMDX va"] ge(1) [of "PMDX va"] by simp
qed

subsection \<open>From the first tables to \<open>aarch64_vm_init\<close>\<close>

text \<open>All but the memory, \<^verbatim>\<open>freemem\<close> and the trace.\<close>

definition core :: "kstate \<Rightarrow> kstate" where
  "core s = s\<lparr>mem := (\<lambda>_. 0), freemem := 0, trace := []\<rparr>"

lemma core_upd [simp]: "core (s\<lparr>mem := m\<rparr>) = core s" "core (s\<lparr>freemem := f\<rparr>) = core s" "core (log e s) = core s"
  by (simp_all add: core_def log_def)

lemma core_boot [simp]: "core (put_entry t i v s) = core s" "core (boot_table t i s) = core s" "core (boot_leaf d p r i s) = core s"
  "core (boot_device p r s) = core s"
  by (simp_all add: put_entry_def boot_table_def boot_leaf_def boot_device_def Let_def)

lemma core_fold: "(\<And>x s. core (f x s) = core s) \<Longrightarrow> core (fold f xs s) = core s"
  by (induction xs arbitrary: s) simp_all

lemma core_boot_mmu_setup: "core (boot_mmu_setup end_addr data s) = core s"
  by (simp add: boot_mmu_setup_def Let_def kprintf_eq core_fold boot_row_def)

lemma core_fields:
  assumes "core s' = core s"
  shows "pg_dir s' = pg_dir s" "envs s' = envs s" "env_q s' = env_q s" "sched_q s' = sched_q s" "curenv s' = curenv s"
    "sched_pos s' = sched_pos s" "next_env_id s' = next_env_id s"
  using assms unfolding core_def by (auto dest: arg_cong [where f = pg_dir] arg_cong [where f = envs] arg_cong [where f = env_q]
    arg_cong [where f = sched_q] arg_cong [where f = curenv] arg_cong [where f = sched_pos] arg_cong [where f = next_env_id])

text \<open>The state in which \<^verbatim>\<open>main\<close> calls \<open>aarch64_vm_init\<close>.\<close>

definition boot_done :: "u64 \<Rightarrow> u64 \<Rightarrow> u64 \<Rightarrow> kstate \<Rightarrow> kstate" where
  "boot_done el end_addr data s = mips_detect_memory (kprintf (''>>>MMU enabled'' @ [CHR 0x0A]) []
     (boot_mmu_setup end_addr data (kprintf (''>>>Uart is initialized'' @ [CHR 0x0A]) [] (printel el
       (kprintf (''>>>main.c:'' @ [CHR 0x09] @ ''main is start ...>>>'' @ [CHR 0x0A]) [] s)))))"

lemma boot_done_fields:
  "mem (boot_done el end_addr data s) = mem (boot_mmu_setup end_addr data (kprintf (''>>>Uart is initialized'' @ [CHR 0x0A]) []
     (printel el (kprintf (''>>>main.c:'' @ [CHR 0x09] @ ''main is start ...>>>'' @ [CHR 0x0A]) [] s))))"
  "freemem (boot_done el end_addr data s) = freemem (boot_mmu_setup end_addr data (kprintf (''>>>Uart is initialized'' @ [CHR 0x0A]) []
     (printel el (kprintf (''>>>main.c:'' @ [CHR 0x09] @ ''main is start ...>>>'' @ [CHR 0x0A]) [] s))))"
  "npage (boot_done el end_addr data s) = 0x40000" "maxpa (boot_done el end_addr data s) = 0x40000000"
  by (simp_all add: boot_done_def mips_detect_memory_def Let_def kprintf_eq printel_def)

lemma boot_done_core:
  assumes "s' = boot_done el end_addr data s"
  shows "pg_dir s' = pg_dir s" "envs s' = envs s" "env_q s' = env_q s" "sched_q s' = sched_q s" "curenv s' = curenv s"
    "sched_pos s' = sched_pos s" "next_env_id s' = next_env_id s"
proof -
  define u where "u = boot_mmu_setup end_addr data (kprintf (''>>>Uart is initialized'' @ [CHR 0x0A]) [] (printel el
       (kprintf (''>>>main.c:'' @ [CHR 0x09] @ ''main is start ...>>>'' @ [CHR 0x0A]) [] s)))"
  have "core u = core s" unfolding u_def by (simp add: core_boot_mmu_setup printel_def kprintf_eq)
  note f = core_fields [OF this]
  show "pg_dir s' = pg_dir s" "envs s' = envs s" "env_q s' = env_q s" "sched_q s' = sched_q s" "curenv s' = curenv s"
    "sched_pos s' = sched_pos s" "next_env_id s' = next_env_id s"
    unfolding assms boot_done_def u_def [symmetric] by (simp_all add: mips_detect_memory_def Let_def kprintf_eq f)
qed

lemma window_index:
  assumes "0x50000000 \<le> va" "va < 0x52000000"
  shows "PUDX va = 1" "PMDX va \<noteq> 0"
proof -
  have "unat (drop_bit 30 va) = unat va div 2 ^ 30" "unat (drop_bit 21 va) = unat va div 2 ^ 21"
    by (simp_all only: unat_drop_bit_eq drop_bit_eq_div [where 'a = nat])
  moreover have "unat va div 2 ^ 30 = 1" "640 \<le> unat va div 2 ^ 21" "unat va div 2 ^ 21 < 656"
    using assms by (simp_all add: word_le_nat_alt word_less_nat_alt)
  ultimately have u: "unat (drop_bit 30 va) = 1" "640 \<le> unat (drop_bit 21 va)" "unat (drop_bit 21 va) < 656" by simp_all
  then have "drop_bit 30 va = 1" by (simp add: word_unat_eq_iff)
  then show "PUDX va = 1" by (simp add: PUDX_def)
  have "unat (PMDX va) = unat (drop_bit 21 va) mod 512"
    by (simp add: PMDX_def mask9_eq take_bit_eq_mask [symmetric] unsigned_take_bit_eq take_bit_eq_mod unat_mod del: unsigned_drop_bit_eq)
  moreover have "128 \<le> x mod 512" if "640 \<le> x" "x < 656" for x :: nat using that by (simp add: le_mod_geq)
  ultimately have "128 \<le> unat (PMDX va)" using u(2,3) by metis
  then show "PMDX va \<noteq> 0" by auto
qed

lemma boot_page_address:
  assumes "unat b + 507 \<le> 0x20000" "k \<le> 506"
  shows "unat (page2pa (b + k)) = 4096 * (unat b + unat k)"
proof -
  have "unat (b + k) = unat b + unat k" using assms by (simp add: unat_add_small word_le_nat_alt)
  moreover have "b + k < 2 ^ 40" using calculation assms by (simp add: word_less_nat_alt word_le_nat_alt)
  ultimately show ?thesis using unat_page2pa by simp
qed

text \<open>A memory whose tables are those of \<open>boot_page\<close> is ready for \<open>boot_alloc\<close>.\<close>

lemma boot_page_ok:
  assumes tree: "\<And>q. is_path q \<Longrightarrow> tab (mem s) (page2pa b) q = map_option (\<lambda>k. page2pa (b + k)) (boot_page q)"
    and b: "0 < b" "unat b + 507 \<le> 0x20000" and f: "freemem s = page2pa (b + 507)" "unat (freemem s) = 4096 * (unat b + 507)"
  shows "boot_ok s (page2pa b)"
proof -
  note pg = boot_page_address [OF b(2)]
  have "pt_inj (mem s) (page2pa b)"
    unfolding pt_inj_def
  proof (intro allI impI)
    fix q1 q2 t assume q: "is_path q1" "is_path q2" "tab (mem s) (page2pa b) q1 = Some t" "tab (mem s) (page2pa b) q2 = Some t"
    then obtain k1 k2 where k: "boot_page q1 = Some k1" "boot_page q2 = Some k2" "page2pa (b + k1) = page2pa (b + k2)"
      using tree by auto
    then have "unat k1 = unat k2" using pg [OF boot_page_le [OF k(1)]] pg [OF boot_page_le [OF k(2)]] by simp
    then show "q1 = q2" using k(1,2) by (auto simp: word_unat_eq_iff [symmetric] intro: boot_page_inj)
  qed
  moreover have "0 < t \<and> t < freemem s" if "is_tab (mem s) (page2pa b) t" for t
  proof -
    from that tree obtain q k where k: "boot_page q = Some k" "t = page2pa (b + k)" by (auto simp: is_tab_def)
    have "unat k \<le> 506" using boot_page_le [OF k(1)] by (simp add: word_le_nat_alt)
    then show ?thesis using pg [OF boot_page_le [OF k(1)]] b(1) f(2) k(2) by (simp add: word_less_nat_alt)
  qed
  ultimately show ?thesis by (simp add: boot_ok_def f(1))
qed

lemma boot_done_ready:
  fixes s :: kstate and el end_addr data va :: u64
  assumes p: "pg_dir s = page2pa b" "0 < b" "unat b + 507 \<le> 0x20000" and e: "PUDX end_addr = 0" and z: "boot_ram (mem s) b"
  defines "s' \<equiv> boot_done el end_addr data s"
  shows "vm_ready (pg_dir s) 0x20000000 s'"
    "PUDX va = 3 \<Longrightarrow> no_block (mem s') (pg_dir s) va \<and> pt_view (mem s') (pg_dir s) (va_slot va) = 0"
    "va < 0x3f000000 \<Longrightarrow> pt_view (mem s') (pg_dir s) (va_slot va) = kernel_leaf data (page2pa (PPN va))"
    "PUDX va = 1 \<Longrightarrow> PMDX va \<noteq> 0 \<Longrightarrow> no_block (mem s') (pg_dir s) va \<and> pt_view (mem s') (pg_dir s) (va_slot va) = 0"
proof -
  let ?p = "pg_dir s"
  define u where "u = kprintf (''>>>Uart is initialized'' @ [CHR 0x0A]) []
     (printel el (kprintf (''>>>main.c:'' @ [CHR 0x09] @ ''main is start ...>>>'' @ [CHR 0x0A]) [] s))"
  have u: "pg_dir u = page2pa b" "boot_ram (mem u) b" "unat b + 600 \<le> 2 ^ 40"
    using p z by (simp_all add: u_def kprintf_eq printel_def)
  have m: "mem s' = mem (boot_mmu_setup end_addr data u)" and f: "freemem s' = freemem (boot_mmu_setup end_addr data u)"
    unfolding s'_def u_def by (rule boot_done_fields)+
  note tree = boot_tree [OF u(1,3) e u(2), of _ data, folded m]
  have "freemem s' = page2pa (b + 507)" using boot_tables [OF u(1,3) e, of data] unfolding f by blast
  moreover have "unat (b + 507) = unat b + 507" using u(3) by (simp add: unat_add_small)
  ultimately have free: "freemem s' = page2pa (b + 507)" "unat (freemem s') = 4096 * (unat b + 507)"
    using unat_page2pa [of "b + 507"] p(3) by (simp_all add: word_less_nat_alt)
  have ok: "boot_ok s' ?p" unfolding p(1) by (rule boot_page_ok [OF tree(1) p(2,3) free])
  have "tab (mem s') (page2pa b) [1] = Some (page2pa (b + 506))" using tree(1) [of "[1]"] by (simp add: is_path_def boot_page_def)
  then have n1: "next_tab (mem s') (page2pa b) 1 = Some (page2pa (b + 506))" "is_table_desc (load64 (mem s') (entry (page2pa b) 1))"
    by (simp_all add: next_tab_def Let_def split: if_splits)
  show nb: "no_block (mem s') ?p va \<and> pt_view (mem s') ?p (va_slot va) = 0" if "PUDX va = 1" "PMDX va \<noteq> 0" for va
    using n1 tree(3) [OF that] that(1) by (simp add: no_block_def ok_entry_def next_tab_def va_slot_def p(1))
  show "vm_ready ?p 0x20000000 s'"
    unfolding vm_ready_def using ok nb [OF window_index] free(2) p(3) boot_done_core [OF s'_def [THEN meta_eq_to_obj_eq]] boot_done_fields(3,4)
    by (simp add: s'_def)
  show "no_block (mem s') ?p va \<and> pt_view (mem s') ?p (va_slot va) = 0" if "PUDX va = 3"
    using tree(2) [OF that] that by (auto simp: no_block_def ok_entry_def next_tab_def va_slot_def p(1))
  show "pt_view (mem s') ?p (va_slot va) = kernel_leaf data (page2pa (PPN va))" if "va < 0x3f000000"
    using low_leaf(2) [OF u(1,3) e that, of data] by (simp add: m u(1) p(1))
qed

subsection \<open>The first program\<close>

text \<open>\<open>page_init\<close> after \<open>aarch64_vm_init\<close>: every table lies before the pages it frees.\<close>

lemma page_init_vm:
  assumes ok: "boot_ok s pud" and n: "npage s = 0x40000" and room: "unat (freemem s) < 0x3f000000"
  shows "\<exists>p p2 p3 fl. pool_ok (page_init s) (p # p2 # p3 # fl) \<and> pt_ok (mem s) pud (p # p2 # p3 # fl) \<and> mem (page_init s) = mem s"
proof -
  have al: "page_aligned pud" "page_aligned (freemem s)" and inj: "pt_inj (mem s) pud"
    and tb: "\<And>t. is_tab (mem s) pud t \<Longrightarrow> 0 < t \<and> t < freemem s" using ok by (auto simp: boot_ok_def)
  define k where "k = freemem s div BY2PG"
  have r: "ROUND (freemem s) BY2PG = freemem s" using room by (intro ROUND_page al) simp
  from al(2) obtain q where q: "unat (freemem s) = 4096 * q" by (auto simp: page_aligned_def)
  have uk: "unat k = q" "k < 0x3f000" using q room by (simp_all add: k_def BY2PG_def unat_div word_less_nat_alt)
  have "pud < freemem s" "0 < pud" using tb [OF is_tabI [of "[]"]] by auto
  then have k0: "0 < k" using q uk(1) by (auto simp: word_less_nat_alt intro: gr0I)
  have i: "pool_ok (page_init s) (rev (counter k (npage s)))" "mem (page_init s) = mem s"
    using page_init_pool [of s] n r k0 by (simp_all add: k_def)
  have mem: "set (rev (counter k (npage s))) = {x. k \<le> x \<and> x < 0x40000}" using n by (simp add: set_counter)
  have "pt_ok (mem s) pud (rev (counter k (npage s)))"
    unfolding pt_ok_def mem
  proof (intro conjI allI impI al(1) inj)
    fix t assume t: "is_tab (mem s) pud t"
    show "t \<noteq> 0" using tb [OF t] by auto
    show "t \<notin> page2pa ` {x. k \<le> x \<and> x < 0x40000}"
    proof
      assume "t \<in> page2pa ` {x. k \<le> x \<and> x < 0x40000}"
      then obtain x where x: "t = page2pa x" "k \<le> x" "x < 0x40000" by auto
      then have "x < 2 ^ 40" by (auto simp: word_less_nat_alt)
      then have "unat t = 4096 * unat x" using x(1) unat_page2pa by simp
      then show False using tb [OF t] x(2) uk(1) q by (simp add: word_less_nat_alt word_le_nat_alt)
    qed
  qed
  moreover have "3 \<le> length (rev (counter k (npage s)))" using uk n by (simp add: counter_def word_less_nat_alt)
  then obtain p p2 p3 fl where "rev (counter k (npage s)) = p # p2 # p3 # fl"
    by (metis Suc_le_length_iff numeral_3_eq_3)
  ultimately show ?thesis using i by metis
qed

lemma page_init_rest: "pg_dir (page_init s) = pg_dir s" "next_env_id (page_init s) = next_env_id s"
proof -
  have "pg_dir (fold page_release is s) = pg_dir s" "pg_dir (fold page_reserve is s) = pg_dir s" for "is" s
    by (induction "is" arbitrary: s) (simp_all add: page_release_def page_reserve_def)
  then show "pg_dir (page_init s) = pg_dir s" "next_env_id (page_init s) = next_env_id s"
    by (simp_all add: page_init_def Let_def page_fold_next)
qed

lemma mmu_by_view: "is_table_desc (pt_view m pud (va_slot va)) \<Longrightarrow> mmu_page m pud va = Some (page2pa (PPN (pt_view m pud (va_slot va))))"
  by (rule mmu_page_view [of _ _ _ "the (tab m pud (va_path va))"]) (auto simp: pt_view_va split: option.splits)

lemma env_init_keeps: "curenv (env_init s) = curenv s" "sched_pos (env_init s) = sched_pos s"
proof -
  have "curenv (fold env_release is s) = curenv s" "sched_pos (fold env_release is s) = sched_pos s" for "is" s
    by (induction "is" arbitrary: s) (simp_all add: env_release_def env_upd_def Let_def)
  then show "curenv (env_init s) = curenv s" "sched_pos (env_init s) = sched_pos s" by (simp_all add: env_init_def Let_def)
qed

text \<open>The start of the first program, from the state behind \<open>aarch64_vm_init\<close>.\<close>

lemma first_program:
  assumes ok: "boot_ok s (pg_dir s)" and n: "npage s = 0x40000" and room: "unat (freemem s) < 0x3f000000"
    and fresh: "envs s = (\<lambda>_. reset_env)" "env_q s = no_lists" "sched_q s = no_lists" "curenv s = None"
      "sched_pos s = - 1" "next_env_id s = 0"
    and sv: "no_block (mem s) (pg_dir s) (USTACKTOP - BY2PG)" "pt_view (mem s) (pg_dir s) (va_slot (USTACKTOP - BY2PG)) = 0"
  shows "\<exists>s'. env_create_priority program sz pri (env_init (page_init s)) = (Inr (), s') \<and> reachable s' \<and>
    curenv s' = None \<and> sched_pos s' = - 1 \<and> env_status (envs s' 0) = ENV_RUNNABLE \<and> env_id (envs s' 0) = 0x800 \<and>
    tf_pc (env_tf (envs s' 0)) = program \<and> tf_sp (env_tf (envs s' 0)) = USTACKTOP \<and>
    (\<forall>sl. is_slot sl \<longrightarrow> sl \<noteq> va_slot (USTACKTOP - BY2PG) \<longrightarrow>
      pt_view (mem s') (env_pgdir (envs s' 0)) sl = pt_view (mem s) (pg_dir s) sl)"
proof -
  let ?e = "env_init (page_init s)"
  from page_init_vm [OF ok n room] obtain p p2 p3 fl where
    pl: "pool_ok (page_init s) (p # p2 # p3 # fl)" "pt_ok (mem s) (pg_dir s) (p # p2 # p3 # fl)" "mem (page_init s) = mem s" by blast
  from counter_NENV obtain el where el: "counter 0 NENV = 0 # el" by blast
  have e: "mem ?e = mem s" "pg_dir ?e = pg_dir s" "next_env_id ?e = 0" "pool_ok ?e (p # p2 # p3 # fl)" "env_pool ?e (0 # el)"
    using pl el env_init_pool [of "page_init s"] fresh(6) by (simp_all add: env_init_fields page_init_rest pool_ok_def)
  have r: "reachable ?e" by (rule reachable.init) (simp_all add: page_init_envs fresh)
  have q: "lst (sched_q ?e) (cur_sched ?e) []" by (simp add: env_init_def Let_def lst_def set_first_def end_ref_def)
  have c: "curenv ?e = None" "sched_pos ?e = - 1"
    using fresh(4,5) by (simp_all add: env_init_keeps page_init_envs)
  from env_create_result [of ?e 0 el p p2 "p3 # fl" "[]" program sz pri] e q sv pl(2) obtain s' where
    s': "env_create_priority program sz pri ?e = (Inr (), s')" "curenv s' = curenv ?e" "sched_pos s' = sched_pos ?e"
    "env_status (envs s' 0) = ENV_RUNNABLE" "env_id (envs s' 0) = push_bit (1 + LOG2NENV) 1 OR 0"
    "tf_pc (env_tf (envs s' 0)) = program" "tf_sp (env_tf (envs s' 0)) = USTACKTOP"
    "\<And>sl. is_slot sl \<Longrightarrow> sl \<noteq> va_slot (USTACKTOP - BY2PG) \<Longrightarrow>
      pt_view (mem s') (env_pgdir (envs s' 0)) sl = pt_view (mem s) (pg_dir s) sl"
    by (auto simp del: pt_view.simps split_paired_All)
  moreover have "reachable s'" by (rule reachable.create [OF r s'(1)])
  ultimately show ?thesis using c by (intro exI [of _ s']) (simp add: LOG2NENV_def del: pt_view.simps split_paired_All)
qed

lemma kmain_eq:
  assumes "aarch64_vm_init (boot_done el end_addr data s) = (Inr (), s1)"
    and "env_create_priority program 0 1 (env_init (page_init s1)) = (Inr (), s2)"
  shows "\<exists>es. kmain el end_addr data program s = (Inl Panicked, fold log es s2)"
  using assms
  by (intro exI [of _ "[Ev_timer, Ev_printf (''>>>timer interrupt started!'' @ [CHR 0x0A]) [], Ev_printf (fst farewell) [],
      Ev_printf (snd farewell) [], Ev_panic ''main is over,Halt!'' []]"])
    (simp add: kmain_def boot_done_def Let_def kprintf_eq kpanic_def)

lemma fold_log: "reachable s \<Longrightarrow> reachable (fold log es s)" "envs (fold log es s) = envs s" "mem (fold log es s) = mem s"
  "curenv (fold log es s) = curenv s" "sched_pos (fold log es s) = sched_pos s"
  by (induction es arbitrary: s) (simp_all add: reachable.prints)

lemma first_timer:
  assumes c: "curenv s = None" "sched_pos s = - 1" and r: "env_status (envs s 0) = ENV_RUNNABLE"
  shows "\<exists>s'. handle_irq (s\<lparr>timestack_tf := tf\<rparr>) = (Inl Enter_user, s') \<and> curenv s' = Some 0 \<and> mem s' = mem s \<and>
    envs s' = (envs s)(0 := (envs s 0)\<lparr>env_runs := env_runs (envs s 0) + 1\<rparr>)"
proof -
  have "sched_search (envs s) (- 1) = Some 0" using r by (subst sched_search.simps) simp
  then show ?thesis using c by (simp add: handle_irq_def sched_yield_def env_run_def env_upd_def Let_def tlb_invalidate_eq)
qed

text \<open>The lists and the scheduler as the loader leaves them.\<close>

definition untouched :: "kstate \<Rightarrow> bool" where
  "untouched s \<longleftrightarrow> envs s = (\<lambda>_. reset_env) \<and> env_q s = no_lists \<and> sched_q s = no_lists \<and> curenv s = None \<and>
     sched_pos s = - 1 \<and> next_env_id s = 0"

text \<open>The state in which \<^verbatim>\<open>main\<close> calls \<open>page_init\<close>.\<close>

lemma vm_init_boot:
  fixes m :: memory and el end_addr data b :: u64
  defines "d \<equiv> boot_done el end_addr data (reset_state\<lparr>mem := m, pg_dir := page2pa b\<rparr>)"
  assumes b: "0 < b" "unat b + 507 \<le> 0x20000" and e: "PUDX end_addr = 0" and z: "boot_ram m b"
  shows "\<exists>s1. aarch64_vm_init d = (Inr (), s1) \<and> boot_ok s1 (pg_dir s1) \<and> pg_dir s1 = page2pa b \<and> npage s1 = 0x40000 \<and>
    unat (freemem s1) < 0x3f000000 \<and> untouched s1 \<and> mmu_page (mem s1) (pg_dir s1) UPAGES = Some (pages s1) \<and>
    (\<forall>va < 2 ^ 39. 0x52000000 \<le> va \<longrightarrow> PUDX va = 3 \<or> PUDX va = 1 \<and> PMDX va \<noteq> 0 \<longrightarrow>
      no_block (mem s1) (pg_dir s1) va \<and> pt_view (mem s1) (pg_dir s1) (va_slot va) = 0) \<and>
    (\<forall>va < 0x3f000000. pt_view (mem s1) (pg_dir s1) (va_slot va) = kernel_leaf data (page2pa (PPN va)))"
proof -
  let ?s = "reset_state\<lparr>mem := m, pg_dir := page2pa b\<rparr>"
  have s: "pg_dir ?s = page2pa b" "boot_ram (mem ?s) b" using z by simp_all
  note ready = boot_done_ready [OF s(1) b e s(2), where el = el and data = data, folded d_def]
  note core = boot_done_core [of d el end_addr data ?s, OF d_def [THEN meta_eq_to_obj_eq]]
  have rd: "vm_ready (pg_dir d) 0x20000000 d" using ready(1) core(1) by simp
  from vm_init_result [OF rd] obtain s1 where
    1: "aarch64_vm_init d = (Inr (), s1)" "boot_ok s1 (pg_dir d)" "pg_dir s1 = pg_dir d" "npage s1 = npage d"
      "heads_kept d s1" "unat (freemem s1) \<le> unat (freemem d) + 0x133E000" "envs s1 = (\<lambda>_. reset_env)"
      "\<forall>i < 1536. mmu_page (mem s1) (pg_dir d) (UPAGES + 4096 * word_of_nat i) = Some (pages s1 + 4096 * word_of_nat i)"
    and nb: "\<forall>va. no_block (mem d) (pg_dir d) va \<longrightarrow> no_block (mem s1) (pg_dir d) va"
    and "\<forall>va < 2 ^ 39. \<not> vm_window va \<longrightarrow>
      pt_view (mem s1) (pg_dir d) (va_slot va) = pt_view (mem d) (pg_dir d) (va_slot va)" by blast
  then have v: "\<forall>va < 2 ^ 39. va < 0x50000000 \<or> 0x52000000 \<le> va \<longrightarrow>
      pt_view (mem s1) (pg_dir d) (va_slot va) = pt_view (mem d) (pg_dir d) (va_slot va)"
    using vm_window_range by (metis not_le)
  have u: "untouched s1" using 1(5,7) core
    by (simp add: untouched_def heads_kept_def reset_state_def unlinked_def no_lists_def)
  have room: "npage s1 = 0x40000" "unat (freemem s1) < 0x3f000000" using rd 1(4,6) by (simp_all add: vm_ready_def)
  have up: "mmu_page (mem s1) (pg_dir s1) UPAGES = Some (pages s1)" using 1(8) [rule_format, of 0] 1(3) by simp
  have g: "pg_dir s1 = page2pa b" "pg_dir d = page2pa b" using 1(3) core(1) by simp_all
  have free: "no_block (mem s1) (pg_dir s1) va \<and> pt_view (mem s1) (pg_dir s1) (va_slot va) = 0"
    if "va < 2 ^ 39" "0x52000000 \<le> va" "PUDX va = 3 \<or> PUDX va = 1 \<and> PMDX va \<noteq> 0" for va
    using ready(2,4) [of va] nb v that g by (auto simp del: pt_view.simps)
  have low: "pt_view (mem s1) (pg_dir s1) (va_slot va) = kernel_leaf data (page2pa (PPN va))" if "va < 0x3f000000" for va
  proof -
    have "va < 2 ^ 39" "va < 0x50000000" using that by (auto elim: order.strict_trans)
    then show ?thesis using v ready(3) [OF that] g by (simp del: pt_view.simps)
  qed
  show ?thesis using 1(1,2,3) g(1) room u up free low by (intro exI [of _ s1]) (simp del: pt_view.simps)
qed

lemma kmain_result:
  fixes m :: memory and el end_addr data program b :: u64
  defines "s \<equiv> reset_state\<lparr>mem := m, pg_dir := page2pa b\<rparr>"
  assumes b: "0 < b" "unat b + 507 \<le> 0x20000" and e: "PUDX end_addr = 0" and z: "boot_ram m b"
  shows "\<exists>s2 es. kmain el end_addr data program s = (Inl Panicked, fold log es s2) \<and> reachable s2 \<and>
    curenv s2 = None \<and> sched_pos s2 = - 1 \<and> env_status (envs s2 0) = ENV_RUNNABLE \<and> env_id (envs s2 0) = 2048 \<and>
    tf_pc (env_tf (envs s2 0)) = program \<and> tf_sp (env_tf (envs s2 0)) = USTACKTOP \<and>
    (\<forall>va < 0x3f000000. pt_view (mem s2) (env_pgdir (envs s2 0)) (va_slot va) = kernel_leaf data (page2pa (PPN va)))"
proof -
  let ?d = "boot_done el end_addr data s" and ?sv = "USTACKTOP - BY2PG"
  have sv: "PUDX ?sv = 3" "?sv < 2 ^ 39" "0x52000000 \<le> ?sv" by (simp_all add: PUDX_def USTACKTOP_def UTOP_def BY2PG_def)
  from vm_init_boot [OF b e z, of el data, folded s_def] obtain s1 where
    1: "aarch64_vm_init ?d = (Inr (), s1)" "boot_ok s1 (pg_dir s1)" "npage s1 = 0x40000" "unat (freemem s1) < 0x3f000000" "untouched s1"
    and stack: "no_block (mem s1) (pg_dir s1) ?sv" "pt_view (mem s1) (pg_dir s1) (va_slot ?sv) = 0"
    and v: "\<forall>va < 0x3f000000. pt_view (mem s1) (pg_dir s1) (va_slot va) = kernel_leaf data (page2pa (PPN va))" using sv by blast
  have fresh: "envs s1 = (\<lambda>_. reset_env)" "env_q s1 = no_lists" "sched_q s1 = no_lists" "curenv s1 = None" "sched_pos s1 = - 1"
    "next_env_id s1 = 0" using 1(5) by (simp_all add: untouched_def)
  from first_program [OF 1(2-4) fresh stack, of program 0 1] obtain s2 where
    2: "env_create_priority program 0 1 (env_init (page_init s1)) = (Inr (), s2)" "reachable s2 \<and> curenv s2 = None \<and>
      sched_pos s2 = - 1 \<and> env_status (envs s2 0) = ENV_RUNNABLE \<and> env_id (envs s2 0) = 0x800 \<and>
      tf_pc (env_tf (envs s2 0)) = program \<and> tf_sp (env_tf (envs s2 0)) = USTACKTOP"
    and v2: "\<forall>sl. is_slot sl \<longrightarrow> sl \<noteq> va_slot ?sv \<longrightarrow> pt_view (mem s2) (env_pgdir (envs s2 0)) sl = pt_view (mem s1) (pg_dir s1) sl"
    by blast
  have "pt_view (mem s2) (env_pgdir (envs s2 0)) (va_slot va) = kernel_leaf data (page2pa (PPN va))" if "va < 0x3f000000" for va
  proof -
    have "va < 2 ^ 30" using that by (auto elim: order.strict_trans)
    then have "va_slot va \<noteq> va_slot ?sv" using low_va_index(1) [of va] sv(1) by (simp add: va_slot_def)
    then show ?thesis using v2 v that by (simp del: pt_view.simps split_paired_All)
  qed
  then show ?thesis using kmain_eq [OF 1(1) 2(1)] 2(2) by (auto simp del: pt_view.simps)
qed

text \<open>C1: the kernel boots. Started by the loader with cleared variables, with the tables' pages clear
  and with room for the tables below 512 MiB, \<^verbatim>\<open>main\<close> runs through the whole initialisation to its
  last line, the intended halt. The first timer interrupt then enters user mode in the environment
  0: it is runnable, has the identifier 2048, starts at the given program with the stack at
  \<^verbatim>\<open>USTACKTOP\<close>, and its own page directory takes every address below the devices, and so its code, to
  itself. From there on the kernel is in a reachable state, to which the invariant applies.
\<close>

theorem kernel_boots:
  fixes m :: memory and el end_addr data program b :: u64
  defines "s \<equiv> reset_state\<lparr>mem := m, pg_dir := page2pa b\<rparr>"
  assumes b: "0 < b" "unat b + 507 \<le> 0x20000" and e: "PUDX end_addr = 0" and z: "boot_ram m b"
  shows "\<exists>s' s''. kmain el end_addr data program s = (Inl Panicked, s') \<and>
    handle_irq (s'\<lparr>timestack_tf := tf\<rparr>) = (Inl Enter_user, s'') \<and> reachable s'' \<and> curenv s'' = Some 0 \<and>
    env_status (envs s'' 0) = ENV_RUNNABLE \<and> env_id (envs s'' 0) = 2048 \<and>
    tf_pc (env_tf (envs s'' 0)) = program \<and> tf_sp (env_tf (envs s'' 0)) = USTACKTOP \<and>
    (\<forall>va < 0x3f000000. mmu_page (mem s'') (env_pgdir (envs s'' 0)) va = Some (PTE_ADDR va))"
proof -
  from kmain_result [OF b e z, of el data program] obtain s2 es where
    k: "kmain el end_addr data program s = (Inl Panicked, fold log es s2)" and 2: "reachable s2" "curenv s2 = None"
      "sched_pos s2 = - 1" "env_status (envs s2 0) = ENV_RUNNABLE" "env_id (envs s2 0) = 2048"
      "tf_pc (env_tf (envs s2 0)) = program" "tf_sp (env_tf (envs s2 0)) = USTACKTOP"
    and v: "\<forall>va < 0x3f000000. pt_view (mem s2) (env_pgdir (envs s2 0)) (va_slot va) = kernel_leaf data (page2pa (PPN va))"
    unfolding s_def by blast
  from first_timer [of "fold log es s2" tf] 2(2-4) obtain s3 where
    3: "handle_irq ((fold log es s2)\<lparr>timestack_tf := tf\<rparr>) = (Inl Enter_user, s3)" "curenv s3 = Some 0" "mem s3 = mem s2"
      "envs s3 = (envs s2)(0 := (envs s2 0)\<lparr>env_runs := env_runs (envs s2 0) + 1\<rparr>)"
    by (auto simp: fold_log)
  have "reachable s3" by (rule reachable.step [OF fold_log(1) [OF 2(1)] kstep.timer [OF 3(1)]])
  moreover have "mmu_page (mem s3) (env_pgdir (envs s3 0)) va = Some (PTE_ADDR va)" if "va < 0x3f000000" for va
    using mmu_by_view [of "mem s2" "env_pgdir (envs s2 0)" va] v that kernel_leaf_page [of data "PPN va"]
    by (simp add: 3(3,4) PTE_ADDR_PPN [symmetric] del: pt_view.simps)
  ultimately show ?thesis using k 3 2(4-7) by (intro exI [of _ "fold log es s2"] exI [of _ s3]) simp
qed

lemma kernel_boots_witness:
  "\<exists>s' s''. kmain 1 0x90000 0x88000 0x80100 (reset_state\<lparr>mem := (\<lambda>_. 0), pg_dir := page2pa 0x100\<rparr>) = (Inl Panicked, s') \<and>
    handle_irq (s'\<lparr>timestack_tf := reset_tf\<rparr>) = (Inl Enter_user, s'') \<and> curenv s'' = Some 0 \<and>
    mmu_page (mem s'') (env_pgdir (envs s'' 0)) 0x80100 = Some 0x80000"
proof -
  have "boot_ram (\<lambda>_. 0) 0x100" by (simp add: boot_ram_def load64_def)
  from kernel_boots [OF _ _ _ this, where end_addr = "0x90000" and el = 1 and data = "0x88000" and program = "0x80100" and tf = reset_tf]
  obtain s' s'' where "kmain 1 0x90000 0x88000 0x80100 (reset_state\<lparr>mem := (\<lambda>_. 0), pg_dir := page2pa 0x100\<rparr>) = (Inl Panicked, s')"
    "handle_irq (s'\<lparr>timestack_tf := reset_tf\<rparr>) = (Inl Enter_user, s'')" "curenv s'' = Some 0"
    "\<forall>va < 0x3f000000. mmu_page (mem s'') (env_pgdir (envs s'' 0)) va = Some (PTE_ADDR va)"
    by (auto simp: PUDX_def)
  then show ?thesis by (intro exI [of _ s'] exI [of _ s'']) (simp add: PTE_ADDR_def)
qed

end
