(* ===== verification/Self_Tests.thy ===== *)
theory Self_Tests
  imports Kernel_Main
begin

text \<open>
  Self_Tests: the tests the kernel carries with it, \<open>env_check\<close> of \<^verbatim>\<open>lib/env.c\<close> and \<open>page_check\<close> of \<^verbatim>\<open>mm/pmap.c\<close>,
  as functions on the kernel's state, with \<^verbatim>\<open>assert\<close> of \<^verbatim>\<open>include/helpfunct.h\<close>.
\<close>

definition kassert :: "bool \<Rightarrow> string \<Rightarrow> unit kfun" where
  "kassert x txt s = (if \<not> x then kpanic ''assertion failed: %s'' [VA_str txt] s else (Inr (), s))"

subsection \<open>\<open>env_check\<close>\<close>

text \<open>
  The second half of the test, from the place where three environments are allocated: identifiers, and \<open>envid2env\<close>
  on an environment that is free, in use, and not a child of the caller.
\<close>

definition env_check_ids :: "u64 \<Rightarrow> u64 \<Rightarrow> u64 \<Rightarrow> unit kfun" where
  "env_check_ids pe0 pe1 pe2 s =
     (let s = kprintf (''pe0->env_id %d'' @ [CHR 0x0A]) [VA_num (env_id (envs s pe0))] s;
          s = kprintf (''pe1->env_id %d'' @ [CHR 0x0A]) [VA_num (env_id (envs s pe1))] s;
          s = kprintf (''pe2->env_id %d'' @ [CHR 0x0A]) [VA_num (env_id (envs s pe2))] s in
      kbind (kassert (env_id (envs s pe0) = 2048) ''pe0->env_id == 2048'') (\<lambda>_.
      kbind (kassert (env_id (envs s pe1) = 4097) ''pe1->env_id == 4097'') (\<lambda>_.
      kbind (kassert (env_id (envs s pe2) = 6146) ''pe2->env_id == 6146'') (\<lambda>_ s.
        let s = kprintf (''env_init() work well!'' @ [CHR 0x0A]) [] s;
            s = env_upd pe2 (\<lambda>x. x\<lparr>env_status := ENV_FREE\<rparr>) s in
        kbind (envid2env (env_id (envs s pe2)) False) (\<lambda>(re, pe).
        kbind (kassert (pe = None \<and> re = - E_BAD_ENV) ''pe == 0 && re == -E_BAD_ENV'') (\<lambda>_ s.
          let s = env_upd pe2 (\<lambda>x. x\<lparr>env_status := ENV_RUNNABLE\<rparr>) s in
          kbind (envid2env (env_id (envs s pe2)) False) (\<lambda>(re, pe) s.
            case pe of
              None \<Rightarrow> (Inl Null_deref, s)
            | Some pe \<Rightarrow>
                kbind (kassert (env_id (envs s pe) = env_id (envs s pe2) \<and> re = 0)
                    ''pe->env_id == pe2->env_id &&re == 0'') (\<lambda>_ s.
                  let temp = curenv s; s = s\<lparr>curenv := Some pe0\<rparr> in
                  kbind (envid2env (env_id (envs s pe2)) True) (\<lambda>(re, pe).
                  kbind (kassert (pe = None \<and> re = - E_BAD_ENV) ''pe == 0 && re == -E_BAD_ENV'') (\<lambda>_ s.
                    let s = s\<lparr>curenv := temp\<rparr>;
                        s = kprintf (''envid2env() work well!'' @ [CHR 0x0A]) [] s;
                        s = kprintf (''env_check() succeeded!'' @ [CHR 0x0A]) [] s
                    in (Inr (), s))) s) s) s)) s))) s)"

definition env_check :: "unit kfun" where
  "env_check =
     kbind (env_alloc 0) (\<lambda>(r, pe0). kbind (kassert (r = 0) ''env_alloc(&pe0, 0) == 0'') (\<lambda>_.
     kbind (env_alloc 0) (\<lambda>(r, pe1). kbind (kassert (r = 0) ''env_alloc(&pe1, 0) == 0'') (\<lambda>_.
     kbind (env_alloc 0) (\<lambda>(r, pe2). kbind (kassert (r = 0) ''env_alloc(&pe2, 0) == 0'') (\<lambda>_.
     kbind (kassert (pe0 \<noteq> None) ''pe0'') (\<lambda>_.
     kbind (kassert (pe1 \<noteq> None \<and> pe1 \<noteq> pe0) ''pe1 && pe1 != pe0'') (\<lambda>_.
     kbind (kassert (pe2 \<noteq> None \<and> pe2 \<noteq> pe1 \<and> pe2 \<noteq> pe0) ''pe2 && pe2 != pe1 && pe2 != pe0'') (\<lambda>_ s.
       let fl = LIST_FIRST (env_q s) ();
           s = s\<lparr>env_q := LIST_INIT (env_q s) ()\<rparr> in
       kbind (env_alloc 0) (\<lambda>(r, pe). kbind (kassert (r = - E_NO_FREE_ENV) ''env_alloc(&pe, 0) == -E_NO_FREE_ENV'') (\<lambda>_ s.
         let s = s\<lparr>env_q := set_first () fl (env_q s)\<rparr> in
         case (pe0, pe1, pe2) of
           (Some pe0, Some pe1, Some pe2) \<Rightarrow> env_check_ids pe0 pe1 pe2 s
         | _ \<Rightarrow> (Inl Null_deref, s))) s)))))))))"

subsection \<open>\<open>page_check\<close>\<close>

text \<open>
  The part of the test behind the allocation of three pages, with the free list empty: tables are taken from the pages
  freed again, mappings are made, counted and replaced.
\<close>

definition page_check_maps :: "u64 \<Rightarrow> u64 \<Rightarrow> u64 \<Rightarrow> u64 option \<Rightarrow> unit kfun" where
  "page_check_maps pp0 pp1 pp2 fl =
     kbind (page_free pp0) (\<lambda>_.
     kbind (page_free pp1) (\<lambda>_ s. let pgd = pg_dir s in
     kbind (page_insert pgd pp2 0x70000000 0) (\<lambda>r.
     kbind (kassert (r = 0) ''page_insert((unsigned long*)_pg_dir, pp2, 0x70000000, 0) ==0'') (\<lambda>_ s.
     kbind (kassert (PTE_ADDR (load64 (mem s) (entry pgd (PUDX 0x70000000))) = page2pa pp1)
         ''PTE_ADDR(((unsigned long*)_pg_dir)[PUDX(0x70000000)]) == page2pa(pp1)'') (\<lambda>_ s.
     kbind (kassert (pp_ref s pp1 = 1) ''pp1->pp_ref == 1'') (\<lambda>_.
     kbind (page_insert pgd pp2 (0x70000000 + BY2PG) 0) (\<lambda>r.
     kbind (kassert (r = 0) ''page_insert((unsigned long*)_pg_dir, pp2, 0x70000000+BY2PG, 0) == 0'') (\<lambda>_.
     kbind (pgdir_walk pgd (0x70000000 + BY2PG) False) (\<lambda>(r, tmp).
     kbind (kassert (r = 0) ''pgdir_walk((unsigned long*)_pg_dir,0x70000000+BY2PG,0,&tmp)==0'') (\<lambda>_ s.
     kbind (kassert (PTE_ADDR (load64 (mem s) tmp) = page2pa pp2) ''PTE_ADDR(*tmp)==page2pa(pp2)'') (\<lambda>_ s.
     kbind (kassert (pp_ref s pp2 = 2) ''pp2->pp_ref == 2'') (\<lambda>_.
     kbind (page_alloc) (\<lambda>(r, pp).
     kbind (kassert (r = - E_NO_MEM) ''page_alloc(&pp) == -E_NO_MEM'') (\<lambda>_.
     kbind (page_insert pgd pp2 (0x70000000 + BY2PG) 0) (\<lambda>r.
     kbind (kassert (r = 0) ''page_insert((unsigned long*)_pg_dir, pp2, 0x70000000+BY2PG, 0) == 0'') (\<lambda>_.
     kbind (page_alloc) (\<lambda>(r, pp).
     kbind (kassert (r = - E_NO_MEM) ''page_alloc(&pp) == -E_NO_MEM'') (\<lambda>_.
     kbind (page_insert pgd pp0 0x71000000 0) (\<lambda>r.
     kbind (kassert (r < 0) ''page_insert((unsigned long*)_pg_dir, pp0, 0x71000000, 0) < 0'') (\<lambda>_.
     kbind (page_insert pgd pp1 (0x70000000 + BY2PG) 0) (\<lambda>r.
     kbind (kassert (r = 0) ''page_insert((unsigned long*)_pg_dir, pp1, 0x70000000+BY2PG, 0) == 0'') (\<lambda>_ s.
       (Inr (), s\<lparr>page_q := set_first () fl (page_q s)\<rparr>)))))))))))) s) s))))) s) s)) s))"

definition page_check :: "unit kfun" where
  "page_check =
     kbind page_alloc (\<lambda>(r, pp0). kbind (kassert (r = 0) ''page_alloc(&pp0) == 0'') (\<lambda>_.
     kbind page_alloc (\<lambda>(r, pp1). kbind (kassert (r = 0) ''page_alloc(&pp1) == 0'') (\<lambda>_.
     kbind page_alloc (\<lambda>(r, pp2). kbind (kassert (r = 0) ''page_alloc(&pp2) == 0'') (\<lambda>_.
     kbind (kassert (pp0 \<noteq> None) ''pp0'') (\<lambda>_.
     kbind (kassert (pp1 \<noteq> None \<and> pp1 \<noteq> pp0) ''pp1 && pp1 != pp0'') (\<lambda>_.
     kbind (kassert (pp2 \<noteq> None \<and> pp2 \<noteq> pp1 \<and> pp2 \<noteq> pp0) ''pp2 && pp2 != pp1 && pp2 != pp0'') (\<lambda>_ s.
       let fl = LIST_FIRST (page_q s) ();
           s = s\<lparr>page_q := LIST_INIT (page_q s) ()\<rparr> in
       kbind page_alloc (\<lambda>(r, pp). kbind (kassert (r = - E_NO_MEM) ''page_alloc(&pp) == -E_NO_MEM'') (\<lambda>_ s.
         case (pp0, pp1, pp2) of
           (Some pp0, Some pp1, Some pp2) \<Rightarrow> page_check_maps pp0 pp1 pp2 fl s
         | _ \<Rightarrow> (Inl Null_deref, s))) s)))))))))"

subsection \<open>Allocating again and again\<close>

text \<open>What three calls of \<open>env_alloc\<close> need: free environments and free pages.\<close>

definition alloc_ready :: "kstate \<Rightarrow> u64 list \<Rightarrow> u64 list \<Rightarrow> bool" where
  "alloc_ready s el fl \<longleftrightarrow> env_pool s el \<and> pool_ok s fl \<and> page_aligned (pg_dir s) \<and> pg_dir s \<notin> page2pa ` set fl"

lemma env_alloc_ready:
  assumes r: "alloc_ready s (e # el) (p # fl)"
  shows "\<exists>s'. env_alloc par s = (Inr (0, Some e), s') \<and> alloc_ready s' el fl \<and>
    envs s' = (envs s)(e := (envs s e)\<lparr>env_pgdir := page2pa p, env_parent_id := par,
      env_status := ENV_RUNNABLE, env_runs := 0,
      env_id := push_bit (1 + LOG2NENV) (next_env_id s + 1) OR e,
      env_tf := (env_tf (envs s e))\<lparr>tf_sp := USTACKTOP\<rparr>\<rparr>) \<and>
    next_env_id s' = next_env_id s + 1 \<and> curenv s' = curenv s \<and> trace s' = trace s"
proof -
  have ep: "env_pool s (e # el)" and pool: "pool_ok s (p # fl)" and al: "page_aligned (pg_dir s)"
    and ne: "page2pa p \<noteq> pg_dir s" "pg_dir s \<notin> page2pa ` set fl" using r by (auto simp: alloc_ready_def)
  from env_alloc_eq [OF ep pool al ne(1), of par] obtain q m eq where
    a: "env_alloc par s = (Inr (0, Some e), env_upd e (\<lambda>x. x\<lparr>env_pgdir := page2pa p,
        env_parent_id := par, env_status := ENV_RUNNABLE, env_runs := 0,
        env_id := push_bit (1 + LOG2NENV) (next_env_id s + 1) OR e,
        env_tf := (env_tf x)\<lparr>tf_sp := USTACKTOP\<rparr>\<rparr>)
      (s\<lparr>page_q := q, pp_ref := (pp_ref s)(p := 1), mem := m, env_q := eq,
         next_env_id := next_env_id s + 1\<rparr>))" (is "_ = (_, ?s)")
    and l: "lst q () fl" "lst eq () el" by blast
  have "p \<notin> set fl" using pool_distinct [OF pool] by simp
  then have "alloc_ready ?s el fl" using pool ep al ne(2) l by (auto simp: alloc_ready_def pool_ok_def env_pool_def env_upd_def)
  then show ?thesis using a by (intro exI [of _ ?s]) (simp add: env_upd_def)
qed

lemma env_alloc_none: "LIST_FIRST (env_q s) () = None \<Longrightarrow>
    env_alloc par s = (Inr (- E_NO_FREE_ENV, None), log (Ev_printf (''Sorry,alloc env failed!'' @ [CHR 0x0A]) []) s)"
  by (simp add: env_alloc_def kprintf_eq)

lemma kassert_True [simp]: "x \<Longrightarrow> kassert x txt s = (Inr (), s)"
  by (simp add: kassert_def)

lemma restore_list: "set_first () (LIST_FIRST q ()) (LIST_INIT q ()) = q"
  by (simp add: set_first_def LIST_FIRST_def LIST_INIT_def fun_upd_idem)

lemma first_of_init: "LIST_FIRST (LIST_INIT q ()) () = None"
  by (simp add: LIST_FIRST_def LIST_INIT_def set_first_def)

text \<open>The messages of a test that succeeds.\<close>

definition env_check_log :: "event list" where
  "env_check_log =
     [Ev_printf (''Sorry,alloc env failed!'' @ [CHR 0x0A]) [],
      Ev_printf (''pe0->env_id %d'' @ [CHR 0x0A]) [VA_num 2048], Ev_printf (''pe1->env_id %d'' @ [CHR 0x0A]) [VA_num 4097],
      Ev_printf (''pe2->env_id %d'' @ [CHR 0x0A]) [VA_num 6146], Ev_printf (''env_init() work well!'' @ [CHR 0x0A]) [],
      Ev_printf (''envid2env() work well!'' @ [CHR 0x0A]) [], Ev_printf (''env_check() succeeded!'' @ [CHR 0x0A]) []]"

lemma envid2env_free: "env_status (envs s (ENVX i)) = ENV_FREE \<Longrightarrow> i \<noteq> 0 \<Longrightarrow> envid2env i b s = (Inr (- E_BAD_ENV, None), s)"
  by (simp add: envid2env_def)

lemma envid2env_foreign:
  assumes "i \<noteq> 0" and "curenv s = Some c" "c \<noteq> ENVX i" "env_parent_id (envs s (ENVX i)) \<noteq> env_id (envs s c)"
  shows "envid2env i True s = (Inr (- E_BAD_ENV, None), s)"
  using assms by (simp add: envid2env_def Let_def)

lemma env_upd_fields:
  "envs (env_upd e f s) = (envs s)(e := f (envs s e))" "curenv (env_upd e f s) = curenv s" "trace (env_upd e f s) = trace s"
  by (simp_all add: env_upd_def)

lemma env_check_ids_pass:
  assumes id: "env_id (envs s 0) = 2048" "env_id (envs s 1) = 4097" "env_id (envs s 2) = 6146"
    and st: "env_status (envs s 2) = ENV_RUNNABLE" "env_parent_id (envs s 2) = 0"
  shows "env_check_ids 0 1 2 s = (Inr (), s\<lparr>trace := trace s @ tl env_check_log\<rparr>)"
proof -
  have x: "ENVX 6146 = 2" by (simp add: ENVX_def NENV_def)
  let ?p = "\<lambda>f a. log (Ev_printf (f @ [CHR 0x0A]) a)"
  let ?s1 = "?p ''env_init() work well!'' [] (?p ''pe2->env_id %d'' [VA_num 6146] (?p ''pe1->env_id %d'' [VA_num 4097]
    (?p ''pe0->env_id %d'' [VA_num 2048] s)))"
  let ?s2 = "env_upd 2 (\<lambda>x. x\<lparr>env_status := ENV_FREE\<rparr>) ?s1"
  let ?s3 = "env_upd 2 (\<lambda>x. x\<lparr>env_status := ENV_RUNNABLE\<rparr>) ?s2"
  let ?s4 = "?s3\<lparr>curenv := Some 0\<rparr>"
  have e2: "envid2env 6146 False ?s2 = (Inr (- E_BAD_ENV, None), ?s2)"
    by (rule envid2env_free) (simp_all add: x env_upd_fields)
  have e3: "envid2env 6146 False ?s3 = (Inr (0, Some 2), ?s3)"
    by (rule envid2env_found) (simp_all add: x id env_upd_fields ENV_RUNNABLE_def ENV_FREE_def)
  have e4: "envid2env 6146 True ?s4 = (Inr (- E_BAD_ENV, None), ?s4)"
    using id(1) st(2) by (intro envid2env_foreign [of _ _ 0]) (simp_all add: x env_upd_fields)
  have "env_check_ids 0 1 2 s = (Inr (), ?p ''env_check() succeeded!'' [] (?p ''envid2env() work well!'' [] (?s4\<lparr>curenv := curenv ?s3\<rparr>)))"
    unfolding env_check_ids_def Let_def kprintf_eq log_fields id
    by (simp add: id e2 e3 e4 env_upd_fields del: append.simps append_Cons append_Nil)
  moreover have "(envs s)(2 := (envs s 2)\<lparr>env_status := ENV_RUNNABLE\<rparr>) = envs s" using st(1) by (simp add: fun_upd_idem)
  ultimately show ?thesis by (simp add: log_def env_upd_def env_check_log_def)
qed

lemma env_check_pass:
  assumes r: "alloc_ready s (0 # 1 # 2 # el) (p0 # p1 # p2 # fl)" and n: "next_env_id s = 0"
  shows "\<exists>s'. env_check s = (Inr (), s') \<and> alloc_ready s' el fl \<and> trace s' = trace s @ env_check_log \<and>
    curenv s' = curenv s \<and> next_env_id s' = 3 \<and>
    (\<forall>e. e \<notin> {0, 1, 2} \<longrightarrow> envs s' e = envs s e)"
proof -
  from env_alloc_ready [OF r, of 0] obtain s1 where 1: "env_alloc 0 s = (Inr (0, Some 0), s1)"
    "alloc_ready s1 (1 # 2 # el) (p1 # p2 # fl)" "next_env_id s1 = 1" "curenv s1 = curenv s" "trace s1 = trace s"
    "env_id (envs s1 0) = 2048" "\<And>e. e \<noteq> 0 \<Longrightarrow> envs s1 e = envs s e"
    using n by (auto simp: LOG2NENV_def)
  from env_alloc_ready [OF 1(2), of 0] obtain s2 where 2: "env_alloc 0 s1 = (Inr (0, Some 1), s2)"
    "alloc_ready s2 (2 # el) (p2 # fl)" "next_env_id s2 = 2" "curenv s2 = curenv s" "trace s2 = trace s"
    "env_id (envs s2 1) = 4097" "\<And>e. e \<noteq> 1 \<Longrightarrow> envs s2 e = envs s1 e"
    using 1 by (auto simp: LOG2NENV_def)
  from env_alloc_ready [OF 2(2), of 0] obtain s3 where 3: "env_alloc 0 s2 = (Inr (0, Some 2), s3)"
    "alloc_ready s3 el fl" "next_env_id s3 = 3" "curenv s3 = curenv s" "trace s3 = trace s"
    "env_id (envs s3 2) = 6146" "\<And>e. e \<noteq> 2 \<Longrightarrow> envs s3 e = envs s2 e"
    "env_status (envs s3 2) = ENV_RUNNABLE" "env_parent_id (envs s3 2) = 0"
    using 2 by (auto simp: LOG2NENV_def)
  let ?t = "log (Ev_printf (''Sorry,alloc env failed!'' @ [CHR 0x0A]) []) s3"
  have q: "(log e (s3\<lparr>env_q := LIST_INIT (env_q s3) ()\<rparr>))\<lparr>env_q := set_first () (LIST_FIRST (env_q s3) ()) (LIST_INIT (env_q s3) ())\<rparr> = log e s3" for e
    unfolding restore_list by (simp add: log_def)
  have "env_check s = env_check_ids 0 1 2 ?t"
    using 1(1) 2(1) 3(1) q by (simp add: env_check_def Let_def env_alloc_none first_of_init)
  also have "\<dots> = (Inr (), ?t\<lparr>trace := trace ?t @ tl env_check_log\<rparr>)"
    using 1 2 3 by (intro env_check_ids_pass) simp_all
  finally have "env_check s = (Inr (), s3\<lparr>trace := trace s @ env_check_log\<rparr>)"
    using 3(5) by (simp add: log_def env_check_log_def)
  moreover have "envs s3 e = envs s e" if "e \<notin> {0, 1, 2}" for e using that 1(7) 2(7) 3(7) by simp
  moreover have "alloc_ready (s3\<lparr>trace := tr\<rparr>) el fl" for tr using 3(2) by (simp add: alloc_ready_def env_pool_def pool_ok_def)
  ultimately show ?thesis using 3(3,4) by (intro exI [of _ "s3\<lparr>trace := trace s @ env_check_log\<rparr>"]) simp
qed

lemma env_check_again:
  assumes r: "alloc_ready s (e0 # e1 # e2 # el) (p0 # p1 # p2 # fl)"
    and n: "next_env_id s \<noteq> 0" "unat (next_env_id s) + 1 < 2 ^ 53"
  shows "fst (env_check s) = Inl Panicked"
proof -
  from r have d: "e0 \<noteq> e1" "e0 \<noteq> e2" "e1 \<noteq> e2" "e0 < 1024"
    using il.rep_distinct [of "env_q s" "()" "e0 # e1 # e2 # el"] by (auto simp: alloc_ready_def env_pool_def)
  from env_alloc_ready [OF r, of 0] obtain s1 where 1: "env_alloc 0 s = (Inr (0, Some e0), s1)"
    "alloc_ready s1 (e1 # e2 # el) (p1 # p2 # fl)" "env_id (envs s1 e0) = push_bit (1 + LOG2NENV) (next_env_id s + 1) OR e0" by auto
  from env_alloc_ready [OF 1(2), of 0] obtain s2 where 2: "env_alloc 0 s1 = (Inr (0, Some e1), s2)"
    "alloc_ready s2 (e2 # el) (p2 # fl)" "envs s2 e0 = envs s1 e0" using d by auto
  from env_alloc_ready [OF 2(2), of 0] obtain s3 where 3: "env_alloc 0 s2 = (Inr (0, Some e2), s3)"
    "envs s3 e0 = envs s2 e0" using d by auto
  have "unat (env_id (envs s3 e0)) = 2048 * unat (next_env_id s + 1) + unat e0"
    using 1(3) 2(3) 3(2) unat_mkenvid [OF d(4), of "next_env_id s + 1"] n(2) by (simp add: unat_add_small)
  moreover have "2 \<le> unat (next_env_id s + 1)"
    using n by (simp add: unat_add_small) (metis One_nat_def Suc_leI add_2_eq_Suc' neq0_conv not_less_eq_eq unat_eq_zero)
  ultimately have id: "env_id (envs s3 e0) \<noteq> 2048" by auto
  show ?thesis using 1(1) 2(1) 3(1) d id
    by (simp add: env_check_def Let_def env_alloc_none first_of_init env_check_ids_def kassert_def kpanic_def kprintf_eq)
qed

subsection \<open>The test of the page tables\<close>

lemma rest_pg_dir: "rest s' = rest s \<Longrightarrow> pg_dir s' = pg_dir s \<and> npage s' = npage s"
  by (auto simp: rest_def dest: arg_cong [where f = pg_dir] arg_cong [where f = npage])

text \<open>Where the middle directory exists, the walk needs one page only.\<close>

lemma insert_one_level:
  assumes vm: "vm_ok s pud (p # fl)" and nb: "no_block (mem s) pud va" and pp: "pp \<notin> set (p # fl)"
    and t1: "tab (mem s) pud [PUDX va] = Some t1" and u: "pt_view (mem s) pud (va_slot va) AND PTE_V = 0"
  shows "\<exists>s'. page_insert pud pp va perm s = (Inr 0, s') \<and> tab (mem s') pud [PUDX va] = Some t1"
proof -
  let ?s = "tlb_invalidate s"
  have vm': "vm_ok ?s pud (p # fl)" "tab (mem ?s) pud [PUDX va] = Some t1" using vm t1 by (simp_all add: tlb_invalidate_eq)
  have n: "next_tab (mem ?s) pud (PUDX va) = Some t1" using vm'(2) by (auto split: Option.bind_splits)
  have ok: "ok_entry (load64 (mem ?s) (entry t1 (PMDX va)))" using nb n by (simp add: no_block_def tlb_invalidate_eq)
  from walk_level_create [OF vm'(1), of "[PUDX va]" "PMDX va" t1] ok vm'(2) obtain t2 s2 fl2 where
    w: "walk_level t1 (PMDX va) True ?s = (Inr (0, t2), s2)" "grows pud ?s (p # fl) s2 fl2" "tab (mem s2) pud (va_path va) = Some t2"
    by (auto simp: is_path_def va_path_def simp del: tab.simps)
  have k: "tab (mem s2) pud [PUDX va] = Some t1" using w(2) vm'(2) by (auto simp: grows_def grown_def simp del: tab.simps)
  have vm2: "vm_ok s2 pud fl2" using w(2) by (simp add: grows_def)
  have walk: "pgdir_walk pud va True ?s = (Inr (0, entry t2 (PTEX va)), s2)"
    using walk_level_found [OF n] w(1) by (simp add: pgdir_walk_def)
  have "leaf_set pud va v (mem s2) (store64 (mem s2) (entry t2 (PTEX va)) v)" for v
    using vm_okD [OF vm2] w(3) by (intro leaf_set_store) auto
  then have "tab (store64 (mem s2) (entry t2 (PTEX va)) v) pud [PUDX va] = Some t1" for v
    using k by (simp add: leaf_set_def del: tab.simps)
  then show ?thesis unfolding page_insert_install [OF vm nb u]
    using walk by (simp add: install_def incref_def del: tab.simps)
qed

lemma pool_after_test:
  assumes "pool_ok s fl" and z: "pp_ref s p0 = 0" "pp_ref s p1 = 0" and d: "p0 \<noteq> p1" "0 < p0" "0 < p1" "p0 < npage s" "p1 < npage s"
  defines "s' \<equiv> s\<lparr>page_q := LIST_INIT (page_q s) ()\<rparr>"
  shows "\<exists>q q'. page_alloc s' = (Inr (- E_NO_MEM, None), s') \<and> page_free p0 s' = (Inr (), s'\<lparr>page_q := q\<rparr>) \<and>
    page_free p1 (s'\<lparr>page_q := q\<rparr>) = (Inr (), s'\<lparr>page_q := q'\<rparr>) \<and> pool_ok (s'\<lparr>page_q := q'\<rparr>) [p1, p0]"
proof -
  have e: "pool_ok s' []" using assms(1) lst_init by (simp add: s'_def pool_ok_def)
  from page_free_eq [OF e, of p0] z d obtain q where q: "page_free p0 s' = (Inr (), s'\<lparr>page_q := q\<rparr>)" "pool_ok (s'\<lparr>page_q := q\<rparr>) [p0]"
    by (auto simp: s'_def)
  from page_free_eq [OF q(2), of p1] z d obtain q' where "page_free p1 (s'\<lparr>page_q := q\<rparr>) = (Inr (), s'\<lparr>page_q := q'\<rparr>)"
    "pool_ok (s'\<lparr>page_q := q'\<rparr>) [p1, p0]" by (auto simp: s'_def)
  with q(1) page_alloc_Nil [OF e] show ?thesis by blast
qed

lemma page_check_stops:
  fixes s :: kstate
  defines "pgd \<equiv> pg_dir s" and "va \<equiv> 0x70000000 :: u64"
  assumes vm: "vm_ok s pgd (p0 # p1 # p2 # fl)" and nb: "no_block (mem s) pgd va"
    and t: "tab (mem s) pgd [PUDX va] = Some t" and u: "pt_view (mem s) pgd (va_slot va) AND PTE_V = 0"
  shows "\<exists>s'. page_check s = kpanic ''assertion failed: %s''
    [VA_str ''PTE_ADDR(((unsigned long*)_pg_dir)[PUDX(0x70000000)]) == page2pa(pp1)''] s'"
proof -
  note pool = vm_okD(1) [OF vm]
  have d: "p0 \<noteq> p1" "p0 \<noteq> p2" "p1 \<noteq> p2" using pool_distinct [OF pool] by auto
  have z: "\<And>p. p \<in> {p0, p1, p2} \<Longrightarrow> pp_ref s p = 0 \<and> 0 < p \<and> p < npage s" using pool by (auto simp: pool_ok_def)
  from alloc_vm [OF vm] obtain s1 where 1: "page_alloc s = (Inr (0, Some p0), s1)" "vm_ok s1 pgd (p1 # p2 # fl)" "rest s1 = rest s"
    "pp_ref s1 = pp_ref s" "\<forall>q. is_path q \<longrightarrow> tab (mem s1) pgd q = tab (mem s) pgd q" "no_block (mem s1) pgd va"
    "\<forall>sl. is_slot sl \<longrightarrow> pt_view (mem s1) pgd sl = pt_view (mem s) pgd sl" using nb by blast
  from alloc_vm [OF 1(2)] obtain s2 where 2: "page_alloc s1 = (Inr (0, Some p1), s2)" "vm_ok s2 pgd (p2 # fl)" "rest s2 = rest s1"
    "pp_ref s2 = pp_ref s1" "\<forall>q. is_path q \<longrightarrow> tab (mem s2) pgd q = tab (mem s1) pgd q" "no_block (mem s2) pgd va"
    "\<forall>sl. is_slot sl \<longrightarrow> pt_view (mem s2) pgd sl = pt_view (mem s1) pgd sl" using 1(6) by blast
  from alloc_vm [OF 2(2)] obtain s3 where 3: "page_alloc s2 = (Inr (0, Some p2), s3)" "vm_ok s3 pgd fl" "rest s3 = rest s2"
    "pp_ref s3 = pp_ref s2" "\<forall>q. is_path q \<longrightarrow> tab (mem s3) pgd q = tab (mem s2) pgd q" "no_block (mem s3) pgd va"
    "\<forall>sl. is_slot sl \<longrightarrow> pt_view (mem s3) pgd sl = pt_view (mem s2) pgd sl" using 2(6) by blast
  have g: "pg_dir s3 = pgd" "npage s3 = npage s" using rest_pg_dir [of s3 s] 1(3) 2(3) 3(3) by (simp_all add: pgd_def)
  have tabs: "tab (mem s3) pgd q = tab (mem s) pgd q" if "is_path q" for q using that 1(5) 2(5) 3(5) by simp
  let ?s = "s3\<lparr>page_q := LIST_INIT (page_q s3) ()\<rparr>"
  from pool_after_test [OF vm_okD(1) [OF 3(2)], of p0 p1] z d g(2) 1(4) 2(4) 3(4) obtain q q' where
    f: "page_alloc ?s = (Inr (- E_NO_MEM, None), ?s)" "page_free p0 ?s = (Inr (), ?s\<lparr>page_q := q\<rparr>)"
      "page_free p1 (?s\<lparr>page_q := q\<rparr>) = (Inr (), ?s\<lparr>page_q := q'\<rparr>)" "pool_ok (?s\<lparr>page_q := q'\<rparr>) [p1, p0]" by auto
  have it: "is_tab (mem s3) pgd x = is_tab (mem s) pgd x" for x using tabs by (auto simp: is_tab_def)
  have "pt_ok (mem s3) pgd [p1, p0]" using vm 3(2) it by (auto simp: vm_ok_def pt_ok_def)
  then have vm6: "vm_ok (?s\<lparr>page_q := q'\<rparr>) pgd [p1, p0]" using f(4) by (simp add: vm_ok_def)
  have p: "is_path [PUDX va]" by simp
  have t3: "tab (mem s3) pgd [PUDX va] = Some t" unfolding tabs [OF p] by (rule t)
  have "pt_view (mem s3) pgd (va_slot va) AND PTE_V = 0" using u 1(7) 2(7) 3(7) by (simp del: pt_view.simps split_paired_All)
  from insert_one_level [OF vm6, of va p2 t 0] 3(6) d t3 this obtain s7 where
    7: "page_insert pgd p2 va 0 (?s\<lparr>page_q := q'\<rparr>) = (Inr 0, s7)" "tab (mem s7) pgd [PUDX va] = Some t" by auto
  have "PTE_ADDR (load64 (mem s7) (entry pgd (PUDX va))) = t"
    using 7(2) by (auto simp: next_tab_def Let_def split: if_splits Option.bind_splits)
  moreover have "t \<noteq> page2pa p1" using vm_okD(5) [OF vm is_tabI [OF p t]] by auto
  ultimately have a: "kassert (PTE_ADDR (load64 (mem s7) (entry pgd (PUDX va))) = page2pa p1) x s7 =
    kpanic ''assertion failed: %s'' [VA_str x] s7" for x by (simp add: kassert_def)
  have "page_check_maps p0 p1 p2 (LIST_FIRST (page_q s3) ()) ?s = kpanic ''assertion failed: %s''
    [VA_str ''PTE_ADDR(((unsigned long*)_pg_dir)[PUDX(0x70000000)]) == page2pa(pp1)''] s7"
    using f(2,3) 7(1) g(1) a by (simp add: page_check_maps_def Let_def va_def) (simp add: kbind_def kpanic_def)
  then show ?thesis using 1(1) 2(1) 3(1) f(1) d by (intro exI [of _ s7]) (simp add: page_check_def Let_def)
qed

subsection \<open>Properties\<close>

text \<open>The test of the environments. On a kernel with three free environments, the first of them 0, 1 and 2, and three
  free pages, and from which no environment has been made, \<open>env_check\<close> runs to its end with its messages,
  leaving only these three environments changed, still allocated; once an environment has been made, the identifiers
  the test expects are gone and it panics: it can run once, right after \<open>env_init\<close>.\<close>

theorem env_check_once:
  assumes "alloc_ready s (0 # 1 # 2 # el) (p0 # p1 # p2 # fl)" and "unat (next_env_id s) + 1 < 2 ^ 53"
  shows "if next_env_id s = 0
    then \<exists>s'. env_check s = (Inr (), s') \<and> alloc_ready s' el fl \<and> trace s' = trace s @ env_check_log \<and>
      curenv s' = curenv s \<and> next_env_id s' = 3 \<and> (\<forall>e. e \<notin> {0, 1, 2} \<longrightarrow> envs s' e = envs s e)
    else fst (env_check s) = Inl Panicked"
  using env_check_pass [OF assms(1)] env_check_again [OF assms(1) _ assms(2)] by simp

lemma alloc_readyI:
  assumes "env_pool s el" "pool_ok s fl" "pt_ok (mem s) (pg_dir s) fl"
  shows "alloc_ready s el fl"
proof -
  have "is_tab (mem s) (pg_dir s) (pg_dir s)" by (rule is_tabI [of "[]"]) simp_all
  then show ?thesis using assms by (auto simp: alloc_ready_def pt_ok_def)
qed

lemma counter_step: "a < b \<Longrightarrow> counter a b = a # counter (a + 1) b"
proof -
  assume l: "a < b"
  then have "unat a + 1 < 2 ^ 64" using unat64_less [of b] by (simp add: word_less_nat_alt)
  then have "unat (a + 1) = Suc (unat a)" by (simp add: unat_add_small)
  then show ?thesis using l by (simp add: counter_def word_less_nat_alt upt_conv_Cons)
qed

lemma counter_012: "counter 0 NENV = 0 # 1 # 2 # counter 3 NENV"
  using counter_step [of 0 NENV] counter_step [of 1 NENV] counter_step [of 2 NENV] by (simp add: NENV_def)

lemma env_check_once_witness: "\<exists>s'. env_check env_state = (Inr (), s') \<and> next_env_id s' = 3"
proof -
  have "alloc_ready env_state (0 # 1 # 2 # counter 3 NENV) [7, 6, 5, 4, 3, 2]"
    using env_state by (intro alloc_readyI) (simp_all add: counter_012)
  from env_check_once [OF this] env_state(4) show ?thesis by auto
qed

lemma middle_table:
  assumes "mmu_page m pud va \<noteq> None"
  shows "\<exists>t. tab m pud [PUDX va] = Some t"
  using assms by (auto simp: mmu_page_def next_tab_def Let_def split: if_splits)

text \<open>C33: the tests on the kernel \<^verbatim>\<open>main\<close> starts. After \<open>page_init\<close> the test of the page tables fails: it takes the upper entry of
  \<^verbatim>\<open>0x70000000\<close> to be free, but the tables of the first mapping reach there, so its assertion about the new
  table is false and it panics. After \<open>env_init\<close> the test of the environments passes.\<close>

theorem self_tests_at_boot:
  fixes m :: memory and el end_addr data b :: u64
  defines "s \<equiv> reset_state\<lparr>mem := m, pg_dir := page2pa b\<rparr>"
  assumes b: "0 < b" "unat b + 507 \<le> 0x20000" and e: "PUDX end_addr = 0" and z: "boot_ram m b"
  shows "\<exists>s1 s'. aarch64_vm_init (boot_done el end_addr data s) = (Inr (), s1) \<and>
    page_check (page_init s1) = kpanic ''assertion failed: %s''
      [VA_str ''PTE_ADDR(((unsigned long*)_pg_dir)[PUDX(0x70000000)]) == page2pa(pp1)''] s' \<and>
    fst (env_check (env_init (page_init s1))) = Inr ()"
proof -
  let ?va = "0x70000000 :: u64"
  from vm_init_boot [OF b e z, of el data, folded s_def] obtain s1 where
    1: "aarch64_vm_init (boot_done el end_addr data s) = (Inr (), s1)" "boot_ok s1 (pg_dir s1)" "npage s1 = 0x40000"
      "unat (freemem s1) < 0x3f000000" "untouched s1" "mmu_page (mem s1) (pg_dir s1) UPAGES = Some (pages s1)"
    and f: "\<forall>va < 2 ^ 39. 0x52000000 \<le> va \<longrightarrow> PUDX va = 3 \<or> PUDX va = 1 \<and> PMDX va \<noteq> 0 \<longrightarrow>
      no_block (mem s1) (pg_dir s1) va \<and> pt_view (mem s1) (pg_dir s1) (va_slot va) = 0" by blast
  from page_init_vm [OF 1(2-4)] obtain p p2 p3 fl where
    pl: "pool_ok (page_init s1) (p # p2 # p3 # fl)" "pt_ok (mem s1) (pg_dir s1) (p # p2 # p3 # fl)" "mem (page_init s1) = mem s1" by blast
  have x: "PUDX ?va = 1" "PMDX ?va \<noteq> 0" "PUDX UPAGES = 1" "?va < 2 ^ 39" "0x52000000 \<le> ?va"
    by (simp_all add: PUDX_def PMDX_def UPAGES_def)
  have nb: "no_block (mem s1) (pg_dir s1) ?va" "pt_view (mem s1) (pg_dir s1) (va_slot ?va) = 0" using f x by blast+
  from middle_table [of "mem s1" "pg_dir s1" UPAGES] 1(6) x obtain t where "tab (mem s1) (pg_dir s1) [PUDX ?va] = Some t" by auto
  from page_check_stops [of "page_init s1", unfolded page_init_rest, of p p2 p3 fl t] pl nb this
  have "\<exists>s'. page_check (page_init s1) = kpanic ''assertion failed: %s''
      [VA_str ''PTE_ADDR(((unsigned long*)_pg_dir)[PUDX(0x70000000)]) == page2pa(pp1)''] s'"
    by (simp add: vm_ok_def del: pt_view.simps tab.simps)
  moreover have "alloc_ready (env_init (page_init s1)) (0 # 1 # 2 # counter 3 NENV) (p # p2 # p3 # fl)"
    using pl env_init_pool [of "page_init s1"]
    by (intro alloc_readyI) (simp_all add: env_init_fields page_init_rest pool_ok_def counter_012)
  from env_check_pass [OF this] 1(5) have "fst (env_check (env_init (page_init s1))) = Inr ()"
    by (auto simp: env_init_fields page_init_rest untouched_def)
  ultimately show ?thesis using 1(1) by blast
qed

lemma self_tests_at_boot_witness:
  "\<exists>s1. aarch64_vm_init (boot_done 1 0x90000 0x88000 (reset_state\<lparr>mem := (\<lambda>_. 0), pg_dir := page2pa 0x100\<rparr>)) = (Inr (), s1) \<and>
    fst (env_check (env_init (page_init s1))) = Inr ()"
proof -
  have "boot_ram (\<lambda>_. 0) 0x100" by (simp add: boot_ram_def load64_def)
  from self_tests_at_boot [OF _ _ _ this, where end_addr = "0x90000" and el = 1 and data = "0x88000"]
  show ?thesis by (auto simp: PUDX_def)
qed

end
