(* ===== verification/Uart.thy ===== *)
theory Uart
  imports Lp_Print C_Memory
begin

text \<open>
  Uart: the driver \<^verbatim>\<open>drivers/rpi3/uart_boot.c\<close> and, above it, \<^verbatim>\<open>printf\<close> and \<^verbatim>\<open>_panic\<close> of \<^verbatim>\<open>lib/printf.c\<close>.
  The hardware is an argument: a record of what reading and writing a register returns and does to
  the state of the devices, which the theorems restrict by what the PL011 manual promises. A polling loop that does
  not end is \<open>None\<close>.
\<close>

subsection \<open>Registers\<close>

record 'd device =
  dev_read :: "u64 \<Rightarrow> 'd \<Rightarrow> u32 \<times> 'd"
  dev_write :: "u64 \<Rightarrow> u32 \<Rightarrow> 'd \<Rightarrow> 'd"

definition UART0_IBRD :: u64 where "UART0_IBRD = 0x3F201024"
definition UART0_FBRD :: u64 where "UART0_FBRD = 0x3F201028"
definition UART0_LCRH :: u64 where "UART0_LCRH = 0x3F20102C"
definition UART0_CR :: u64 where "UART0_CR = 0x3F201030"
definition UART0_ICR :: u64 where "UART0_ICR = 0x3F201044"
definition GPFSEL1 :: u64 where "GPFSEL1 = 0x3F200004"
definition GPPUD :: u64 where "GPPUD = 0x3F200094"
definition GPPUDCLK0 :: u64 where "GPPUDCLK0 = 0x3F200098"
definition UART0_DR :: u64 where "UART0_DR = 0x3F201000"
definition UART0_FR :: u64 where "UART0_FR = 0x3F201018"

lemmas uart_registers = UART0_IBRD_def UART0_FBRD_def UART0_LCRH_def UART0_CR_def UART0_ICR_def
  GPFSEL1_def GPPUD_def GPPUDCLK0_def UART0_DR_def UART0_FR_def

subsection \<open>The driver\<close>

text \<open>The value \<^verbatim>\<open>uart_init_boot\<close> writes back to the function selectors of the pins 10 to 19.\<close>

definition select_alt0 :: "u32 \<Rightarrow> u32" where
  "select_alt0 r =
     (let r = r AND NOT (push_bit 12 7 OR push_bit 15 7) in r OR (push_bit 12 4 OR push_bit 15 4))"

text \<open>The two loops of 150 empty instructions between the writes change nothing.\<close>

definition uart_init_boot :: "'d device \<Rightarrow> 'd \<Rightarrow> 'd" where
  "uart_init_boot D d =
     (let d = dev_write D UART0_CR 0 d;
          (r, d) = dev_read D GPFSEL1 d;
          d = dev_write D GPFSEL1 (select_alt0 r) d;
          d = dev_write D GPPUD 0 d;
          d = dev_write D GPPUDCLK0 (push_bit 14 1 OR push_bit 15 1) d;
          d = dev_write D GPPUDCLK0 0 d;
          d = dev_write D UART0_ICR 0x7FF d;
          d = dev_write D UART0_IBRD 2 d;
          d = dev_write D UART0_FBRD 0xB d;
          d = dev_write D UART0_LCRH (push_bit 5 3) d
      in dev_write D UART0_CR 0x301 d)"

text \<open>\<open>do { nop } while (*reg & flag)\<close>: the loop reads the register at least once.\<close>

partial_function (option) poll :: "'d device \<Rightarrow> u64 \<Rightarrow> u32 \<Rightarrow> 'd \<Rightarrow> 'd option" where
  "poll D reg flag d =
     (let (v, d) = dev_read D reg d in if v AND flag \<noteq> 0 then poll D reg flag d else Some d)"

definition uart_send_boot :: "'d device \<Rightarrow> u32 \<Rightarrow> 'd \<Rightarrow> 'd option" where
  "uart_send_boot D c d = do { d \<leftarrow> poll D UART0_FR 0x20 d; Some (dev_write D UART0_DR c d) }"

definition uart_getc_boot :: "'d device \<Rightarrow> 'd \<Rightarrow> (u8 \<times> 'd) option" where
  "uart_getc_boot D d =
     do { d \<leftarrow> poll D UART0_FR 0x10 d;
          let (v, d) = dev_read D UART0_DR d;
          let r = (ucast v :: u8);
          Some (if r = 13 then 10 else r, d) }"

text \<open>
  The copy of the driver in \<^verbatim>\<open>usr_tmp/uart_inline.h\<close>, and the program \<^verbatim>\<open>usr_tmp/user.c\<close> that uses it: the state
  after a number of rounds of its endless loop.
\<close>

definition user_uart_init_boot :: "'d device \<Rightarrow> 'd \<Rightarrow> 'd" where
  "user_uart_init_boot D d =
     (let d = dev_write D UART0_CR 0 d;
          (r, d) = dev_read D GPFSEL1 d;
          r = r AND NOT (push_bit 12 7 OR push_bit 15 7);
          r = r OR (push_bit 12 4 OR push_bit 15 4);
          d = dev_write D GPFSEL1 r d;
          d = dev_write D GPPUD 0 d;
          d = dev_write D GPPUDCLK0 (push_bit 14 1 OR push_bit 15 1) d;
          d = dev_write D GPPUDCLK0 0 d;
          d = dev_write D UART0_ICR 0x7FF d;
          d = dev_write D UART0_IBRD 2 d;
          d = dev_write D UART0_FBRD 0xB d;
          d = dev_write D UART0_LCRH (push_bit 5 3) d
      in dev_write D UART0_CR 0x301 d)"

definition user_uart_send_boot :: "'d device \<Rightarrow> u32 \<Rightarrow> 'd \<Rightarrow> 'd option" where
  "user_uart_send_boot D c d = do { d \<leftarrow> poll D UART0_FR 0x20 d; Some (dev_write D UART0_DR c d) }"

definition user_uart_getc_boot :: "'d device \<Rightarrow> 'd \<Rightarrow> (u8 \<times> 'd) option" where
  "user_uart_getc_boot D d =
     do { d \<leftarrow> poll D UART0_FR 0x10 d;
          let (v, d) = dev_read D UART0_DR d;
          let r = (ucast v :: u8);
          Some (if r = 13 then 10 else r, d) }"

primrec user_main :: "'d device \<Rightarrow> nat \<Rightarrow> 'd \<Rightarrow> 'd option" where
  "user_main D 0 d = Some d"
| "user_main D (Suc n) d = do { d \<leftarrow> user_uart_send_boot D 97 d; user_main D n d }"

subsection \<open>Formatted output on the line\<close>

text \<open>The loop of \<^verbatim>\<open>myoutput\<close>; a \<^verbatim>\<open>char\<close> of this machine is unsigned.\<close>

primrec uart_send_all :: "'d device \<Rightarrow> string \<Rightarrow> 'd \<Rightarrow> 'd option" where
  "uart_send_all D [] d = Some d"
| "uart_send_all D (c # cs) d = do { d \<leftarrow> uart_send_boot D (word_of_nat (of_char c)) d; uart_send_all D cs d }"

text \<open>
  \<^verbatim>\<open>printf\<close>: the state of the line when it returns. It does not return when a polling loop does not end,
  and not after the fatal message of \<open>lp_Print\<close>.
\<close>

definition printf :: "'d device \<Rightarrow> string \<Rightarrow> va_arg list \<Rightarrow> 'd \<Rightarrow> 'd option" where
  "printf D fmt ap d =
     (case lp_Print fmt ap of (txt, Finished) \<Rightarrow> uart_send_all D txt d | (txt, _) \<Rightarrow> None)"

text \<open>\<^verbatim>\<open>_panic\<close> never returns; the result is the state of the line in its endless loop.\<close>

definition panic :: "'d device \<Rightarrow> string \<Rightarrow> u64 \<Rightarrow> string \<Rightarrow> va_arg list \<Rightarrow> 'd \<Rightarrow> 'd option" where
  "panic D file line fmt ap d =
     do { d \<leftarrow> printf D ''panic at %s:%d: '' [VA_str file, VA_num line] d;
          d \<leftarrow> printf D fmt ap d;
          printf D [CHR 0x0A] [] d }"

subsection \<open>Polling\<close>

text \<open>The state after \<open>n\<close> reads of a register, and what the next read gives.\<close>

primrec reads :: "'d device \<Rightarrow> u64 \<Rightarrow> nat \<Rightarrow> 'd \<Rightarrow> 'd" where
  "reads D reg 0 d = d"
| "reads D reg (Suc n) d = reads D reg n (snd (dev_read D reg d))"

abbreviation busy :: "'d device \<Rightarrow> u64 \<Rightarrow> u32 \<Rightarrow> 'd \<Rightarrow> bool" where
  "busy D reg flag d \<equiv> fst (dev_read D reg d) AND flag \<noteq> 0"

lemma poll_busy: "busy D reg flag d \<Longrightarrow> poll D reg flag d = poll D reg flag (snd (dev_read D reg d))"
  by (subst poll.simps) (simp add: split_beta)

lemma poll_ready: "\<not> busy D reg flag d \<Longrightarrow> poll D reg flag d = Some (snd (dev_read D reg d))"
  by (subst poll.simps) (simp add: split_beta)

lemma poll_reads:
  "(\<And>k. k < n \<Longrightarrow> busy D reg flag (reads D reg k d)) \<Longrightarrow> \<not> busy D reg flag (reads D reg n d) \<Longrightarrow>
    poll D reg flag d = Some (reads D reg (Suc n) d)"
proof (induction n arbitrary: d)
  case 0
  then show ?case by (simp add: poll_ready)
next
  case (Suc n)
  from Suc.prems(1) [of 0] have "busy D reg flag d" by simp
  moreover have "poll D reg flag (snd (dev_read D reg d)) = Some (reads D reg (Suc n) (snd (dev_read D reg d)))"
    using Suc.prems by (intro Suc.IH) force+
  ultimately show ?case by (simp add: poll_busy)
qed

lemma poll_Some:
  assumes "poll D reg flag d = Some d'"
  shows "\<exists>n. \<not> busy D reg flag (reads D reg n d)"
  using assms
proof (rule poll.raw_induct [where P = "\<lambda>D reg flag d _. \<exists>n. \<not> busy D reg flag (reads D reg n d)", rotated])
  fix f :: "'d device \<Rightarrow> u64 \<Rightarrow> u32 \<Rightarrow> 'd \<Rightarrow> 'd option" and D reg flag d y
  assume ih: "\<And>D reg flag d y. f D reg flag d = Some y \<Longrightarrow> \<exists>n. \<not> busy D reg flag (reads D reg n d)"
    and y: "(let (v, d) = dev_read D reg d in if v AND flag \<noteq> 0 then f D reg flag d else Some d) = Some y"
  show "\<exists>n. \<not> busy D reg flag (reads D reg n d)"
  proof (cases "busy D reg flag d")
    case True
    then have "f D reg flag (snd (dev_read D reg d)) = Some y" using y by (simp add: split_beta)
    from ih [OF this] obtain n where "\<not> busy D reg flag (reads D reg n (snd (dev_read D reg d)))" ..
    then have "\<not> busy D reg flag (reads D reg (Suc n) d)" by simp
    then show ?thesis ..
  next
    case False
    then have "\<not> busy D reg flag (reads D reg 0 d)" by simp
    then show ?thesis ..
  qed
qed

lemma poll_returns_iff: "poll D reg flag d \<noteq> None \<longleftrightarrow> (\<exists>n. \<not> busy D reg flag (reads D reg n d))"
proof
  assume "\<exists>n. \<not> busy D reg flag (reads D reg n d)"
  then obtain n where "\<not> busy D reg flag (reads D reg n d)" "\<forall>k < n. busy D reg flag (reads D reg k d)"
    using exists_least_iff [of "\<lambda>n. \<not> busy D reg flag (reads D reg n d)"] by blast
  then have "poll D reg flag d = Some (reads D reg (Suc n) d)" by (intro poll_reads) auto
  then show "poll D reg flag d \<noteq> None" by simp
next
  assume "poll D reg flag d \<noteq> None"
  then show "\<exists>n. \<not> busy D reg flag (reads D reg n d)" using poll_Some [of D reg flag d] by blast
qed

subsection \<open>What the hardware promises\<close>

text \<open>
  \<open>sent\<close> is what has gone out on the line. While the flag register says that the transmit buffer is full,
  reading it only lets time pass, and the buffer is full for at most \<open>wait\<close> more reads; when it says that it is not,
  there is \<open>room\<close> for one character, and a write of the data register then sends the low byte.
\<close>

definition pl011 :: "'d device \<Rightarrow> ('d \<Rightarrow> string) \<Rightarrow> ('d \<Rightarrow> nat) \<Rightarrow> ('d \<Rightarrow> bool) \<Rightarrow> bool" where
  "pl011 D sent wait room \<longleftrightarrow>
     (\<forall>d. sent (snd (dev_read D UART0_FR d)) = sent d) \<and>
     (\<forall>d. busy D UART0_FR 0x20 d \<longrightarrow> wait (snd (dev_read D UART0_FR d)) < wait d) \<and>
     (\<forall>d. \<not> busy D UART0_FR 0x20 d \<longrightarrow> room (snd (dev_read D UART0_FR d))) \<and>
     (\<forall>c d. room d \<longrightarrow> sent (dev_write D UART0_DR c d) = sent d @ [char_of (unat c)])"

lemma poll_pl011:
  assumes "pl011 D sent wait room"
  shows "\<exists>d'. poll D UART0_FR 0x20 d = Some d' \<and> sent d' = sent d \<and> room d'"
proof (induction "wait d" arbitrary: d rule: less_induct)
  case less
  show ?case
  proof (cases "busy D UART0_FR 0x20 d")
    case True
    then have "wait (snd (dev_read D UART0_FR d)) < wait d" using assms by (simp add: pl011_def)
    from less [OF this] True show ?thesis using assms by (simp add: poll_busy pl011_def)
  next
    case False
    then show ?thesis using assms by (simp add: poll_ready pl011_def)
  qed
qed

lemma uart_send_pl011:
  assumes "pl011 D sent wait room"
  shows "\<exists>d'. uart_send_boot D c d = Some d' \<and> sent d' = sent d @ [char_of (unat c)]"
  using poll_pl011 [OF assms, of d] assms by (auto simp: uart_send_boot_def pl011_def)

lemma uart_send_all_pl011:
  assumes "pl011 D sent wait room"
  shows "\<exists>d'. uart_send_all D cs d = Some d' \<and> sent d' = sent d @ cs"
proof (induction cs arbitrary: d)
  case (Cons c cs)
  have "of_char c < (2 ^ 32 :: nat)" by (rule less_le_trans [OF nat_of_char_less_256]) simp
  then have "unat (word_of_nat (of_char c) :: u32) = of_char c" by (simp add: unat_of_nat take_bit_nat_eq_self)
  then have "char_of (unat (word_of_nat (of_char c) :: u32)) = c" by simp
  with uart_send_pl011 [OF assms, of "word_of_nat (of_char c)" d] obtain e where
    "uart_send_boot D (word_of_nat (of_char c)) d = Some e" "sent e = sent d @ [c]" by auto
  with Cons [of e] show ?case by auto
qed simp

text \<open>A conversion without the long flag, and a string, in the middle of a text.\<close>

lemma lp_Print_short:
  assumes "CHR ''%'' \<notin> set pre" and "CHR 0x00 \<notin> set pre" and "length pre \<le> 1000"
  shows "lp_Print (pre @ ''%x'' @ rest) (VA_num n # ap) =
      (pre @ numeral_in 16 False (unat (va_int n)) @ fst (lp_Print rest ap), snd (lp_Print rest ap))"
    "lp_Print (pre @ ''%d'' @ rest) (VA_num n # ap) =
      (pre @ signed_text (va_int n) @ fst (lp_Print rest ap), snd (lp_Print rest ap))"
    "s \<noteq> [CHR 0x00] \<Longrightarrow> length s \<le> 1000 \<Longrightarrow> lp_Print (pre @ ''%s'' @ rest) (VA_str s # ap) =
      (pre @ s @ fst (lp_Print rest ap), snd (lp_Print rest ap))"
proof -
  let ?sp = "\<lparr>longFlag = False, ladjust = False, padc = CHR '' '', width = 0\<rparr>"
  have sc: "scan_spec (''x'' @ rest) = Some (?sp, CHR ''x'' # rest)" "scan_spec (''d'' @ rest) = Some (?sp, CHR ''d'' # rest)"
    "scan_spec (''s'' @ rest) = Some (?sp, CHR ''s'' # rest)"
    by (simp_all add: scan_spec_def eat_def IsDigit_def less_eq_char_def)
  have ic: "is_conversion (CHR ''x'')" "is_conversion (CHR ''d'')" "is_conversion (CHR ''s'')" by (simp_all add: is_conversion_def)
  note run = lp_loop_conversion [OF assms, folded lp_Print_def]
  from print_number [where base = 16 and up = False and neg = False and u = "va_int n"] obtain l buf where
    p: "PrintNum blank_buf (va_int n) 16 False 0 False (CHR '' '') False = Some (l, buf)"
    "OUTPUT buf l = (numeral_in 16 False (unat (va_int n)), True)" by auto
  then have "conversion ?sp (CHR ''x'') (VA_num n # ap) = Some ((l, buf), ap)"
    by (simp add: conversion_def number_field_def)
  from run [OF sc(1) ic(1) this p(2)] show "lp_Print (pre @ ''%x'' @ rest) (VA_num n # ap) =
      (pre @ numeral_in 16 False (unat (va_int n)) @ fst (lp_Print rest ap), snd (lp_Print rest ap))" by simp
  have "\<exists>l buf. number_field ?sp (CHR ''d'') n = Some (l, buf) \<and> OUTPUT buf l = (signed_text (va_int n), True)"
    using print_number [where base = 10 and up = False and neg = True and u = "- va_int n"]
      print_number [where base = 10 and up = False and neg = False and u = "va_int n"] unat_sint [of "va_int n"]
    by (auto simp: number_field_def signed_text_def)
  then obtain l buf where d: "number_field ?sp (CHR ''d'') n = Some (l, buf)"
    "OUTPUT buf l = (signed_text (va_int n), True)" by blast
  then have "conversion ?sp (CHR ''d'') (VA_num n # ap) = Some ((l, buf), ap)" by (simp add: conversion_def)
  from run [OF sc(2) ic(2) this d(2)] show "lp_Print (pre @ ''%d'' @ rest) (VA_num n # ap) =
      (pre @ signed_text (va_int n) @ fst (lp_Print rest ap), snd (lp_Print rest ap))" by simp
  assume s: "s \<noteq> [CHR 0x00]" "length s \<le> 1000"
  then have "OUTPUT (s @ drop (length s) blank_buf) (int (length s)) = (s, True)"
    using OUTPUT_field [of s "length s"] by (cases "s = []") (simp_all add: OUTPUT_def myoutput_def LP_MAX_BUF_def)
  moreover have "conversion ?sp (CHR ''s'') (VA_str s # ap) = Some ((int (length s), s @ drop (length s) blank_buf), ap)"
    using s PrintString_eq [of s 0 blank_buf False]
    by (simp add: conversion_def blank_buf_def LP_MAX_BUF_def text_field_def Let_def)
  ultimately show "lp_Print (pre @ ''%s'' @ rest) (VA_str s # ap) =
      (pre @ s @ fst (lp_Print rest ap), snd (lp_Print rest ap))" using run [OF sc(3) ic(3)] by simp
qed

subsection \<open>What arrives on the line\<close>

lemma printf_pl011:
  assumes "pl011 D sent wait room" and "lp_Print fmt ap = (txt, Finished)"
  shows "\<exists>d'. printf D fmt ap d = Some d' \<and> sent d' = sent d @ txt"
  using uart_send_all_pl011 [OF assms(1)] assms(2) by (simp add: printf_def)

definition panic_text :: "string \<Rightarrow> u64 \<Rightarrow> string \<Rightarrow> string" where
  "panic_text file line txt = ''panic at '' @ file @ '':'' @ signed_text (va_int line) @ '': '' @ txt @ [CHR 0x0A]"

lemma lp_Print_plain: "CHR ''%'' \<notin> set t \<Longrightarrow> CHR 0x00 \<notin> set t \<Longrightarrow> length t \<le> 1000 \<Longrightarrow> lp_Print t ap = (t, Finished)"
  by (simp add: lp_Print_text)

lemma panic_pl011:
  assumes u: "pl011 D sent wait room" and t: "lp_Print fmt ap = (txt, Finished)"
    and f: "file \<noteq> [CHR 0x00]" "length file \<le> 1000"
  shows "\<exists>d'. panic D file line fmt ap d = Some d' \<and> sent d' = sent d @ panic_text file line txt"
proof -
  have "lp_Print ''panic at %s:%d: '' [VA_str file, VA_num line] =
    (''panic at '' @ file @ '':'' @ signed_text (va_int line) @ '': '', Finished)"
    using lp_Print_short(3) [where pre = "''panic at ''" and s = "file" and rest = "'':%d: ''" and ap = "[VA_num line]"] f
      lp_Print_short(2) [where pre = "'':''" and rest = "'': ''" and n = line and ap = "[]"] lp_Print_plain [of "'': ''" "[]"] by simp
  from printf_pl011 [OF u this, of d] obtain d1 where 1:
    "printf D ''panic at %s:%d: '' [VA_str file, VA_num line] d = Some d1"
    "sent d1 = sent d @ ''panic at '' @ file @ '':'' @ signed_text (va_int line) @ '': ''" by auto
  from printf_pl011 [OF u t, of d1] obtain d2 where 2: "printf D fmt ap d1 = Some d2" "sent d2 = sent d1 @ txt" by auto
  from printf_pl011 [OF u lp_Print_plain [of "[CHR 0x0A]" "[]"], of d2] obtain d3 where
    3: "printf D [CHR 0x0A] [] d2 = Some d3" "sent d3 = sent d2 @ [CHR 0x0A]" by auto
  from 1 2 3 show ?thesis by (simp add: panic_def panic_text_def)
qed

lemma user_driver: "user_uart_init_boot = uart_init_boot" "user_uart_send_boot = uart_send_boot"
  "user_uart_getc_boot = uart_getc_boot"
  by (simp_all add: fun_eq_iff user_uart_init_boot_def uart_init_boot_def select_alt0_def Let_def split_beta
      user_uart_send_boot_def uart_send_boot_def user_uart_getc_boot_def uart_getc_boot_def)

lemma user_main_sends: "user_main D n d = uart_send_all D (replicate n (CHR ''a'')) d"
  by (induction n arbitrary: d) (simp_all add: user_driver)

subsection \<open>A device\<close>

text \<open>
  The transmit buffer is full for some reads, then what is written goes out; the bytes received wait in a queue. All other
  registers read as zero.
\<close>

record line =
  delay :: nat
  line_out :: string
  line_in :: "u8 list"

definition demo_uart :: "line device" where
  "demo_uart = \<lparr>dev_read = (\<lambda>r d.
      if r = UART0_FR then ((if delay d > 0 then 0x20 else 0) OR (if line_in d = [] then 0x10 else 0), d\<lparr>delay := delay d - 1\<rparr>)
      else if r = UART0_DR then (case line_in d of [] \<Rightarrow> (0, d) | c # cs \<Rightarrow> (ucast c, d\<lparr>line_in := cs\<rparr>))
      else (0, d)),
    dev_write = (\<lambda>r v d. if r = UART0_DR then d\<lparr>delay := 3, line_out := line_out d @ [char_of (unat v)]\<rparr> else d)\<rparr>"

lemma demo_uart: "pl011 demo_uart line_out delay (\<lambda>_. True)"
  by (auto simp: pl011_def demo_uart_def)

subsection \<open>Properties\<close>

text \<open>C31: \<^verbatim>\<open>printf\<close> through the driver. When the hardware does what its manual says (a full transmit buffer
  gets empty, a character written when there is room goes out), every call whose format \<open>lp_Print\<close> finishes returns,
  with exactly its text behind what has been sent before, no character lost or reordered; and \<^verbatim>\<open>panic\<close>
  reaches its endless loop with the place, the message and a newline sent.\<close>

lemma printf_transmits:
  assumes "pl011 D sent wait room" and "lp_Print fmt ap = (txt, Finished)"
    and "CHR 0x00 \<notin> set file" "length file \<le> 1000"
  shows "(\<exists>d'. printf D fmt ap d = Some d' \<and> sent d' = sent d @ txt) \<and>
    (\<exists>d'. panic D file line fmt ap d = Some d' \<and> sent d' = sent d @
       ''panic at '' @ file @ '':'' @ signed_text (va_int line) @ '': '' @ txt @ [CHR 0x0A])"
proof -
  have "file \<noteq> [CHR 0x00]" using assms(3) by auto
  from panic_pl011 [OF assms(1,2) this assms(4), unfolded panic_text_def] printf_pl011 [OF assms(1,2)]
  show ?thesis by blast
qed

lemma printf_transmits_witness:
  "\<exists>d'. printf demo_uart ''hello'' [] \<lparr>delay = 7, line_out = ''>'', line_in = []\<rparr> = Some d' \<and> line_out d' = ''>hello''"
  using printf_transmits [OF demo_uart lp_Print_plain [of "''hello''" "[]"], of "[]" "\<lparr>delay = 7, line_out = ''>'', line_in = []\<rparr>"]
  by simp

text \<open>The polling loops. \<^verbatim>\<open>uart_send_boot\<close> and \<^verbatim>\<open>uart_getc_boot\<close> return exactly when some read of the flag
  register finds the transmit buffer not full, or the receive buffer not empty; otherwise they spin for
  ever, without a time limit.\<close>

lemma uart_returns_iff:
  "(uart_send_boot D c d \<noteq> None \<longleftrightarrow> (\<exists>n. \<not> busy D UART0_FR 0x20 (reads D UART0_FR n d))) \<and>
   (uart_getc_boot D d \<noteq> None \<longleftrightarrow> (\<exists>n. \<not> busy D UART0_FR 0x10 (reads D UART0_FR n d)))"
proof -
  have "uart_send_boot D c d \<noteq> None \<longleftrightarrow> poll D UART0_FR 0x20 d \<noteq> None"
    by (cases "poll D UART0_FR 0x20 d") (simp_all add: uart_send_boot_def)
  moreover have "uart_getc_boot D d \<noteq> None \<longleftrightarrow> poll D UART0_FR 0x10 d \<noteq> None"
    by (cases "poll D UART0_FR 0x10 d") (simp_all add: uart_getc_boot_def split_beta Let_def)
  ultimately show ?thesis unfolding poll_returns_iff by blast
qed

text \<open>The pins 14 and 15 get function 4; the eight other selectors of the register stay.\<close>

lemma select_alt0_fields:
  "drop_bit (3 * k) (select_alt0 r) AND 7 = (if k = 4 \<or> k = 5 then 4 else drop_bit (3 * k) r AND 7)" if "k < 10"
proof -
  have e: "select_alt0 r = (r AND NOT (push_bit 12 (mask 6))) OR (push_bit 14 1 OR push_bit 17 1)"
    by (simp add: select_alt0_def mask_eq_exp_minus_1)
  have m: "(7 :: u32) = mask 3" "(4 :: u32) = push_bit 2 1" by (simp_all add: mask_eq_exp_minus_1)
  show ?thesis unfolding e m
    by (rule bit_word_eqI) (use that in \<open>auto simp only: bit_and_iff bit_or_iff bit_not_iff bit_drop_bit_eq bit_push_bit_iff
        bit_mask_iff bit_1_iff comp_def if_distrib [of bit] split: if_splits\<close>, (simp; presburger)+)
qed

end
