(* ===== verification/Exceptions.thy ===== *)
theory Exceptions
  imports Kernel_Inv Uart
begin

text \<open>
  Exceptions: the vector table of \<^verbatim>\<open>lib/entry.S\<close>, \<^verbatim>\<open>unimplement_handler\<close> of \<^verbatim>\<open>lib/unimplement.c\<close> for the exceptions the
  kernel does not expect, and what the events of the kernel's trace put on the serial line.
\<close>

subsection \<open>The kernel's output\<close>

text \<open>What an event does to the line; only a panic needs the place where it is written, the values of
  \<^verbatim>\<open>__FILE__\<close> and \<^verbatim>\<open>__LINE__\<close> at the call.\<close>

fun emit :: "'d device \<Rightarrow> string \<Rightarrow> u64 \<Rightarrow> event \<Rightarrow> 'd \<Rightarrow> 'd option" where
  "emit D file line (Ev_printf fmt ap) d = printf D fmt ap d"
| "emit D file line (Ev_panic fmt ap) d = panic D file line fmt ap d"
| "emit D file line (Ev_uart c) d = uart_send_boot D c d"
| "emit D file line Ev_tlbi d = Some d"
| "emit D file line Ev_timer d = Some d"

primrec console :: "'d device \<Rightarrow> string \<Rightarrow> u64 \<Rightarrow> event list \<Rightarrow> 'd \<Rightarrow> 'd option" where
  "console D file line [] d = Some d"
| "console D file line (e # es) d = do { d \<leftarrow> emit D file line e d; console D file line es d }"

fun event_text :: "string \<Rightarrow> u64 \<Rightarrow> event \<Rightarrow> string" where
  "event_text file line (Ev_printf fmt ap) = fst (lp_Print fmt ap)"
| "event_text file line (Ev_panic fmt ap) = panic_text file line (fst (lp_Print fmt ap))"
| "event_text file line (Ev_uart c) = [char_of (unat c)]"
| "event_text file line Ev_tlbi = []"
| "event_text file line Ev_timer = []"

fun event_ends :: "event \<Rightarrow> bool" where
  "event_ends (Ev_printf fmt ap) \<longleftrightarrow> snd (lp_Print fmt ap) = Finished"
| "event_ends (Ev_panic fmt ap) \<longleftrightarrow> snd (lp_Print fmt ap) = Finished"
| "event_ends _ \<longleftrightarrow> True"

lemma emit_pl011:
  assumes "pl011 D sent wait room" and "event_ends e" and "file \<noteq> [CHR 0x00]" "length file \<le> 1000"
  shows "\<exists>d'. emit D file line e d = Some d' \<and> sent d' = sent d @ event_text file line e"
proof (cases e)
  case (Ev_printf fmt ap)
  then show ?thesis using printf_pl011 [OF assms(1), of fmt ap] assms(2) by (cases "lp_Print fmt ap") simp
next
  case (Ev_panic fmt ap)
  then show ?thesis using panic_pl011 [OF assms(1) _ assms(3,4), of fmt ap] assms(2) by (cases "lp_Print fmt ap") simp
next
  case (Ev_uart c)
  then show ?thesis using uart_send_pl011 [OF assms(1)] by simp
qed simp_all

lemma console_pl011:
  assumes "pl011 D sent wait room" and "\<forall>e \<in> set es. event_ends e" and "file \<noteq> [CHR 0x00]" "length file \<le> 1000"
  shows "\<exists>d'. console D file line es d = Some d' \<and> sent d' = sent d @ concat (map (event_text file line) es)"
  using assms(2)
proof (induction es arbitrary: d)
  case (Cons e es)
  from emit_pl011 [OF assms(1) _ assms(3,4), of e line d] Cons.prems obtain d1 where
    "emit D file line e d = Some d1" "sent d1 = sent d @ event_text file line e" by auto
  with Cons.IH [of d1] Cons.prems show ?case by auto
qed simp

subsection \<open>Unexpected exceptions\<close>

definition entry_error_messages :: "string list" where
  "entry_error_messages =
     [''SYNC_INVALID_EL1t'', ''IRQ_INVALID_EL1t'', ''FIQ_INVALID_EL1t'', ''ERROR_INVALID_EL1T'',
      ''SYNC_INVALID_EL1h'', ''IRQ_INVALID_EL1h'', ''FIQ_INVALID_EL1h'', ''ERROR_INVALID_EL1h'',
      ''SYNC_INVALID_EL0_64'', ''IRQ_INVALID_EL0_64'', ''FIQ_INVALID_EL0_64'', ''ERROR_INVALID_EL0_64'',
      ''SYNC_INVALID_EL0_32'', ''IRQ_INVALID_EL0_32'', ''FIQ_INVALID_EL0_32'', ''ERROR_INVALID_EL0_32'']"

text \<open>The table is not checked; a type behind it would be an access to other memory.\<close>

definition unimplement_handler :: "nat \<Rightarrow> u64 \<Rightarrow> u64 \<Rightarrow> 'a kfun" where
  "unimplement_handler type esr address s =
     (if type < length entry_error_messages
      then kpanic (''unimplement exception raised!'' @ [CHR 0x0D, CHR 0x0A]) []
        (kprintf (''%s, ESR: %x, address: %x'' @ [CHR 0x0D, CHR 0x0A])
          [VA_str (entry_error_messages ! type), VA_num esr, VA_num address] s)
      else (Inl Wild_jump, s))"

subsection \<open>The vector table\<close>

datatype handler =
    Unimplement nat   \<comment> \<open>\<^verbatim>\<open>unimplement_entry\<close> with a type of \<^verbatim>\<open>include/entry.h\<close>\<close>
  | Irq               \<comment> \<open>\<^verbatim>\<open>el1_irq\<close> and \<^verbatim>\<open>el0_irq\<close>, which are one routine\<close>
  | El0_sync

definition vectors :: "handler list" where
  "vectors =
     [Unimplement 0, Unimplement 1, Unimplement 2, Unimplement 3,
      Unimplement 4, Irq, Unimplement 6, Unimplement 7,
      El0_sync, Irq, Unimplement 10, Unimplement 11,
      Unimplement 12, Unimplement 13, Unimplement 14, Unimplement 15]"

text \<open>
  An exception of a kind, with the processor's syndrome \<open>esr\<close> and the registers \<open>tf\<close> of the program it interrupts. The
  result is the register \<open>x0\<close> on the return to it.
\<close>

definition exception :: "nat \<Rightarrow> u64 \<Rightarrow> trapframe \<Rightarrow> u64 kfun" where
  "exception kind esr tf s =
     (case vectors ! kind of
        Unimplement t \<Rightarrow> unimplement_handler t esr (tf_elr_el1 tf) s
      | Irq \<Rightarrow> kbind handle_irq (\<lambda>_. kret (tf_x tf 0)) (s\<lparr>timestack_tf := tf\<rparr>)
      | El0_sync \<Rightarrow> el0_sync (tf_x tf 0) (tf_x tf 1) (tf_x tf 2) (tf_x tf 3) (tf_x tf 4) (tf_x tf 5)
          (s\<lparr>kernel_tf := tf\<rparr>))"

lemma vectors_kinds:
  assumes "k < 16"
  shows "vectors ! k = (if k = 8 then El0_sync else if k = 5 \<or> k = 9 then Irq else Unimplement k)"
proof -
  have "\<forall>k < 16. vectors ! k = (if k = 8 then El0_sync else if k = 5 \<or> k = 9 then Irq else Unimplement k)"
    by (simp add: vectors_def All_less_Suc2 numeral_eq_Suc)
  then show ?thesis using assms by blast
qed

lemma handle_irq_holds: "kernel_ok s \<Longrightarrow> holds (\<lambda>_. True) (handle_irq s)"
  by (auto simp: handle_irq_def keeps intro!: sched_yield_holds)

lemma exception_holds: "kernel_ok s \<Longrightarrow> k < 16 \<Longrightarrow> holds (\<lambda>_. True) (exception k esr tf s)"
  unfolding exception_def
  by (auto simp: vectors_kinds unimplement_handler_def keeps
      intro!: el0_sync_holds holds_kbind [OF handle_irq_holds] kpanic_holds)

lemma messages_plain:
  assumes "m \<in> set entry_error_messages"
  shows "m \<noteq> [CHR 0x00]" "length m \<le> 1000" "CHR ''%'' \<notin> set m"
  using assms by (auto simp: entry_error_messages_def)

text \<open>The two lines of a report.\<close>

definition report :: "string \<Rightarrow> u64 \<Rightarrow> u64 \<Rightarrow> string" where
  "report m esr address = m @ '', ESR: '' @ numeral_in 16 False (unat (va_int esr)) @
     '', address: '' @ numeral_in 16 False (unat (va_int address)) @ [CHR 0x0D, CHR 0x0A]"

lemma report_text:
  assumes "m \<noteq> [CHR 0x00]" "length m \<le> 1000"
  shows "lp_Print (''%s, ESR: %x, address: %x'' @ [CHR 0x0D, CHR 0x0A]) [VA_str m, VA_num esr, VA_num address] =
    (report m esr address, Finished)"
proof -
  have crlf: "lp_Print [CHR 0x0D, CHR 0x0A] [] = ([CHR 0x0D, CHR 0x0A], Finished)" by (simp add: lp_Print_plain)
  show ?thesis
    using lp_Print_short(3) [where pre = "[]" and s = m and rest = "'', ESR: %x, address: %x'' @ [CHR 0x0D, CHR 0x0A]"
        and ap = "[VA_num esr, VA_num address]"]
      lp_Print_short(1) [where pre = "'', ESR: ''" and rest = "'', address: %x'' @ [CHR 0x0D, CHR 0x0A]" and n = esr
        and ap = "[VA_num address]"]
      lp_Print_short(1) [where pre = "'', address: ''" and rest = "[CHR 0x0D, CHR 0x0A]" and n = address and ap = "[]"]
      assms crlf by (simp add: report_def)
qed

subsection \<open>Properties\<close>

text \<open>C32: an exception the kernel does not expect. Every kind but the interrupts and the synchronous exception from a
  program stops the kernel, with nothing changed but its trace; on a line that works, two lines report it, the kind by its name, the
  syndrome and the return address in hexadecimal, and the panic. Both numbers are read as a signed \<^verbatim>\<open>int\<close>: only their low
  32 bits are shown.\<close>

theorem exception_report:
  assumes "k < 16" and "k \<notin> {5, 8, 9}" and u: "pl011 D sent wait room"
    and f: "file \<noteq> [CHR 0x00]" "length file \<le> 1000"
  shows "\<exists>es d'. exception k esr tf s = (Inl Panicked, s\<lparr>trace := trace s @ es\<rparr>) \<and>
    console D file line es d = Some d' \<and>
    sent d' = sent d @ report (entry_error_messages ! k) esr (tf_elr_el1 tf) @
      panic_text file line (''unimplement exception raised!'' @ [CHR 0x0D, CHR 0x0A])"
proof -
  let ?m = "entry_error_messages ! k"
  let ?es = "[Ev_printf (''%s, ESR: %x, address: %x'' @ [CHR 0x0D, CHR 0x0A]) [VA_str ?m, VA_num esr, VA_num (tf_elr_el1 tf)],
    Ev_panic (''unimplement exception raised!'' @ [CHR 0x0D, CHR 0x0A]) []]"
  have k: "k < length entry_error_messages" using assms(1) by (simp add: entry_error_messages_def)
  then have m: "?m \<noteq> [CHR 0x00]" "length ?m \<le> 1000" using messages_plain [OF nth_mem [OF k]] by auto
  have "lp_Print (''unimplement exception raised!'' @ [CHR 0x0D, CHR 0x0A]) [] =
      (''unimplement exception raised!'' @ [CHR 0x0D, CHR 0x0A], Finished)" by (rule lp_Print_plain) simp_all
  then have t: "\<forall>e \<in> set ?es. event_ends e" "concat (map (event_text file line) ?es) =
      report ?m esr (tf_elr_el1 tf) @ panic_text file line (''unimplement exception raised!'' @ [CHR 0x0D, CHR 0x0A])"
    using report_text [OF m, of esr "tf_elr_el1 tf"] by (simp_all only: set_simps event_ends.simps event_text.simps list.map concat.simps
      fst_conv snd_conv ball_simps ball_empty simp_thms append_Nil2 insert_iff)
  have "exception k esr tf s = (Inl Panicked, s\<lparr>trace := trace s @ ?es\<rparr>)"
    using assms(1,2) k by (simp add: exception_def vectors_kinds unimplement_handler_def kpanic_def kprintf_def log_def)
  with console_pl011 [OF u t(1) f] t(2) show ?thesis by metis
qed

lemma exception_report_witness:
  "\<exists>es d'. exception 4 0x16000046 (reset_tf\<lparr>tf_elr_el1 := 0x8AC\<rparr>) reset_state = (Inl Panicked, reset_state\<lparr>trace := es\<rparr>) \<and>
    console demo_uart ''unimplement.c'' 28 es \<lparr>delay = 0, line_out = [], line_in = []\<rparr> = Some d'"
proof -
  have "(4 :: nat) < 16" "(4 :: nat) \<notin> {5, 8, 9}" "''unimplement.c'' \<noteq> [CHR 0x00]" "length ''unimplement.c'' \<le> 1000" by simp_all
  from exception_report [OF this(1,2) demo_uart this(3,4), of "0x16000046" "reset_tf\<lparr>tf_elr_el1 := 0x8AC\<rparr>" reset_state 28
      "\<lparr>delay = 0, line_out = [], line_in = []\<rparr>"]
  show ?thesis by (auto simp: reset_state_def)
qed

text \<open>Every entry of the vector table keeps the kernel's invariant, and a synchronous exception from a program is taken as
  a system call whatever its cause: the syndrome is not read, so a fault calls the function the register \<open>x0\<close> happens to name.\<close>

theorem exceptions_keep_invariant:
  assumes "reachable s" and "k < 16"
  shows "kernel_ok (snd (exception k esr tf s)) \<and> (k = 8 \<longrightarrow> (\<forall>esr'. exception k esr' tf s = exception k esr tf s))"
  using exception_holds [OF reachable_ok [OF assms(1)] assms(2), of esr tf] assms(2)
  by (simp add: holds_def exception_def vectors_kinds)

lemma exceptions_keep_invariant_witness: "kernel_ok (snd (exception 9 0 reset_tf (env_init reset_state)))"
  using exceptions_keep_invariant [OF reachable_boot, of 9 0 reset_tf] by simp

end
