(* ===== verification/User_Calls.thy ===== *)
theory User_Calls
  imports Ipc
begin

text \<open>
  User_Calls: the library of the user programs, \<^verbatim>\<open>user/syscall_lib.c\<close>, \<^verbatim>\<open>user/ipc.c\<close> and \<^verbatim>\<open>user/fork.c\<close>. A stub
  puts the number of the call and its arguments into registers and executes \<^verbatim>\<open>svc\<close>
  (\<^verbatim>\<open>user/msyscall.S\<close>); the processor saves the caller's registers, the argument \<open>tf\<close>, on the kernel
  stack and goes to \<^verbatim>\<open>el0_sync\<close>.
\<close>

subsection \<open>Numbers\<close>

definition SYSCALL_BASE :: u64 where "SYSCALL_BASE = 9527"
definition SYS_putchar :: u64 where "SYS_putchar = SYSCALL_BASE + 0"
definition SYS_getenvid :: u64 where "SYS_getenvid = SYSCALL_BASE + 1"
definition SYS_yield :: u64 where "SYS_yield = SYSCALL_BASE + 2"
definition SYS_env_destroy :: u64 where "SYS_env_destroy = SYSCALL_BASE + 3"
definition SYS_set_pgfault_handler :: u64 where "SYS_set_pgfault_handler = SYSCALL_BASE + 4"
definition SYS_mem_alloc :: u64 where "SYS_mem_alloc = SYSCALL_BASE + 5"
definition SYS_mem_map :: u64 where "SYS_mem_map = SYSCALL_BASE + 6"
definition SYS_mem_unmap :: u64 where "SYS_mem_unmap = SYSCALL_BASE + 7"
definition SYS_env_alloc :: u64 where "SYS_env_alloc = SYSCALL_BASE + 8"
definition SYS_set_env_status :: u64 where "SYS_set_env_status = SYSCALL_BASE + 9"
definition SYS_set_trapframe :: u64 where "SYS_set_trapframe = SYSCALL_BASE + 10"
definition SYS_panic :: u64 where "SYS_panic = SYSCALL_BASE + 11"
definition SYS_ipc_can_send :: u64 where "SYS_ipc_can_send = SYSCALL_BASE + 12"
definition SYS_ipc_recv :: u64 where "SYS_ipc_recv = SYSCALL_BASE + 13"
definition SYS_cgetc :: u64 where "SYS_cgetc = SYSCALL_BASE + 14"

lemmas SYS_defs = SYSCALL_BASE_def SYS_putchar_def SYS_getenvid_def SYS_yield_def SYS_env_destroy_def
  SYS_set_pgfault_handler_def SYS_mem_alloc_def SYS_mem_map_def SYS_mem_unmap_def SYS_env_alloc_def
  SYS_set_env_status_def SYS_set_trapframe_def SYS_panic_def SYS_ipc_can_send_def SYS_ipc_recv_def SYS_cgetc_def

subsection \<open>Stubs\<close>

text \<open>The conversion of a \<^verbatim>\<open>long\<close> result to \<^verbatim>\<open>int\<close>.\<close>

definition c_int :: "u64 \<Rightarrow> int" where
  "c_int r = sint (ucast r :: u32)"

definition msyscall :: "trapframe \<Rightarrow> u64 \<Rightarrow> u64 \<Rightarrow> u64 \<Rightarrow> u64 \<Rightarrow> u64 \<Rightarrow> u64 \<Rightarrow> u64 kfun" where
  "msyscall tf no a b c d e s = el0_sync no a b c d e (s\<lparr>kernel_tf := tf\<rparr>)"

definition as_int :: "u64 kfun \<Rightarrow> int kfun" where
  "as_int f = kbind f (\<lambda>r. kret (c_int r))"

definition as_void :: "u64 kfun \<Rightarrow> unit kfun" where
  "as_void f = kbind f (\<lambda>_. kret ())"

definition syscall_putchar :: "trapframe \<Rightarrow> u8 \<Rightarrow> int kfun" where
  "syscall_putchar tf ch = as_int (msyscall tf SYS_putchar (ucast ch) 0 0 0 0)"

definition syscall_getenvid :: "trapframe \<Rightarrow> u64 kfun" where
  "syscall_getenvid tf = msyscall tf SYS_getenvid 0 0 0 0 0"

definition syscall_yield :: "trapframe \<Rightarrow> unit kfun" where
  "syscall_yield tf = as_void (msyscall tf SYS_yield 0 0 0 0 0)"

definition syscall_env_destroy :: "trapframe \<Rightarrow> u64 \<Rightarrow> unit kfun" where
  "syscall_env_destroy tf envid = as_void (msyscall tf SYS_env_destroy envid 0 0 0 0)"

definition syscall_set_pgfault_handler :: "trapframe \<Rightarrow> u64 \<Rightarrow> u64 \<Rightarrow> u64 \<Rightarrow> int kfun" where
  "syscall_set_pgfault_handler tf envid func xstacktop =
     as_int (msyscall tf SYS_set_pgfault_handler envid func xstacktop 0 0)"

definition syscall_mem_alloc :: "trapframe \<Rightarrow> u64 \<Rightarrow> u64 \<Rightarrow> u64 \<Rightarrow> int kfun" where
  "syscall_mem_alloc tf envid va perm = as_int (msyscall tf SYS_mem_alloc envid va perm 0 0)"

definition syscall_mem_map :: "trapframe \<Rightarrow> u64 \<Rightarrow> u64 \<Rightarrow> u64 \<Rightarrow> u64 \<Rightarrow> u64 \<Rightarrow> int kfun" where
  "syscall_mem_map tf srcid srcva dstid dstva perm = as_int (msyscall tf SYS_mem_map srcid srcva dstid dstva perm)"

definition syscall_mem_unmap :: "trapframe \<Rightarrow> u64 \<Rightarrow> u64 \<Rightarrow> int kfun" where
  "syscall_mem_unmap tf envid va = as_int (msyscall tf SYS_mem_unmap envid va 0 0 0)"

definition syscall_env_alloc :: "trapframe \<Rightarrow> int kfun" where
  "syscall_env_alloc tf = as_int (msyscall tf SYS_env_alloc 0 0 0 0 0)"

definition syscall_set_env_status :: "trapframe \<Rightarrow> u64 \<Rightarrow> u64 \<Rightarrow> int kfun" where
  "syscall_set_env_status tf envid status = as_int (msyscall tf SYS_set_env_status envid status 0 0 0)"

definition syscall_set_trapframe :: "u64 \<Rightarrow> u64 \<Rightarrow> int kfun" where
  "syscall_set_trapframe envid tf = kret 0"

definition syscall_panic :: "u64 \<Rightarrow> unit kfun" where
  "syscall_panic msg = kret ()"

definition syscall_ipc_can_send :: "trapframe \<Rightarrow> u64 \<Rightarrow> u64 \<Rightarrow> u64 \<Rightarrow> u64 \<Rightarrow> int kfun" where
  "syscall_ipc_can_send tf envid val srcva perm = as_int (msyscall tf SYS_ipc_can_send envid val srcva perm 0)"

definition syscall_ipc_recv :: "trapframe \<Rightarrow> u64 \<Rightarrow> unit kfun" where
  "syscall_ipc_recv tf dstva = as_void (msyscall tf SYS_ipc_recv dstva 0 0 0 0)"

definition syscall_cgetc :: "trapframe \<Rightarrow> int kfun" where
  "syscall_cgetc tf = as_int (msyscall tf SYS_cgetc 0 0 0 0 0)"

subsection \<open>\<open>fork\<close> and messages\<close>

definition fork :: "trapframe \<Rightarrow> int kfun" where
  "fork tf = syscall_env_alloc tf"

text \<open>
  One round of the loop of \<open>ipc_send\<close>: whether the message is delivered. \<^verbatim>\<open>syscall_yield\<close> leaves the
  program; when the scheduler comes back to it, it starts the next round.
\<close>

definition ipc_send_round :: "trapframe \<Rightarrow> u64 \<Rightarrow> u64 \<Rightarrow> u64 \<Rightarrow> u64 \<Rightarrow> bool kfun" where
  "ipc_send_round tf whom val srcva perm =
     kbind (syscall_ipc_can_send tf whom val srcva perm) (\<lambda>r.
       if r = - E_IPC_NOT_RECV then kbind (syscall_yield tf) (\<lambda>_. kret False)
       else if r = 0 then kret True
       else kpanic ''error in ipc_send: %d'' [VA_num (word_of_int r)])"

text \<open>What \<open>ipc_recv\<close> reads after its system call: the sender, the permission and the value.\<close>

definition ipc_received :: "(u64 \<times> u64 \<times> u64) kfun" where
  "ipc_received s = (case curenv s of
       None \<Rightarrow> (Inl Null_deref, s)
     | Some c \<Rightarrow> (Inr (env_ipc_from (envs s c), env_ipc_perm (envs s c), env_ipc_value (envs s c)), s))"

definition ipc_recv :: "trapframe \<Rightarrow> u64 \<Rightarrow> (u64 \<times> u64 \<times> u64) kfun" where
  "ipc_recv tf dstva = kbind (syscall_ipc_recv tf dstva) (\<lambda>_. ipc_received)"

subsection \<open>Dispatch\<close>

lemma msyscall_eq:
  assumes "no = SYSCALL_BASE + word_of_nat k" "k < 14"
  shows "msyscall tf no a b c d e s = (sys_call_table ! k) a b c d e (s\<lparr>kernel_tf := tf\<rparr>)"
proof -
  have n: "unat (word_of_nat k :: u64) = k" using assms(2) by (simp add: unat_of_nat take_bit_nat_eq_self)
  have "sint (word_of_nat k :: u64) = int k" using assms(2) by (simp add: signed_of_nat signed_take_bit_int_eq_self)
  then show ?thesis using assms n by (simp add: msyscall_def el0_sync_def SYSCALL_BASE_def Let_def sys_call_table_def)
qed

text \<open>An \<^verbatim>\<open>int\<close> passes through the register unchanged.\<close>

lemma c_int_of_int: "- 0x80000000 \<le> r \<Longrightarrow> r < 0x80000000 \<Longrightarrow> c_int (word_of_int r) = r"
  by (simp add: c_int_def signed_of_int unsigned_of_int signed_take_bit_take_bit signed_take_bit_int_eq_self)

lemma as_int_ret_int: "as_int (\<lambda>s. ret_int f (g s)) s = kbind f (\<lambda>r. kret (c_int (word_of_int r))) (g s)"
  by (simp add: as_int_def ret_int_def kbind_def split: prod.split sum.split)

lemma as_void_ret_void: "as_void (\<lambda>s. ret_void f (g s)) s = f (g s)"
  by (simp add: as_void_def ret_void_def kbind_def split: prod.split sum.split)

lemma as_void_ret_int: "as_void (\<lambda>s. ret_int f (g s)) s = kbind f (\<lambda>_. kret ()) (g s)"
  by (simp add: as_void_def ret_int_def kbind_def split: prod.split sum.split)

lemma msyscall_fun:
  assumes "no = SYSCALL_BASE + word_of_nat k" "k < 14"
  shows "msyscall tf no a b c d e = (\<lambda>s. (sys_call_table ! k) a b c d e (s\<lparr>kernel_tf := tf\<rparr>))"
  by (rule ext) (rule msyscall_eq [OF assms])

lemma can_send_stub:
  assumes "sys_ipc_can_send i v va p (s\<lparr>kernel_tf := tf\<rparr>) = (Inr r, s')" "- 0x80000000 \<le> r" "r < 0x80000000"
  shows "syscall_ipc_can_send tf i v va p s = (Inr r, s')"
  using assms msyscall_fun [where k = 12]
  by (simp add: syscall_ipc_can_send_def SYS_defs sys_call_table_def as_int_ret_int c_int_of_int)

lemma yield_stub: "syscall_yield tf s = sys_yield (s\<lparr>kernel_tf := tf\<rparr>)"
  using msyscall_fun [where k = 2] by (simp add: syscall_yield_def SYS_defs sys_call_table_def as_void_ret_void)

text \<open>C14: every stub of the library reaches its own system call. A call of the stub is the call of the
  function of \<^verbatim>\<open>lib/syscall_all.c\<close> with the same arguments in the same order, with the result
  as an \<^verbatim>\<open>int\<close>; only \<^verbatim>\<open>syscall_cgetc\<close>, whose number has no entry in the table, jumps to
  what lies behind it.
\<close>

theorem stubs_dispatch:
  fixes s :: kstate and tf :: trapframe
  defines "t \<equiv> s\<lparr>kernel_tf := tf\<rparr>" and "int_call \<equiv> \<lambda>f. kbind f (\<lambda>r. kret (c_int (word_of_int r)))"
  shows "syscall_putchar tf ch s = int_call (sys_putchar (ucast ch)) t \<and>
    syscall_getenvid tf s = sys_getenvid t \<and>
    syscall_yield tf s = sys_yield t \<and>
    syscall_env_destroy tf i s = kbind (sys_env_destroy i) (\<lambda>_. kret ()) t \<and>
    syscall_set_pgfault_handler tf i f x s = int_call (sys_set_pgfault_handler i f x) t \<and>
    syscall_mem_alloc tf i va p s = int_call (sys_mem_alloc i va p) t \<and>
    syscall_mem_map tf i va j vb p s = int_call (sys_mem_map i va j vb p) t \<and>
    syscall_mem_unmap tf i va s = int_call (sys_mem_unmap i va) t \<and>
    fork tf s = int_call sys_env_alloc t \<and>
    syscall_set_env_status tf i st s = int_call (sys_set_env_status i st) t \<and>
    syscall_ipc_can_send tf i v va p s = int_call (sys_ipc_can_send i v va p) t \<and>
    syscall_ipc_recv tf va s = sys_ipc_recv va t \<and>
    syscall_cgetc tf s = (Inl Wild_jump, t)"
proof -
  note m = msyscall_fun [where k = 0] msyscall_fun [where k = 1] msyscall_fun [where k = 2] msyscall_fun [where k = 3]
    msyscall_fun [where k = 4] msyscall_fun [where k = 5] msyscall_fun [where k = 6] msyscall_fun [where k = 7]
    msyscall_fun [where k = 8] msyscall_fun [where k = 9] msyscall_fun [where k = 12] msyscall_fun [where k = 13]
  have "syscall_cgetc tf s = (Inl Wild_jump, t)"
    by (simp add: syscall_cgetc_def as_int_def msyscall_def el0_sync_def SYS_defs Let_def sys_call_table_def t_def kbind_def)
  then show ?thesis
    unfolding t_def int_call_def
    by (simp add: syscall_putchar_def syscall_getenvid_def syscall_yield_def syscall_env_destroy_def
        syscall_set_pgfault_handler_def syscall_mem_alloc_def syscall_mem_map_def syscall_mem_unmap_def syscall_env_alloc_def
        fork_def syscall_set_env_status_def syscall_ipc_can_send_def syscall_ipc_recv_def m SYS_defs sys_call_table_def
        as_int_ret_int as_void_ret_void as_void_ret_int)
qed

text \<open>C8: \<^verbatim>\<open>ipc_send\<close> and \<^verbatim>\<open>ipc_recv\<close> between programs, for a message without a page (\<^verbatim>\<open>srcva\<close> is 0, as in
  every use of the repository). When the receiver is waiting, one round of the loop of
  \<^verbatim>\<open>ipc_send\<close> ends it, and what \<^verbatim>\<open>ipc_recv\<close> reads when the receiver runs again is the
  sender's identifier, the permission and the value. When the receiver is not waiting, the round
  gives up the processor with the receiver as it was, and no message is lost.
\<close>

theorem ipc_send_delivers:
  assumes c: "ENVX (env_id (envs s c)) = c" "env_id (envs s c) \<noteq> 0" "env_status (envs s c) \<noteq> ENV_FREE" and d: "curenv s = Some d"
    and l: "lst (sched_q s) (cur_sched s) ys" "c \<notin> set ys" and r: "runnable (envs s) q" "0 \<le> q" "q < 1024"
  shows "if waiting s c
    then \<exists>s'. ipc_send_round tf (env_id (envs s c)) v 0 perm s = (Inr True, s') \<and> env_status (envs s' c) = ENV_RUNNABLE \<and>
      (\<forall>t. curenv t = Some c \<longrightarrow> envs t c = envs s' c \<longrightarrow> ipc_received t = (Inr (env_id (envs s d), perm, v), t))
    else \<exists>s'. ipc_send_round tf (env_id (envs s c)) v 0 perm s = (Inl Enter_user, s') \<and>
      env_status (envs s' c) = env_status (envs s c) \<and> env_ipc_recving (envs s' c) = env_ipc_recving (envs s c)"
proof (cases "waiting s c")
  let ?t = "s\<lparr>kernel_tf := tf\<rparr>"
  case True
  then have "waiting ?t c" by (simp add: waiting_def)
  from sys_ipc_can_send_value [OF this _ _ _ _ l(2), of d v perm] c d l obtain s' where
    1: "sys_ipc_can_send (env_id (envs s c)) v 0 perm ?t = (Inr 0, s')"
    "envs s' = (envs s)(c := (envs s c)\<lparr>env_ipc_value := v, env_ipc_from := env_id (envs s d),
      env_ipc_perm := perm, env_ipc_recving := 0, env_status := ENV_RUNNABLE\<rparr>)" by auto
  then show ?thesis
    using can_send_stub [OF 1(1)] True by (simp add: ipc_send_round_def ipc_received_def E_IPC_NOT_RECV_def)
next
  let ?t = "s\<lparr>kernel_tf := tf\<rparr>" and ?u = "s\<lparr>kernel_tf := tf, timestack_tf := tf\<rparr>"
  case False
  have "envid2env (env_id (envs s c)) False ?t = (Inr (0, Some c), ?t)"
    using c by (intro envid2env_found) simp_all
  then have "sys_ipc_can_send (env_id (envs s c)) v 0 perm ?t = (Inr (- 6), ?t)"
    using False by (auto simp: sys_ipc_can_send_def waiting_def E_IPC_NOT_RECV_def)
  from can_send_stub [OF this] have 1: "ipc_send_round tf (env_id (envs s c)) v 0 perm s = kbind (syscall_yield tf) (\<lambda>_. kret False) ?t"
    by (simp add: ipc_send_round_def E_IPC_NOT_RECV_def)
  have 2: "syscall_yield tf ?t = sched_yield ?u" by (simp add: yield_stub sys_yield_def)
  from sched_yield_runs [of ?u q] r obtain p' where
    "sched_yield ?u = (Inl Enter_user, snd (env_run (word_of_int p') (?u\<lparr>sched_pos := p'\<rparr>)))" by auto
  then show ?thesis using False 1 2 by (simp add: env_run_keeps)
qed

text \<open>Environment 5 waits for a message, and 3 runs.\<close>

definition ping_state :: kstate where
  "ping_state = ipc_state\<lparr>envs := (envs ipc_state)(5 := (envs ipc_state 5)\<lparr>env_status := 2, env_ipc_recving := 1\<rparr>)\<rparr>"

lemma ipc_send_delivers_witness:
  "\<exists>s'. ipc_send_round reset_tf 0x805 42 0 7 ping_state = (Inr True, s') \<and> env_status (envs s' 5) = ENV_RUNNABLE"
proof -
  have s: "curenv ping_state = Some 3" "env_id (envs ping_state 5) = 0x805" "waiting ping_state 5" "runnable (envs ping_state) 3"
    "lst (sched_q ping_state) (cur_sched ping_state) [3]"
    using ipc_state by (simp_all add: ping_state_def waiting_def runnable_def ENV_NOT_RUNNABLE_def ENV_RUNNABLE_def)
      (simp add: ipc_state_def two_envs_def)
  have "env_status (envs ping_state 5) \<noteq> ENV_FREE" by (simp add: ping_state_def ENV_FREE_def)
  from ipc_send_delivers [OF _ _ this s(1) s(5) _ s(4), of reset_tf 42 7] s(2,3) show ?thesis
    by (auto simp: ENVX_def NENV_def)
qed

end
