(* ===== verification/Syscall_Results.thy ===== *)
theory Syscall_Results
  imports User_Calls
begin

text \<open>
  Syscall_Results: which values the system calls return. Each result of an \<^verbatim>\<open>int\<close> function is 0, a documented error or the
  identifier of an environment, and passes unchanged through the registers to the program.
\<close>

subsection \<open>Results\<close>

text \<open>When a function returns, its value and state satisfy \<open>Q\<close>; a set of values.\<close>

definition returns :: "('a \<Rightarrow> kstate \<Rightarrow> bool) \<Rightarrow> 'a kresult \<Rightarrow> bool" where
  "returns Q r \<longleftrightarrow> (\<forall>x. fst r = Inr x \<longrightarrow> Q x (snd r))"

abbreviation results_in :: "'a set \<Rightarrow> 'a kresult \<Rightarrow> bool" where
  "results_in A \<equiv> returns (\<lambda>x _. x \<in> A)"

lemma returns_simps [simp]: "returns Q (Inr x, s) \<longleftrightarrow> Q x s" "returns Q (Inl e, s)" "returns Q (kpanic f a s)"
  by (simp_all add: returns_def kpanic_def)

lemma returns_kbind:
  assumes "returns P (m s)" and "\<And>x t. P x t \<Longrightarrow> returns Q (f x t)"
  shows "returns Q (kbind m f s)"
  using assms by (auto simp: returns_def kbind_def split: prod.split sum.split)

lemma returns_bind: "(\<And>x t. returns Q (f x t)) \<Longrightarrow> returns Q (kbind m f s)"
  by (rule returns_kbind [where P = "\<lambda>_ _. True"]) (simp_all add: returns_def)

lemma returns_int: "results_in A r \<Longrightarrow> (\<And>x. x \<in> A \<Longrightarrow> x \<in> B) \<Longrightarrow> results_in B r"
  by (simp add: returns_def)

lemma errors_positive [simp]: "0 < E_BAD_ENV" "0 < E_NO_MEM" "0 < E_NO_FREE_ENV" "0 < E_INVAL" "0 < E_IPC_NOT_RECV"
  by (simp_all add: E_BAD_ENV_def E_NO_MEM_def E_NO_FREE_ENV_def E_INVAL_def E_IPC_NOT_RECV_def)

subsection \<open>The parts\<close>

text \<open>After each of these functions its caller finds success with an object or an error without one.\<close>

lemma envid2env_results:
  assumes "\<And>e t. returns Q (f 0 e t)" and "\<And>t. returns Q (f (- E_BAD_ENV) None t)"
  shows "returns Q (kbind (envid2env i b) (\<lambda>(r, e). f r e) s)"
  by (rule returns_kbind [where P = "\<lambda>(r, e) _. r = 0 \<or> r = - E_BAD_ENV \<and> e = None"])
    (auto simp: assms envid2env_def Let_def split: option.split)

lemma page_alloc_results:
  assumes "\<And>p t. returns Q (f 0 (Some p) t)" and "\<And>t. returns Q (f (- E_NO_MEM) None t)"
  shows "returns Q (kbind page_alloc (\<lambda>(r, pp). f r pp) s)"
  by (rule returns_kbind [where P = "\<lambda>(r, pp) _. r = 0 \<and> pp \<noteq> None \<or> r = - E_NO_MEM \<and> pp = None"])
    (auto simp: assms page_alloc_def intro!: returns_bind split: option.split)

lemma env_alloc_results:
  assumes "\<And>e t. returns Q (f 0 (Some e) t)" and "\<And>t. returns Q (f (- E_NO_FREE_ENV) None t)"
  shows "returns Q (kbind (env_alloc par) (\<lambda>(r, e). f r e) s)"
  by (rule returns_kbind [where P = "\<lambda>(r, e) _. r = 0 \<and> e \<noteq> None \<or> r = - E_NO_FREE_ENV \<and> e = None"])
    (auto simp: assms env_alloc_def Let_def intro!: returns_bind split: option.split)

text \<open>The results of these are not passed on.\<close>

lemma ignored_results:
  "(\<And>x t. returns Q (f x t)) \<Longrightarrow> returns Q (kbind (copy_user_page va p) f s)"
  "(\<And>x t. returns Q (g x t)) \<Longrightarrow> returns Q (kbind (page_insert pud p va perm) g s)"
  "(\<And>x t. returns Q (h x t)) \<Longrightarrow> returns Q (kbind (page_lookup pud va) h s)"
  "(\<And>x t. returns Q (f x t)) \<Longrightarrow> returns Q (kbind (page_remove pud va) f s)"
  "(\<And>x t. returns Q (f x t)) \<Longrightarrow> returns Q (kbind (env_destroy e) f s)"
  by (rule returns_bind, assumption)+

lemma ipc_deliver_results: "(\<And>t. Q 0 t) \<Longrightarrow> returns Q (ipc_deliver e v p s)"
  by (auto simp: ipc_deliver_def Let_def split: option.split)

lemmas call_results = envid2env_results page_alloc_results ipc_deliver_results ignored_results

lemma copy_stack_results: "results_in {0, - E_NO_MEM} (copy_stack e sp s)"
proof (induction e sp s rule: copy_stack.induct)
  case (1 e sp s)
  have "results_in {0, - E_NO_MEM} (copy_stack e (sp + BY2PG) t)" if "sp < USTACKTOP" for t
  proof -
    have "\<not> (0 :: int) < 0" by simp
    from 1 [OF that this refl] show ?thesis .
  qed
  then show ?case
    by (subst copy_stack.simps) (auto intro!: call_results)
qed

subsection \<open>The system calls\<close>

lemma sys_env_destroy_results: "results_in {0, - E_BAD_ENV} (sys_env_destroy i s)"
  by (auto simp: sys_env_destroy_def intro!: call_results split: option.split)

lemma sys_set_pgfault_handler_results: "results_in {0, - E_INVAL} (sys_set_pgfault_handler i f x s)"
  by (auto simp: sys_set_pgfault_handler_def Let_def intro!: call_results split: option.split)

lemma sys_set_env_status_results: "results_in {0, - E_INVAL, - E_BAD_ENV} (sys_set_env_status i st s)"
  by (auto simp: sys_set_env_status_def Let_def intro!: call_results split: option.split)

lemma sys_mem_alloc_results: "results_in {0, - E_INVAL, - E_NO_MEM, - E_BAD_ENV} (sys_mem_alloc i va p s)"
  by (auto simp: sys_mem_alloc_def intro!: call_results split: option.split)

lemma sys_mem_map_results: "results_in {0, - E_BAD_ENV, - E_NO_MEM} (sys_mem_map i va j vb p s)"
  by (auto simp: sys_mem_map_def Let_def intro!: call_results split: option.split)

lemma sys_mem_unmap_results: "results_in {0, - E_BAD_ENV} (sys_mem_unmap i va s)"
  by (auto simp: sys_mem_unmap_def intro!: call_results split: option.split)

lemma sys_ipc_can_send_results: "results_in {0, - E_BAD_ENV, - E_IPC_NOT_RECV, - E_NO_MEM} (sys_ipc_can_send i v va p s)"
  by (auto simp: sys_ipc_can_send_def intro!: call_results split: option.split)

text \<open>The identifier of a runnable environment, as an \<^verbatim>\<open>int\<close>.\<close>

definition int_id :: "kstate \<Rightarrow> int \<Rightarrow> bool" where
  "int_id s r \<longleftrightarrow> (\<exists>e. env_status (envs s e) = ENV_RUNNABLE \<and> r = sint (ucast (env_id (envs s e)) :: u32))"

lemma sys_env_alloc_results:
  "returns (\<lambda>r s'. r \<in> {- E_NO_FREE_ENV, - E_NO_MEM} \<or> int_id s' r) (sys_env_alloc s)"
proof (cases "curenv s")
  case (Some c)
  have id: "int_id (env_upd e (env_status_update (\<lambda>_. ENV_RUNNABLE)) t) (sint (ucast (env_id (envs t e)) :: u32))" for e t
    unfolding int_id_def by (rule exI [of _ e]) (simp add: env_upd_def)
  show ?thesis unfolding sys_env_alloc_def Some
    by (auto simp: Let_def id [simplified env_upd_def] env_upd_def intro!: env_alloc_results returns_kbind [OF copy_stack_results])
qed (simp add: sys_env_alloc_def)

subsection \<open>Properties\<close>

text \<open>What the program gets for the result of a function: the low 32 bits of the register, as an \<^verbatim>\<open>int\<close>.\<close>

definition int_call :: "int kfun \<Rightarrow> int kfun" where
  "int_call f = kbind f (\<lambda>r. kret (c_int (word_of_int r)))"

lemma int_call_same:
  assumes "returns (\<lambda>r _. - 0x80000000 \<le> r \<and> r < 0x80000000) (f s)"
  shows "int_call f s = f s"
  using assms by (auto simp: int_call_def returns_def kbind_def c_int_of_int split: prod.split sum.split)

lemma returns_weaken: "returns P r \<Longrightarrow> (\<And>x t. P x t \<Longrightarrow> Q x t) \<Longrightarrow> returns Q r"
  by (simp add: returns_def)

lemma int_id_range: "int_id s r \<Longrightarrow> - 0x80000000 \<le> r \<and> r < 0x80000000"
  using sint_ge [of "ucast v :: u32" for v :: u64] sint_lt [of "ucast v :: u32" for v :: u64] by (auto simp: int_id_def)

text \<open>C15: the results of the system calls have the documented types. Each \<^verbatim>\<open>int\<close> function that returns gives 0 or one of
  its own errors, \<^verbatim>\<open>sys_env_alloc\<close> an error or the low 32 bits of the identifier of an environment that is runnable now, and no
  result is changed on the way through the registers to the program.\<close>

theorem syscall_types:
  "results_in {0, - E_BAD_ENV} (sys_env_destroy i s) \<and> int_call (sys_env_destroy i) s = sys_env_destroy i s \<and>
   results_in {0, - E_INVAL} (sys_set_pgfault_handler i f x s) \<and>
     int_call (sys_set_pgfault_handler i f x) s = sys_set_pgfault_handler i f x s \<and>
   results_in {0, - E_INVAL, - E_NO_MEM, - E_BAD_ENV} (sys_mem_alloc i va p s) \<and>
     int_call (sys_mem_alloc i va p) s = sys_mem_alloc i va p s \<and>
   results_in {0, - E_BAD_ENV, - E_NO_MEM} (sys_mem_map i va j vb p s) \<and>
     int_call (sys_mem_map i va j vb p) s = sys_mem_map i va j vb p s \<and>
   results_in {0, - E_BAD_ENV} (sys_mem_unmap i va s) \<and> int_call (sys_mem_unmap i va) s = sys_mem_unmap i va s \<and>
   results_in {0, - E_INVAL, - E_BAD_ENV} (sys_set_env_status i st s) \<and>
     int_call (sys_set_env_status i st) s = sys_set_env_status i st s \<and>
   results_in {0, - E_BAD_ENV, - E_IPC_NOT_RECV, - E_NO_MEM} (sys_ipc_can_send i v va p s) \<and>
     int_call (sys_ipc_can_send i v va p) s = sys_ipc_can_send i v va p s \<and>
   returns (\<lambda>r s'. r \<in> {- E_NO_FREE_ENV, - E_NO_MEM} \<or> int_id s' r) (sys_env_alloc s) \<and>
     int_call sys_env_alloc s = sys_env_alloc s"
proof -
  note E = E_BAD_ENV_def E_NO_MEM_def E_NO_FREE_ENV_def E_INVAL_def E_IPC_NOT_RECV_def
  have n: "int_call f s = f s" if "results_in {0, - E_INVAL, - E_NO_MEM, - E_BAD_ENV, - E_IPC_NOT_RECV} (f s)" for f
    by (rule int_call_same, rule returns_weaken [OF that]) (auto simp: E)
  note w = returns_weaken [where Q = "\<lambda>x _. x \<in> {0, - E_INVAL, - E_NO_MEM, - E_BAD_ENV, - E_IPC_NOT_RECV}"]
  have a: "int_call sys_env_alloc s = sys_env_alloc s"
    by (rule int_call_same, rule returns_weaken [OF sys_env_alloc_results]) (auto simp: E dest: int_id_range)
  show ?thesis
    by (intro conjI a n sys_env_destroy_results sys_set_pgfault_handler_results sys_mem_alloc_results sys_mem_map_results
        sys_mem_unmap_results sys_set_env_status_results sys_ipc_can_send_results sys_env_alloc_results;
        rule w, rule sys_env_destroy_results sys_set_pgfault_handler_results sys_mem_alloc_results sys_mem_map_results
        sys_mem_unmap_results sys_set_env_status_results sys_ipc_can_send_results, blast)
qed

end
