(* ===== verification/Exception_Entry.thy ===== *)
theory Exception_Entry
  imports Exceptions
begin

text \<open>
  Exception_Entry: the registers on the way into the kernel and out of it. The macros \<^verbatim>\<open>saveall\<close> and \<^verbatim>\<open>restore\<close>, the exit of
  \<^verbatim>\<open>el0_sync\<close> (\<^verbatim>\<open>lib/entry.S\<close>) and \<^verbatim>\<open>env_pop_tf\<close> (\<^verbatim>\<open>lib/irq.S\<close>) are lists of instructions with an executable semantics; an
  exception of the machine runs them around the kernel function that \<open>Exceptions\<close> dispatches to. What a program
  finds in its registers when it goes on, after a call and after others have run.
\<close>

subsection \<open>The processor\<close>

datatype sreg = SP_EL0 | ELR_EL1 | SPSR_EL1 | TTBR0_EL1
  | VBAR_EL1 | CurrentEL | MAIR_EL1 | TCR_EL1 | SCTLR_EL1 | CNTKCTL_EL1 | CNTP_TVAL_EL0 | CNTP_CTL_EL0

text \<open>The 64-bit words behind the base register of the loads and stores, which is the stack pointer or \<^verbatim>\<open>x16\<close>, are \<open>frame\<close>.\<close>

record cpu =
  xreg :: "nat \<Rightarrow> u64"
  sysreg :: "sreg \<Rightarrow> u64"
  frame :: "nat \<Rightarrow> u64"
  pc :: u64
  pstate :: u64

text \<open>Offsets count words: \<^verbatim>\<open>[sp, #16 * k]\<close> is \<open>2 * k\<close>, \<^verbatim>\<open>[sp, #8 * k]\<close> is \<open>k\<close>.\<close>

datatype instr =
    Stp nat nat nat | Str nat nat
  | Ldp nat nat nat | Ldr nat nat
  | Mrs nat sreg | Msr sreg nat
  | Ldr_const nat u64
  | Mov nat nat
  | Orr_const nat u64
  | Lsr nat nat

fun exec1 :: "instr \<Rightarrow> cpu \<Rightarrow> cpu" where
  "exec1 (Stp a b k) c = c\<lparr>frame := (frame c)(k := xreg c a, k + 1 := xreg c b)\<rparr>"
| "exec1 (Str a k) c = c\<lparr>frame := (frame c)(k := xreg c a)\<rparr>"
| "exec1 (Ldp a b k) c = c\<lparr>xreg := (xreg c)(a := frame c k, b := frame c (k + 1))\<rparr>"
| "exec1 (Ldr a k) c = c\<lparr>xreg := (xreg c)(a := frame c k)\<rparr>"
| "exec1 (Mrs a r) c = c\<lparr>xreg := (xreg c)(a := sysreg c r)\<rparr>"
| "exec1 (Msr r a) c = c\<lparr>sysreg := (sysreg c)(r := xreg c a)\<rparr>"
| "exec1 (Ldr_const a v) c = c\<lparr>xreg := (xreg c)(a := v)\<rparr>"
| "exec1 (Mov a b) c = c\<lparr>xreg := (xreg c)(a := xreg c b)\<rparr>"
| "exec1 (Orr_const a v) c = c\<lparr>xreg := (xreg c)(a := xreg c a OR v)\<rparr>"
| "exec1 (Lsr a n) c = c\<lparr>xreg := (xreg c)(a := drop_bit n (xreg c a))\<rparr>"

definition exec :: "instr list \<Rightarrow> cpu \<Rightarrow> cpu" where
  "exec is c = fold exec1 is c"

text \<open>The processor's part: an exception saves the return address and the state, \<^verbatim>\<open>eret\<close> goes back to them.\<close>

definition take_exception :: "cpu \<Rightarrow> cpu" where
  "take_exception c = c\<lparr>sysreg := (sysreg c)(ELR_EL1 := pc c, SPSR_EL1 := pstate c)\<rparr>"

definition eret :: "cpu \<Rightarrow> cpu" where
  "eret c = c\<lparr>pc := sysreg c ELR_EL1, pstate := sysreg c SPSR_EL1\<rparr>"

subsection \<open>The code\<close>

definition saveall :: "instr list" where
  "saveall =
     [Stp 0 1 0, Stp 2 3 2, Stp 4 5 4, Stp 6 7 6, Stp 8 9 8, Stp 10 11 10, Stp 12 13 12, Stp 14 15 14,
      Stp 16 17 16, Stp 18 19 18, Stp 20 21 20, Stp 22 23 22, Stp 24 25 24, Stp 26 27 26, Stp 28 29 28,
      Str 30 30,
      Mrs 16 SP_EL0, Str 16 31,
      Mrs 16 ELR_EL1, Str 16 32, Str 16 34,
      Mrs 16 SPSR_EL1, Str 16 33]"

text \<open>The part that \<^verbatim>\<open>restore\<close> and the exit of \<^verbatim>\<open>el0_sync\<close> have in common, from \<^verbatim>\<open>x2\<close> on.\<close>

definition restore_tail :: "instr list" where
  "restore_tail =
     [Ldp 2 3 2, Ldp 4 5 4, Ldp 6 7 6, Ldp 8 9 8, Ldp 10 11 10, Ldp 12 13 12, Ldp 14 15 14,
      Ldp 16 17 16, Ldp 18 19 18, Ldp 20 21 20, Ldp 22 23 22, Ldp 24 25 24, Ldp 26 27 26, Ldp 28 29 28,
      Ldr 30 30,
      Ldr 16 31, Msr SP_EL0 16,
      Ldr 16 33, Msr SPSR_EL1 16,
      Ldr 16 34, Msr ELR_EL1 16]"

definition restore :: "instr list" where
  "restore = Ldp 0 1 0 # restore_tail"

definition el0_sync_exit :: "instr list" where
  "el0_sync_exit = Ldr 1 1 # restore_tail"

definition env_pop_tf :: "instr list" where
  "env_pop_tf =
     [Mov 16 0, Msr TTBR0_EL1 1,
      Ldp 0 1 0, Ldp 2 3 2, Ldp 4 5 4, Ldp 6 7 6, Ldp 8 9 8, Ldp 10 11 10, Ldp 12 13 12, Ldp 14 15 14,
      Ldp 18 19 18, Ldp 20 21 20, Ldp 22 23 22, Ldp 24 25 24, Ldp 26 27 26, Ldp 28 29 28,
      Ldr 30 30,
      Ldr 17 31, Msr SP_EL0 17,
      Ldr 17 33, Msr SPSR_EL1 17,
      Ldr 17 34, Msr ELR_EL1 17]"

text \<open>\<^verbatim>\<open>struct Trapframe\<close> (\<^verbatim>\<open>include/trapframe.h\<close>) on its words.\<close>

definition trapframe_of :: "(nat \<Rightarrow> u64) \<Rightarrow> trapframe" where
  "trapframe_of w = \<lparr>tf_x = \<lambda>i. if i < 31 then w i else 0, tf_sp = w 31, tf_elr_el1 = w 32, tf_pstate = w 33, tf_pc = w 34\<rparr>"

definition words_of :: "trapframe \<Rightarrow> nat \<Rightarrow> u64" where
  "words_of tf k = (if k < 31 then tf_x tf k else if k = 31 then tf_sp tf else if k = 32 then tf_elr_el1 tf
     else if k = 33 then tf_pstate tf else tf_pc tf)"

lemma trapframe_words: "trapframe_of (words_of tf) = tf\<lparr>tf_x := \<lambda>i. if i < 31 then tf_x tf i else 0\<rparr>"
  by (simp add: trapframe_of_def words_of_def fun_eq_iff)

text \<open>
  An exception from a program. \<^verbatim>\<open>el0_irq\<close> and \<^verbatim>\<open>el0_sync\<close> load the top of their stack through \<^verbatim>\<open>x16\<close> and save the registers; the kernel
  function leaves any values, \<open>junk\<close>, in those it does not return in. It comes back to the program, or \<open>env_run\<close> enters the
  environment it chose; otherwise the machine does not go on.
\<close>

definition entry_stack :: "handler \<Rightarrow> u64" where
  "entry_stack h = (if h = El0_sync then 0x51fff000 else 0x52000000)"

definition saved :: "handler \<Rightarrow> cpu \<Rightarrow> cpu" where
  "saved h c = exec (Ldr_const 16 (entry_stack h) # saveall) (take_exception c)"

definition enter_user :: "u64 \<Rightarrow> (nat \<Rightarrow> u64) \<Rightarrow> cpu \<Rightarrow> kstate \<Rightarrow> cpu" where
  "enter_user e junk c s = eret (exec env_pop_tf (c\<lparr>xreg := junk(0 := envs_ptr s + 416 * e, 1 := env_pgdir (envs s e)),
     frame := words_of (env_tf (envs s e))\<rparr>))"

definition machine_exception :: "nat \<Rightarrow> u64 \<Rightarrow> (nat \<Rightarrow> u64) \<Rightarrow> cpu \<Rightarrow> kstate \<Rightarrow> cpu option \<times> kstate" where
  "machine_exception kind esr junk c s =
     (let h = vectors ! kind; c = saved h c in
      case exception kind esr (trapframe_of (frame c)) s of
        (Inr v, s) \<Rightarrow>
          (Some (eret (if h = El0_sync
             then exec el0_sync_exit (c\<lparr>xreg := junk(0 := v), frame := words_of (kernel_tf s)\<rparr>)
             else exec restore (c\<lparr>xreg := junk, frame := words_of (timestack_tf s)\<rparr>))), s)
      | (Inl Enter_user, s) \<Rightarrow> (case curenv s of Some e \<Rightarrow> Some (enter_user e junk c s) | None \<Rightarrow> None, s)
      | (Inl _, s) \<Rightarrow> (None, s))"

subsection \<open>What the code does\<close>

lemma saved_frame:
  defines "f \<equiv> \<lambda>h c. frame (saved h c)"
  shows "k < 31 \<Longrightarrow> f h c k = (if k = 16 then entry_stack h else xreg c k)"
    "f h c 31 = sysreg c SP_EL0" "f h c 32 = pc c" "f h c 33 = pstate c" "f h c 34 = pc c"
proof -
  have "\<forall>k < 31. f h c k = (if k = 16 then entry_stack h else xreg c k)"
    by (simp add: f_def saved_def exec_def saveall_def take_exception_def All_less_Suc2 numeral_eq_Suc)
  then show "k < 31 \<Longrightarrow> f h c k = (if k = 16 then entry_stack h else xreg c k)" by blast
  show "f h c 31 = sysreg c SP_EL0" "f h c 32 = pc c" "f h c 33 = pstate c" "f h c 34 = pc c"
    by (simp_all add: f_def saved_def exec_def saveall_def take_exception_def)
qed

lemma restored:
  defines "c1 \<equiv> \<lambda>c. exec restore_tail c"
  shows "2 \<le> k \<Longrightarrow> k < 31 \<Longrightarrow> k \<noteq> 16 \<Longrightarrow> xreg (c1 c) k = frame c k" "xreg (c1 c) 16 = frame c 34"
    "xreg (c1 c) 0 = xreg c 0" "xreg (c1 c) 1 = xreg c 1"
    "sysreg (c1 c) SP_EL0 = frame c 31" "sysreg (c1 c) SPSR_EL1 = frame c 33" "sysreg (c1 c) ELR_EL1 = frame c 34"
    "sysreg (c1 c) TTBR0_EL1 = sysreg c TTBR0_EL1"
proof -
  have "\<forall>k < 31. 2 \<le> k \<longrightarrow> k \<noteq> 16 \<longrightarrow> xreg (c1 c) k = frame c k"
    by (simp add: c1_def exec_def restore_tail_def All_less_Suc2 numeral_eq_Suc)
  then show "2 \<le> k \<Longrightarrow> k < 31 \<Longrightarrow> k \<noteq> 16 \<Longrightarrow> xreg (c1 c) k = frame c k" by blast
qed (simp_all add: c1_def exec_def restore_tail_def)

lemma popped:
  defines "c1 \<equiv> \<lambda>c. exec env_pop_tf c"
  shows "k < 31 \<Longrightarrow> k \<noteq> 16 \<Longrightarrow> k \<noteq> 17 \<Longrightarrow> xreg (c1 c) k = frame c k"
    "xreg (c1 c) 16 = xreg c 0" "xreg (c1 c) 17 = frame c 34"
    "sysreg (c1 c) SP_EL0 = frame c 31" "sysreg (c1 c) SPSR_EL1 = frame c 33" "sysreg (c1 c) ELR_EL1 = frame c 34"
    "sysreg (c1 c) TTBR0_EL1 = xreg c 1"
proof -
  have "\<forall>k < 31. k \<noteq> 16 \<longrightarrow> k \<noteq> 17 \<longrightarrow> xreg (c1 c) k = frame c k"
    by (simp add: c1_def exec_def env_pop_tf_def All_less_Suc2 numeral_eq_Suc)
  then show "k < 31 \<Longrightarrow> k \<noteq> 16 \<Longrightarrow> k \<noteq> 17 \<Longrightarrow> xreg (c1 c) k = frame c k" by blast
qed (simp_all add: c1_def exec_def env_pop_tf_def)

subsection \<open>Saved registers stay\<close>

text \<open>While an environment does not run, the kernel does not touch its saved registers, nor the frame of the call it is
  serving. \<open>kept\<close> holds inside a function, \<open>keeping\<close> of its result: after a switch, the environment may run.\<close>

definition kept :: "u64 \<Rightarrow> trapframe \<Rightarrow> trapframe \<Rightarrow> kstate \<Rightarrow> bool" where
  "kept a f k s \<longleftrightarrow> curenv s \<noteq> Some a \<and> env_tf (envs s a) = f \<and> kernel_tf s = k"

definition keeping :: "u64 \<Rightarrow> trapframe \<Rightarrow> trapframe \<Rightarrow> ('a \<Rightarrow> bool) \<Rightarrow> 'a kresult \<Rightarrow> bool" where
  "keeping a f k Q r \<longleftrightarrow> env_tf (envs (snd r) a) = f \<and> (\<forall>x. fst r = Inr x \<longrightarrow> kept a f k (snd r) \<and> Q x)"

named_theorems tf_vc \<open>rules that keep the saved registers of an environment\<close>

lemma keeping_simps [simp]:
  "keeping a f k Q (Inr x, s) \<longleftrightarrow> kept a f k s \<and> Q x" "keeping a f k Q (Inl e, s) \<longleftrightarrow> env_tf (envs s a) = f"
  by (auto simp: keeping_def kept_def)

lemma kept_simps [simp]:
  "kept a f k (log ev s) = kept a f k s" "kept a f k (kprintf t ap s) = kept a f k s"
  "kept a f k (tlb_invalidate s) = kept a f k s" "kept a f k (incref p s) = kept a f k s"
  "kept a f k (s\<lparr>mem := m\<rparr>) = kept a f k s" "kept a f k (s\<lparr>page_q := pq\<rparr>) = kept a f k s"
  "kept a f k (s\<lparr>timestack_tf := tf\<rparr>) = kept a f k s" "kept a f k (s\<lparr>remaining_time := n\<rparr>) = kept a f k s"
  "kept a f k (s\<lparr>next_env_id := i\<rparr>) = kept a f k s" "kept a f k (s\<lparr>sched_pos := p'\<rparr>) = kept a f k s"
  "kept a f k (s\<lparr>sched_q := q\<rparr>) = kept a f k s" "kept a f k (s\<lparr>env_q := eq\<rparr>) = kept a f k s"
  by (simp_all add: kept_def kprintf_def tlb_invalidate_def incref_def)

lemma kept_upd: "kept a f k s \<Longrightarrow> e \<noteq> a \<or> env_tf (g (envs s e)) = env_tf (envs s e) \<Longrightarrow> kept a f k (env_upd e g s)"
  by (auto simp: kept_def env_upd_def)

lemma keptD: "kept a f k s \<Longrightarrow> env_tf (envs s a) = f" "kept a f k s \<Longrightarrow> curenv s \<noteq> Some a"
  by (simp_all add: kept_def)

lemma keeping_kbind:
  assumes "keeping a f k P (m s)" and "\<And>x t. P x \<Longrightarrow> kept a f k t \<Longrightarrow> keeping a f k Q (g x t)"
  shows "keeping a f k Q (kbind m g s)"
  using assms by (auto simp: keeping_def kbind_def split: prod.split sum.split)

lemma keeping_kbind_pair:
  assumes "keeping a f k P (m s)" and "\<And>x y t. P (x, y) \<Longrightarrow> kept a f k t \<Longrightarrow> keeping a f k Q (g x y t)"
  shows "keeping a f k Q (kbind m (\<lambda>(x, y). g x y) s)"
  using assms by (auto simp: keeping_def kbind_def split: prod.split sum.split)

lemma keeping_let: "kept a f k u \<Longrightarrow> (\<And>t. kept a f k t \<Longrightarrow> keeping a f k Q (g t)) \<Longrightarrow> keeping a f k Q (let t = u in g t)"
  by simp

lemma keeping_if: "(b \<Longrightarrow> keeping a f k Q x) \<Longrightarrow> (\<not> b \<Longrightarrow> keeping a f k Q y) \<Longrightarrow> keeping a f k Q (if b then x else y)"
  by simp

lemma keeping_option: "(z = None \<Longrightarrow> keeping a f k Q x) \<Longrightarrow> (\<And>v. z = Some v \<Longrightarrow> keeping a f k Q (y v)) \<Longrightarrow>
    keeping a f k Q (case z of None \<Rightarrow> x | Some v \<Rightarrow> y v)"
  by (cases z) simp_all

lemma keeping_let_value: "keeping a f k Q (g v) \<Longrightarrow> keeping a f k Q (let x = (v :: u64) in g x)"
  by simp

lemmas keeping_control [tf_vc] = keeping_let keeping_let_value keeping_if keeping_option

lemma kept_rest: "rest s' = rest s \<Longrightarrow> kept a f k s \<Longrightarrow> kept a f k s'"
  using rest_fields [of s' s] by (simp add: kept_def)

lemma keeping_rest: "rest (snd (g s)) = rest s \<Longrightarrow> kept a f k s \<Longrightarrow> keeping a f k (\<lambda>_. True) (g s)"
  using kept_rest [of "snd (g s)" s a f k] by (simp add: keeping_def keptD)

lemma keeping_pages:
  assumes s: "kept a f k s"
  shows "keeping a f k (\<lambda>_. True) (page_alloc s)" "keeping a f k (\<lambda>_. True) (page_insert pud pp va perm s)"
    "keeping a f k (\<lambda>_. True) (page_lookup pud va s)" "keeping a f k (\<lambda>_. True) (page_remove pud va s)"
  by (rule keeping_rest [OF _ s], simp add: rest_simps)+

lemmas keeping_memory [tf_vc] = keeping_kbind_pair [OF keeping_pages(1)] keeping_kbind [OF keeping_pages(2)]
  keeping_kbind [OF keeping_pages(3)] keeping_kbind [OF keeping_pages(4)]

lemma keeping_envid2env: "kept a f k s \<Longrightarrow> keeping a f k (\<lambda>_. True) (envid2env i b s)"
  by (auto simp: envid2env_def Let_def keptD split: option.split)

lemmas keeping_envid2env_bind [tf_vc] = keeping_kbind_pair [OF keeping_envid2env]

lemma keeping_kpanic [tf_vc]: "kept a f k s \<Longrightarrow> keeping a f k Q (kpanic t ap s)"
  by (simp add: kpanic_def kept_def)

lemma keeping_env_run [tf_vc]: "kept a f k s \<Longrightarrow> keeping a f k Q (env_run e s)"
  by (subst env_run_eq(1)) (auto simp: env_run_eq(4) Let_def kept_def)

lemma keeping_sched_yield [tf_vc]: "kept a f k s \<Longrightarrow> keeping a f k Q (sched_yield s)"
  by (auto simp: sched_yield_def kept_def intro!: keeping_env_run split: option.split)

lemma keeping_free: "kept a f k s \<Longrightarrow> keeping a f k (\<lambda>_. True) (free_puds e s)"
  by (rule keeping_rest) (rule rest_free_puds)

lemma keeping_env_destroy: "kept a f k s \<Longrightarrow> keeping a f k (\<lambda>_. True) (env_destroy e s)"
proof -
  have "keeping a f k (\<lambda>_. True) (env_free e s)" if "kept a f k s" for s
    unfolding env_free_def using that
    by (intro tf_vc keeping_kbind [OF keeping_free]) (auto intro!: tf_vc kept_upd simp: keptD)
  then show "kept a f k s \<Longrightarrow> ?thesis"
    unfolding env_destroy_def by (intro tf_vc keeping_kbind [where P = "\<lambda>_. True"]) (auto intro!: tf_vc simp: kept_def kprintf_eq)
qed

subsection \<open>System calls keep them\<close>

lemma keeping_simple:
  "kept a f k s \<Longrightarrow> keeping a f k (\<lambda>_. True) (sys_putchar ch s)"
  "kept a f k s \<Longrightarrow> keeping a f k (\<lambda>_. True) (sys_getenvid s)"
  "kept a f k s \<Longrightarrow> keeping a f k (\<lambda>_. True) (sys_yield s)"
  "kept a f k s \<Longrightarrow> keeping a f k (\<lambda>_. True) (sys_set_trapframe s)"
  "kept a f k s \<Longrightarrow> keeping a f k (\<lambda>_. True) (sys_panic s)"
  by (auto simp: sys_putchar_def sys_getenvid_def sys_yield_def sys_set_trapframe_def sys_panic_def keptD
      intro!: tf_vc split: option.split)

lemma keeping_environments:
  "kept a f k s \<Longrightarrow> keeping a f k (\<lambda>_. True) (sys_env_destroy i s)"
  "kept a f k s \<Longrightarrow> keeping a f k (\<lambda>_. True) (sys_set_pgfault_handler i g x s)"
  "kept a f k s \<Longrightarrow> keeping a f k (\<lambda>_. True) (sys_set_env_status i st s)"
  unfolding sys_env_destroy_def sys_set_pgfault_handler_def sys_set_env_status_def
  by (intro tf_vc; auto simp: keptD intro!: tf_vc kept_upd keeping_kbind [OF keeping_env_destroy] split: option.split)+

lemma keeping_memory_calls:
  "kept a f k s \<Longrightarrow> keeping a f k (\<lambda>_. True) (sys_mem_alloc i va perm s)"
  "kept a f k s \<Longrightarrow> keeping a f k (\<lambda>_. True) (sys_mem_map i va j vb perm s)"
  "kept a f k s \<Longrightarrow> keeping a f k (\<lambda>_. True) (sys_mem_unmap i va s)"
  unfolding sys_mem_alloc_def sys_mem_map_def sys_mem_unmap_def Let_def
  by (intro tf_vc; auto simp: keptD intro!: tf_vc split: option.split)+

lemma keeping_messages:
  "kept a f k s \<Longrightarrow> keeping a f k (\<lambda>_. True) (sys_ipc_recv va s)"
  "kept a f k s \<Longrightarrow> keeping a f k (\<lambda>_. True) (sys_ipc_can_send i v va perm s)"
proof -
  have d: "keeping a f k (\<lambda>_. True) (ipc_deliver e v perm s)" if "kept a f k s" for e s
    unfolding ipc_deliver_def using that by (intro tf_vc) (auto intro!: kept_upd simp: keptD)
  show "kept a f k s \<Longrightarrow> keeping a f k (\<lambda>_. True) (sys_ipc_can_send i v va perm s)"
    unfolding sys_ipc_can_send_def by (intro tf_vc) (auto intro!: tf_vc d simp: keptD split: option.split)
  show "kept a f k s \<Longrightarrow> keeping a f k (\<lambda>_. True) (sys_ipc_recv va s)"
    unfolding sys_ipc_recv_def by (intro tf_vc) (auto intro!: kept_upd simp: keptD)
qed

text \<open>A new environment is the first of the free list.\<close>

lemma keeping_env_alloc:
  assumes s: "kept a f k s" and e: "LIST_FIRST (env_q s) () \<noteq> Some a"
  shows "keeping a f k (\<lambda>x. snd x \<noteq> Some a) (env_alloc par s)"
proof (cases "LIST_FIRST (env_q s) ()")
  case None
  then show ?thesis using s by (simp add: env_alloc_def)
next
  case (Some x)
  then have x: "x \<noteq> a" using e by simp
  have 1: "keeping a f k (\<lambda>_. True) (env_setup_vm x t)" if "kept a f k t" for t
    unfolding env_setup_vm_def using that by (intro tf_vc) (auto simp: copy_pgdir_def keptD intro!: kept_upd)
  have 2: "keeping a f k (\<lambda>_. True) (mkenvid x t)" if "kept a f k t" for t
    unfolding mkenvid_def Let_def using that by simp
  show ?thesis unfolding env_alloc_def Some option.case
    by (intro tf_vc s keeping_kbind [OF 1] keeping_kbind [OF 2]) (auto simp: x keptD intro!: kept_upd)
qed

lemma keeping_sys_env_alloc:
  assumes s: "kept a f k s" and e: "LIST_FIRST (env_q s) () \<noteq> Some a"
  shows "keeping a f k (\<lambda>_. True) (sys_env_alloc s)"
proof -
  have u: "keeping a f k (\<lambda>_. True) (copy_user_page va p t)" if "kept a f k t" for va p t
    unfolding copy_user_page_def using that by (intro tf_vc) (simp_all add: keptD)
  have c: "kept a f k t \<Longrightarrow> keeping a f k (\<lambda>_. True) (copy_stack x sp t)" for x sp t
  proof (induction x sp t rule: copy_stack.induct)
    case (1 x sp t)
    show ?case
      by (subst copy_stack.simps, intro tf_vc 1 keeping_kbind [OF u]) (simp_all add: keptD 1(2))
  qed
  have al: "keeping a f k Q (kbind (env_alloc par) (\<lambda>(r, y). g r y) s)"
    if "\<And>r y t. y \<noteq> Some a \<Longrightarrow> kept a f k t \<Longrightarrow> keeping a f k Q (g r y t)" for par Q and g :: "int \<Rightarrow> u64 option \<Rightarrow> int kfun"
    by (rule keeping_kbind_pair, rule keeping_env_alloc [OF s e]) (simp add: that)
  show ?thesis unfolding sys_env_alloc_def
    by (intro tf_vc s al keeping_kbind [OF c])
      (auto simp: keptD keptD(1) [OF s] intro!: kept_upd s)
qed

lemma keeping_ret:
  "keeping a f k (\<lambda>_. True) (g s) \<Longrightarrow> keeping a f k (\<lambda>_. True) (ret_int g s)"
  "keeping a f k (\<lambda>_. True) (h s) \<Longrightarrow> keeping a f k (\<lambda>_. True) (ret_void h s)"
  unfolding ret_int_def ret_void_def by (erule keeping_kbind, simp)+

lemma keeping_el0_sync:
  assumes s: "kept a f k s" and e: "LIST_FIRST (env_q s) () \<noteq> Some a"
  shows "keeping a f k (\<lambda>_. True) (el0_sync x0 b c d g h s)"
proof -
  have "keeping a f k (\<lambda>_. True) (call b c d g h s)" if "call \<in> set sys_call_table" for call
    using that s keeping_simple keeping_environments keeping_memory_calls keeping_messages keeping_sys_env_alloc [OF s e]
    by (auto simp: sys_call_table_def intro!: keeping_ret)
  then show ?thesis
    unfolding el0_sync_def invalid_syscall_def using s by (auto simp: Let_def keptD intro!: keeping_kpanic)
qed

lemma keeping_handle_irq: "kept a f k s \<Longrightarrow> keeping a f k (\<lambda>_. False) (handle_irq s)"
  using keeping_sched_yield [of a f k "log Ev_timer s" "\<lambda>_. False"] by (simp add: handle_irq_def)

lemma exception_keeps_tf:
  assumes "curenv s \<noteq> Some a" and "LIST_FIRST (env_q s) () \<noteq> Some a" and r: "exception kind esr tf s = (r, s')" and k: "kind < 16"
  shows "env_tf (envs s' a) = env_tf (envs s a)" "r = Inr v \<Longrightarrow> curenv s' \<noteq> Some a \<and> kernel_tf s' = tf \<and> kind = 8"
proof -
  have "keeping a (env_tf (envs s a)) (if kind = 8 then tf else kernel_tf s) (\<lambda>_. kind = 8) (exception kind esr tf s)"
  proof (cases "kind = 8")
    case True
    then show ?thesis using keeping_el0_sync [of a "env_tf (envs s a)" tf "s\<lparr>kernel_tf := tf\<rparr>"] assms(1,2)
      by (simp add: exception_def vectors_kinds kept_def)
  next
    case False
    have "kept a (env_tf (envs s a)) (kernel_tf s) s" using assms(1) by (simp add: kept_def)
    then have "keeping a (env_tf (envs s a)) (kernel_tf s) (\<lambda>_. False)
        (kbind handle_irq (\<lambda>_. kret (tf_x tf 0)) (s\<lparr>timestack_tf := tf\<rparr>))"
      by (intro keeping_kbind [OF keeping_handle_irq]) simp_all
    then show ?thesis using False k
      by (auto simp: exception_def vectors_kinds unimplement_handler_def kpanic_def kprintf_eq)
  qed
  then show "env_tf (envs s' a) = env_tf (envs s a)" "r = Inr v \<Longrightarrow> curenv s' \<noteq> Some a \<and> kernel_tf s' = tf \<and> kind = 8"
    unfolding r by (auto simp: keeping_def kept_def split: if_splits)
qed

subsection \<open>Away from the processor\<close>

text \<open>While the environment \<open>a\<close> does not run, others do: they compute, and exceptions are taken from them. It is not created anew.\<close>

inductive away :: "u64 \<Rightarrow> cpu \<times> kstate \<Rightarrow> cpu \<times> kstate \<Rightarrow> bool" for a :: u64 and m :: "cpu \<times> kstate" where
  here: "away a m m"
| program: "away a m (c, s) \<Longrightarrow> curenv s \<noteq> Some a \<Longrightarrow> away a m (c', s\<lparr>mem := mm\<rparr>)"
| exn: "away a m (c, s) \<Longrightarrow> curenv s \<noteq> Some a \<Longrightarrow> LIST_FIRST (env_q s) () \<noteq> Some a \<Longrightarrow> kind < 16 \<Longrightarrow>
    machine_exception kind esr junk c s = (Some c', s') \<Longrightarrow> away a m (c', s')"

text \<open>When it runs again, \<open>env_run\<close> has just entered it.\<close>

definition resumed :: "u64 \<Rightarrow> trapframe \<Rightarrow> cpu \<times> kstate \<Rightarrow> bool" where
  "resumed a f m = (case m of (c, s) \<Rightarrow> env_tf (envs s a) = f \<and>
     (curenv s = Some a \<longrightarrow> (\<exists>junk c0. c = enter_user a junk c0 s)))"

lemma machine_exception_cases:
  assumes "machine_exception kind esr junk c s = (Some c', s')"
  obtains (returns) v where "exception kind esr (trapframe_of (frame (saved (vectors ! kind) c))) s = (Inr v, s')"
  | (switch) e where "exception kind esr (trapframe_of (frame (saved (vectors ! kind) c))) s = (Inl Enter_user, s')"
      "curenv s' = Some e" "c' = enter_user e junk (saved (vectors ! kind) c) s'"
  using assms
  by (auto simp: machine_exception_def Let_def split: prod.splits sum.splits stop.splits option.splits)

lemma away_resumed:
  assumes "away a m m'" and "resumed a f m"
  shows "resumed a f m'"
  using assms
proof (induction rule: away.induct)
  case (program c s c' mm)
  then show ?case by (simp add: resumed_def)
next
  case (exn c s kind esr junk c' s')
  then have f: "env_tf (envs s a) = f" by (simp add: resumed_def)
  from exn(5) show ?case
  proof (cases rule: machine_exception_cases)
    case (returns v)
    then show ?thesis using exception_keeps_tf [OF exn(2,3) returns exn(4)] f by (simp add: resumed_def)
  next
    case (switch e)
    then show ?thesis using exception_keeps_tf(1) [OF exn(2,3) switch(1) exn(4)] f by (auto simp: resumed_def)
  qed
qed simp

text \<open>The calls that give up the processor, and the timer, save the registers of the environment that runs.\<close>

definition gives_up :: "nat \<Rightarrow> u64 \<Rightarrow> u64 \<Rightarrow> bool" where
  "gives_up kind no va \<longleftrightarrow> kind = 9 \<or> kind = 8 \<and> (no = 9529 \<or> no = 9540 \<and> va < UTOP)"

lemma sched_yield_saves:
  assumes "sched_yield s = (r, s')" and "curenv s = Some a" and "r = Inl Enter_user"
  shows "env_tf (envs s' a) = saved_tf s"
proof -
  from assms obtain p where "env_run (word_of_int p) (s\<lparr>sched_pos := p\<rparr>) = (r, s')"
    by (auto simp: sched_yield_def split: option.splits)
  then have "s' = snd (env_run (word_of_int p) (s\<lparr>sched_pos := p\<rparr>))" by (metis snd_conv)
  then show ?thesis using assms(2) by (simp add: env_run_eq(4) Let_def saved_tf_def)
qed

lemma sched_yield_no_return: "fst (sched_yield s) \<noteq> Inr v"
  by (cases "sched_search (envs s) (sched_pos s)") (simp_all add: sched_yield_def env_run_def Let_def)

lemma ipc_recv_no_return: "va < UTOP \<Longrightarrow> fst (sys_ipc_recv va s) \<noteq> Inr v"
  by (simp add: sys_ipc_recv_def Let_def not_le [symmetric] sched_yield_no_return split: option.split)

lemma kbind_returns: "fst (kbind f g s) = Inr v \<Longrightarrow> \<exists>w. fst (f s) = Inr w"
  by (auto simp: kbind_def split: prod.splits sum.splits)

lemma gives_up_switches:
  assumes "gives_up kind (tf_x tf 0) (tf_x tf 1)"
  shows "fst (exception kind esr tf s) \<noteq> Inr v"
proof
  assume "fst (exception kind esr tf s) = Inr v"
  then show False
    using assms unfolding gives_up_def
    by (auto simp: exception_def vectors_kinds el0_sync_def sys_call_table_def ret_void_def handle_irq_def sys_yield_def
        Let_def sched_yield_no_return ipc_recv_no_return dest!: kbind_returns)
qed

lemma gives_up_saves:
  assumes "gives_up kind (tf_x tf 0) (tf_x tf 1)" and "curenv s = Some a" and "exception kind esr tf s = (Inl Enter_user, s')"
  shows "env_tf (envs s' a) = tf\<lparr>tf_pc := tf_elr_el1 tf\<rparr>"
proof -
  have y: "env_tf (envs s' a) = saved_tf t" if "sched_yield t = (Inl Enter_user, s')" "curenv t = Some a" for t
    using sched_yield_saves [OF that] by simp
  have void: "ret_void g t = (Inl Enter_user, s') \<longleftrightarrow> g t = (Inl Enter_user, s')" for g t
    by (auto simp: ret_void_def kbind_def split: prod.splits sum.splits)
  from assms(1) consider "kind = 9" | "kind = 8" "tf_x tf 0 = 9529" | "kind = 8" "tf_x tf 0 = 9540"
    by (auto simp: gives_up_def)
  then show ?thesis
  proof cases
    case 1
    then have "sched_yield (log Ev_timer (s\<lparr>timestack_tf := tf\<rparr>)) = (Inl Enter_user, s')" using assms(3)
      by (auto simp: exception_def vectors_kinds handle_irq_def kbind_def split: prod.splits sum.splits)
    from y [OF this] assms(2) show ?thesis by (simp add: saved_tf_def)
  next
    case 2
    then have "sys_yield (s\<lparr>kernel_tf := tf\<rparr>) = (Inl Enter_user, s')" using assms(3)
      by (simp add: exception_def vectors_kinds el0_sync_def sys_call_table_def Let_def void)
    then have "sched_yield (s\<lparr>kernel_tf := tf, timestack_tf := tf\<rparr>) = (Inl Enter_user, s')" by (simp add: sys_yield_def)
    from y [OF this] assms(2) show ?thesis by (simp add: saved_tf_def)
  next
    case 3
    then have "sys_ipc_recv (tf_x tf 1) (s\<lparr>kernel_tf := tf\<rparr>) = (Inl Enter_user, s')" using assms(3)
      by (simp add: exception_def vectors_kinds el0_sync_def sys_call_table_def Let_def void)
    then obtain t where "sched_yield t = (Inl Enter_user, s')" "curenv t = Some a" "timestack_tf t = tf"
      using assms(2) by (auto simp: sys_ipc_recv_def Let_def env_upd_def split: if_splits option.splits)
    from y [OF this(1,2)] this(3) show ?thesis by (simp add: saved_tf_def)
  qed
qed

subsection \<open>Properties\<close>

text \<open>C7: a system call that returns. The kernel function gets the number in \<^verbatim>\<open>x0\<close> and its arguments in \<^verbatim>\<open>x1\<close> to \<^verbatim>\<open>x5\<close>; whatever it
  leaves in the registers, the program goes on behind the \<^verbatim>\<open>svc\<close> with the result in \<^verbatim>\<open>x0\<close> and with its stack, its state and all other
  registers but \<^verbatim>\<open>x16\<close> as they were; \<^verbatim>\<open>x16\<close> holds the address where it goes on.\<close>

theorem syscall_returns:
  fixes c :: cpu
  assumes call: "el0_sync (xreg c 0) (xreg c 1) (xreg c 2) (xreg c 3) (xreg c 4) (xreg c 5)
    (s\<lparr>kernel_tf := trapframe_of (frame (saved El0_sync c))\<rparr>) = (Inr v, s')"
  shows "\<exists>c'. machine_exception 8 esr junk c s = (Some c', s') \<and> pc c' = pc c \<and> pstate c' = pstate c \<and>
    sysreg c' SP_EL0 = sysreg c SP_EL0 \<and> xreg c' 0 = v \<and> xreg c' 16 = pc c \<and>
    (\<forall>i < 31. i \<notin> {0, 16} \<longrightarrow> xreg c' i = xreg c i)"
proof -
  let ?tf = "trapframe_of (frame (saved El0_sync c))"
  have args: "tf_x ?tf i = xreg c i" if "i < 16" for i using that saved_frame(1) [of i El0_sync c] by (simp add: trapframe_of_def)
  then have x: "exception 8 esr ?tf s = (Inr v, s')" using call by (simp add: exception_def vectors_kinds args)
  obtain a where a: "curenv s \<noteq> Some a" "LIST_FIRST (env_q s) () \<noteq> Some a"
    by (cases "curenv s = Some 0"; cases "LIST_FIRST (env_q s) () = Some 0"; cases "curenv s = Some 1";
        cases "LIST_FIRST (env_q s) () = Some 1") (auto intro: that [of 0] that [of 1] that [of 2])
  have k: "kernel_tf s' = ?tf" using exception_keeps_tf(2) [OF a x _ refl] by simp
  let ?c = "(saved El0_sync c)\<lparr>xreg := junk(0 := v), frame := words_of ?tf\<rparr>"
  let ?c' = "eret (exec el0_sync_exit ?c)"
  have m: "machine_exception 8 esr junk c s = (Some ?c', s')"
    using x k by (simp add: machine_exception_def vectors_kinds Let_def)
  have w: "words_of ?tf i = frame (saved El0_sync c) i" if "i \<le> 34" for i
    using that by (cases "i < 31") (auto simp: words_of_def trapframe_of_def dest!: le_neq_implies_less)
  have e: "exec el0_sync_exit ?c = exec restore_tail (exec1 (Ldr 1 1) ?c)" by (simp add: exec_def el0_sync_exit_def)
  note rt = restored(1) [of _ "exec1 (Ldr 1 1) ?c"] restored(2-8) [of "exec1 (Ldr 1 1) ?c"]
  note sf = saved_frame(1) [of _ El0_sync c] saved_frame(2-5) [of El0_sync c]
  have "xreg ?c' i = xreg c i" if "i < 31" "i \<notin> {0, 16}" for i
    using that rt(1) [of i] rt sf w [of i] w [of 1] by (cases "i = 1") (auto simp: eret_def e)
  moreover have "pc ?c' = pc c" "pstate ?c' = pstate c" "sysreg ?c' SP_EL0 = sysreg c SP_EL0" "xreg ?c' 0 = v" "xreg ?c' 16 = pc c"
    using rt sf w by (simp_all add: eret_def e)
  ultimately show ?thesis using m by blast
qed

lemma syscall_returns_witness:
  "\<exists>c' s'. machine_exception 8 0x56000000 (\<lambda>_. 77) \<lparr>xreg = (\<lambda>_. 5)(0 := 9528), sysreg = \<lambda>_. 0, frame = \<lambda>_. 0, pc = 0x80104, pstate = 0\<rparr> ipc_state =
    (Some c', s') \<and> pc c' = 0x80104 \<and> xreg c' 0 = 0x803 \<and> xreg c' 19 = 5"
proof -
  let ?c = "\<lparr>xreg = (\<lambda>_. 5)(0 := 9528), sysreg = \<lambda>_. 0, frame = \<lambda>_. 0, pc = 0x80104, pstate = 0\<rparr> :: cpu"
  let ?s = "ipc_state\<lparr>kernel_tf := trapframe_of (frame (saved El0_sync ?c))\<rparr>"
  have "el0_sync (xreg ?c 0) (xreg ?c 1) (xreg ?c 2) (xreg ?c 3) (xreg ?c 4) (xreg ?c 5) ?s = (Inr 0x803, ?s)"
    using ipc_state(1,2) by (simp add: el0_sync_def sys_call_table_def Let_def sys_getenvid_def)
  from syscall_returns [OF this, of "0x56000000" "\<lambda>_. 77"] show ?thesis by auto
qed

text \<open>C3: taking the processor away is invisible to a program. When it is interrupted by the timer, yields or waits for a message, and
  goes on after any number of steps and exceptions of other environments, then at the place it left, with its stack, its state and its registers
  as they were, on its own page tables; only \<^verbatim>\<open>x16\<close> and \<^verbatim>\<open>x17\<close> are lost: they hold addresses of the kernel and of the program.\<close>

theorem preemption_transparent:
  fixes c :: cpu
  assumes a: "curenv s = Some a" and g: "gives_up kind (xreg c 0) (xreg c 1)"
    and m: "machine_exception kind esr junk c s = (Some c1, s1)" and w: "away a (c1, s1) (c2, s2)" "curenv s2 = Some a"
  shows "pc c2 = pc c \<and> pstate c2 = pstate c \<and> sysreg c2 SP_EL0 = sysreg c SP_EL0 \<and>
    sysreg c2 TTBR0_EL1 = env_pgdir (envs s2 a) \<and> (\<forall>i < 31. i \<notin> {16, 17} \<longrightarrow> xreg c2 i = xreg c i) \<and>
    xreg c2 16 = envs_ptr s2 + 416 * a \<and> xreg c2 17 = pc c"
proof -
  let ?h = "vectors ! kind" let ?tf = "trapframe_of (frame (saved ?h c))"
  note sf = saved_frame(1) [of _ ?h c] saved_frame(2-5) [of ?h c]
  have "tf_x ?tf 0 = xreg c 0" "tf_x ?tf 1 = xreg c 1" by (simp_all add: trapframe_of_def sf)
  then have g': "gives_up kind (tf_x ?tf 0) (tf_x ?tf 1)" using g by simp
  have x: "exception kind esr ?tf s = (Inl Enter_user, s1)"
    using m gives_up_switches [OF g', of esr s] by (cases rule: machine_exception_cases) (auto dest: arg_cong [where f = fst])
  have f: "env_tf (envs s1 a) = ?tf\<lparr>tf_pc := tf_elr_el1 ?tf\<rparr>"
    by (rule gives_up_saves [OF g' a x])
  have "resumed a (env_tf (envs s1 a)) (c1, s1)"
    using m x by (auto simp: resumed_def machine_exception_def Let_def split: option.splits)
  from away_resumed [OF w(1) this] w(2) obtain j c0 where
    r: "env_tf (envs s2 a) = ?tf\<lparr>tf_pc := tf_elr_el1 ?tf\<rparr>" "c2 = enter_user a j c0 s2"
    unfolding f by (auto simp: resumed_def)
  let ?c = "c0\<lparr>xreg := j(0 := envs_ptr s2 + 416 * a, 1 := env_pgdir (envs s2 a)), frame := words_of (env_tf (envs s2 a))\<rparr>"
  note p = popped(1) [of _ ?c] popped(2-7) [of ?c]
  have "words_of (env_tf (envs s2 a)) i = frame (saved ?h c) i" if "i < 34" for i
    unfolding r(1) using that by (cases "i < 31") (auto simp: words_of_def trapframe_of_def less_Suc_eq numeral_eq_Suc)
  moreover have "words_of (env_tf (envs s2 a)) 34 = pc c" unfolding r(1) using sf by (simp add: words_of_def trapframe_of_def)
  ultimately show ?thesis using p sf by (auto simp: r(2) enter_user_def eret_def)
qed

lemma timer_switch:
  fixes s :: kstate
  assumes "sched_search (envs s) (sched_pos s) = Some p"
  shows "\<exists>c' s'. machine_exception 9 esr junk c s = (Some c', s') \<and> curenv s' = Some (word_of_int p) \<and>
    sched_pos s' = p \<and> runnable (envs s') = runnable (envs s) \<and> env_q s' = env_q s"
proof -
  let ?t = "log Ev_timer (s\<lparr>timestack_tf := trapframe_of (frame (saved Irq c))\<rparr>)\<lparr>sched_pos := p\<rparr>"
  let ?s' = "snd (env_run (word_of_int p) ?t)"
  have "sched_yield (log Ev_timer (s\<lparr>timestack_tf := trapframe_of (frame (saved Irq c))\<rparr>)) = (Inl Enter_user, ?s')"
    using assms by (simp add: sched_yield_def env_run_eq(1) [symmetric])
  then have "machine_exception 9 esr junk c s = (Some (enter_user (word_of_int p) junk (saved Irq c) ?s'), ?s')"
    by (simp add: machine_exception_def exception_def vectors_kinds handle_irq_def Let_def env_run_eq(2))
  moreover have "runnable (envs ?s') = runnable (envs s)" by (rule ext) (simp add: runnable_env_run)
  ultimately show ?thesis by (auto simp: env_run_eq(2,3) env_run_frame)
qed

text \<open>Environment 3 is interrupted, 5 runs until the next interrupt, and 3 goes on.\<close>

lemma preemption_transparent_witness:
  "\<exists>c1 s1 c2 s2. machine_exception 9 0 (\<lambda>_. 7) \<lparr>xreg = \<lambda>i. word_of_nat i, sysreg = \<lambda>_. 0, frame = \<lambda>_. 0, pc = 0x80104, pstate = 0\<rparr> two_envs = (Some c1, s1) \<and>
    curenv s1 = Some 5 \<and> away 3 (c1, s1) (c2, s2) \<and> curenv s2 = Some 3 \<and> pc c2 = 0x80104 \<and> xreg c2 30 = 30"
proof -
  let ?c = "\<lparr>xreg = \<lambda>i. word_of_nat i, sysreg = \<lambda>_. 0, frame = \<lambda>_. 0, pc = 0x80104, pstate = 0\<rparr> :: cpu"
  have r: "runnable (envs two_envs) p \<longleftrightarrow> p mod 2 ^ 64 \<in> {3, 5}" for p
    by (simp add: two_envs_def runnable_def ENV_RUNNABLE_def reset_env_def word_uint_eq_iff uint_word_of_int)
  have "visit x k mod 2 ^ 64 = visit x k" for x k by (rule mod_pos_pos_trivial) (simp_all add: visit_def order.strict_trans2 [OF pos_mod_bound])
  then have r': "runnable (envs two_envs) (visit x k) \<longleftrightarrow> visit x k = 3 \<or> visit x k = 5" for x k
    by (simp only: r) simp
  have s0: "curenv two_envs = Some 3" "sched_pos two_envs = 3" "LIST_FIRST (env_q two_envs) () = None"
    by (simp_all add: two_envs_def reset_state_def LIST_FIRST_def no_lists_def)
  have "sched_search (envs two_envs) (sched_pos two_envs) = Some (visit 3 1)"
    unfolding s0 by (rule sched_search_found) (simp_all add: r visit_def)
  from timer_switch [OF this, of 0 "\<lambda>_. 7" ?c] obtain c1 s1 where 1: "machine_exception 9 0 (\<lambda>_. 7) ?c two_envs = (Some c1, s1)"
    "curenv s1 = Some 5" "sched_pos s1 = 5" "runnable (envs s1) = runnable (envs two_envs)" "env_q s1 = env_q two_envs"
    by (auto simp: visit_def)
  have v5: "visit 5 j = (if j < 1018 then 6 + int j else int j - 1018)" if "j < 1022" for j
    using that by (simp add: visit_def mod_pos_pos_trivial mod_pos_geq)
  have "sched_search (envs s1) (sched_pos s1) = Some (visit 5 1021)"
    unfolding 1(3) by (rule sched_search_found; simp only: 1(4) r') (auto simp: v5)
  from timer_switch [OF this, of 0 "\<lambda>_. 7" c1] obtain c2 s2 where
    2: "machine_exception 9 0 (\<lambda>_. 7) c1 s1 = (Some c2, s2)" "curenv s2 = Some 3" by (auto simp: visit_def)
  have "curenv s1 \<noteq> Some 3" "LIST_FIRST (env_q s1) () \<noteq> Some 3" using 1(2,5) s0(3) by simp_all
  then have w: "away 3 (c1, s1) (c2, s2)" by (intro away.exn [OF away.here _ _ _ 2(1)]) simp_all
  have "gives_up 9 (xreg ?c 0) (xreg ?c 1)" by (simp add: gives_up_def)
  from preemption_transparent [OF s0(1) this 1(1) w 2(2)] have "pc c2 = 0x80104" "xreg c2 30 = 30" by auto
  then show ?thesis using 1(1,2) w 2(2) by (intro exI [of _ c1] exI [of _ s1] exI [of _ c2] exI [of _ s2]) simp
qed

end
