(* ===== verification/Machine_Setup.thy ===== *)
theory Machine_Setup
  imports Exception_Entry
begin

text \<open>
  Machine_Setup: the functions that write system and device registers only, \<^verbatim>\<open>get_el\<close> (\<^verbatim>\<open>init/el.S\<close>),
  \<^verbatim>\<open>enable_mmu\<close> (\<^verbatim>\<open>init/enablemmu.S\<close>), \<^verbatim>\<open>irq_vector_init\<close> (\<^verbatim>\<open>lib/entry.S\<close>), \<^verbatim>\<open>timer_init\<close>
  (\<^verbatim>\<open>lib/timer.S\<close>) and \<^verbatim>\<open>enable_interrupt_controller\<close> (\<^verbatim>\<open>lib/handleirq.c\<close>), in the semantics of \<open>Exception_Entry\<close>, and what
  the rest of the model takes from them: the shape of a virtual address, the two classes of memory, the timer.
\<close>

unbundle bit_operations_syntax

subsection \<open>The code\<close>

definition get_el :: "instr list" where
  "get_el = [Mrs 0 CurrentEL, Lsr 0 2]"

definition TCR_VALUE :: u64 where
  "TCR_VALUE = 25 OR push_bit 16 25 OR push_bit 14 0 OR push_bit 30 2 OR push_bit 8 0x35 OR push_bit 24 0x35"

definition enable_mmu :: "u64 \<Rightarrow> instr list" where
  "enable_mmu pgdir =
     [Ldr_const 0 pgdir, Msr TTBR0_EL1 0,
      Ldr_const 0 0x440488, Msr MAIR_EL1 0,
      Ldr_const 0 TCR_VALUE, Msr TCR_EL1 0,
      Mrs 0 SCTLR_EL1, Orr_const 0 1, Msr SCTLR_EL1 0]"

definition irq_vector_init :: "u64 \<Rightarrow> instr list" where
  "irq_vector_init table = [Ldr_const 0 table, Msr VBAR_EL1 0]"

definition timer_init :: "instr list" where
  "timer_init =
     [Ldr_const 0 3, Msr CNTKCTL_EL1 0,
      Ldr_const 0 (drop_bit 6 0x3b9aca0), Msr CNTP_TVAL_EL0 0,
      Ldr_const 0 1, Msr CNTP_CTL_EL0 0]"

definition enable_interrupt_controller :: "'d device \<Rightarrow> 'd \<Rightarrow> 'd" where
  "enable_interrupt_controller D d =
     (let d = dev_write D 0x40000040 0xf d;
          d = dev_write D 0x40000044 0xf d;
          d = dev_write D 0x40000048 0xf d
      in dev_write D 0x4000004c 0xf d)"

subsection \<open>What it establishes\<close>

lemma get_el_result: "xreg (exec get_el c) 0 = drop_bit 2 (sysreg c CurrentEL)"
  by (simp add: get_el_def exec_def)

text \<open>
  The MMU walks the tables of \<^verbatim>\<open>_pg_dir\<close>, with 64 - 25 = 39 bits of address, which are the three indices and the offset of
  \<open>Mmu_Defs\<close>, and pages of 4096 bytes; and the attributes that a descriptor selects are, for
  \<^verbatim>\<open>PTE_NORMAL\<close>, 0x88, normal memory, and for \<^verbatim>\<open>PTE_DEVICE\<close>, 0x04, device memory.
\<close>

lemma mmu_enabled:
  fixes c :: cpu and pgdir :: u64
  defines "c' \<equiv> exec (enable_mmu pgdir) c"
  shows "sysreg c' TTBR0_EL1 = pgdir" "64 - unat (sysreg c' TCR_EL1 AND mask 6) = 9 + 9 + 9 + 12"
    "drop_bit 14 (sysreg c' TCR_EL1) AND 3 = 0" "sysreg c' SCTLR_EL1 = sysreg c SCTLR_EL1 OR 1"
    "drop_bit (8 * unat (drop_bit 2 PTE_NORMAL)) (sysreg c' MAIR_EL1) AND 0xff = 0x88"
    "drop_bit (8 * unat (drop_bit 2 PTE_DEVICE)) (sysreg c' MAIR_EL1) AND 0xff = 0x04"
    "r \<notin> {TTBR0_EL1, TCR_EL1, MAIR_EL1, SCTLR_EL1} \<Longrightarrow> sysreg c' r = sysreg c r"
  by (simp_all add: c'_def enable_mmu_def exec_def TCR_VALUE_def PTE_NORMAL_def PTE_DEVICE_def mask_eq_exp_minus_1)

text \<open>
  The timer is on, unmasked, and fires after 976562 ticks: at the 62500000 ticks per second that the code takes for granted,
  that is less than a sixty-fourth of a second, where the comment in the code says a second.
\<close>

lemma timer_armed:
  fixes c :: cpu
  defines "c' \<equiv> exec timer_init c"
  shows "sysreg c' CNTP_CTL_EL0 = 1" "sysreg c' CNTP_TVAL_EL0 = 976562" "64 * unat (sysreg c' CNTP_TVAL_EL0) < 62500000"
    "r \<notin> {CNTKCTL_EL1, CNTP_TVAL_EL0, CNTP_CTL_EL0} \<Longrightarrow> sysreg c' r = sysreg c r" "i \<noteq> 0 \<Longrightarrow> xreg c' i = xreg c i"
  by (simp_all add: c'_def timer_init_def exec_def)

text \<open>The saved state of the interrupted program is safe from it: \<^verbatim>\<open>handle_irq\<close> may call it before it switches.\<close>

lemma timer_init_keeps_saved: "frame (exec timer_init c) = frame c" "sysreg (exec timer_init c) ELR_EL1 = sysreg c ELR_EL1"
  by (simp_all add: timer_init_def exec_def)

lemma vectors_installed: "sysreg (exec (irq_vector_init table) c) VBAR_EL1 = table"
  by (simp add: irq_vector_init_def exec_def)

end
