(* ===== verification/User_Programs.thy ===== *)
theory User_Programs
  imports User_Calls
begin

text \<open>
  User_Programs: the demonstration programs of \<^verbatim>\<open>user/userfunct.c\<close>. A program is a function from its points (where it is, with
  the values of its local variables) to what it does there and where it goes on; its loops never end, so no result is given.
  The messages between programs are taken from the kernel as \<open>Ipc\<close> and \<open>User_Calls\<close> prove them: a send
  ends when the receiver is waiting, who then has the sender's identifier and the value.
\<close>

subsection \<open>Programs\<close>

datatype 'p act =
    Printf string "va_arg list" 'p
  | Putchar u8 'p                  \<comment> \<open>\<^verbatim>\<open>syscall_putchar\<close>\<close>
  | Fork "int \<Rightarrow> 'p"
  | Getenvid "u64 \<Rightarrow> 'p"           \<comment> \<open>\<^verbatim>\<open>syscall_getenvid\<close>\<close>
  | Ipc_send u64 u64 'p            \<comment> \<open>\<^verbatim>\<open>ipc_send(whom, val, 0, 0)\<close>\<close>
  | Ipc_recv "u64 \<Rightarrow> u64 \<Rightarrow> 'p"    \<comment> \<open>\<^verbatim>\<open>val = ipc_recv(&who, 0, 0)\<close>, given \<^verbatim>\<open>who\<close> and \<^verbatim>\<open>val\<close>\<close>
  | Env_destroy u64 'p             \<comment> \<open>\<^verbatim>\<open>syscall_env_destroy\<close>\<close>
  | Panic string
  | Return

text \<open>\<^verbatim>\<open>for(;;) printf(...)\<close> is a point that goes on to itself.\<close>

datatype fktest2 =
    F2_start u64            \<comment> \<open>the first \<^verbatim>\<open>fork\<close>, with \<^verbatim>\<open>a\<close>\<close>
  | F2_child u64            \<comment> \<open>the second one\<close>
  | F2_loop string u64

fun user_main_fktest2 :: "fktest2 \<Rightarrow> fktest2 act" where
  "user_main_fktest2 (F2_start a) = Fork (\<lambda>id. if id = 0 then F2_child a
     else F2_loop (''this is father: a:%d'' @ [CHR 0x0A]) (a + 1))"
| "user_main_fktest2 (F2_child a) = Fork (\<lambda>id. if id = 0
     then F2_loop ([CHR 0x09, CHR 0x09] @ ''this is child2 :a:%d'' @ [CHR 0x0A]) (a + 3)
     else F2_loop ([CHR 0x09] @ ''this is child :a:%d'' @ [CHR 0x0A]) (a + 2))"
| "user_main_fktest2 (F2_loop fmt a) = Printf fmt [VA_num a] (F2_loop fmt a)"

datatype fktest =
    FK_start
  | FK_forked u64           \<comment> \<open>\<^verbatim>\<open>r\<close>\<close>
  | FK_failed
  | FK_loop string
  | FK_end

fun user_main_fktest :: "fktest \<Rightarrow> fktest act" where
  "user_main_fktest FK_start = Fork (\<lambda>id. FK_forked (word_of_int id))"
| "user_main_fktest (FK_forked r) = Printf (''%x==='' @ [CHR 0x0A]) [VA_num r]
     (if r < 0 then FK_failed
      else if r = 0 then FK_loop (''i am son'' @ [CHR 0x0A])
      else if 0 < r then FK_loop (''i am father'' @ [CHR 0x0A]) else FK_end)"
| "user_main_fktest FK_failed = Panic ''failed''"
| "user_main_fktest (FK_loop txt) = Printf txt [] (FK_loop txt)"
| "user_main_fktest FK_end = Return"

definition user_main1 :: "unit \<Rightarrow> unit act" where
  "user_main1 p = Putchar 49 ()"

definition user_main2 :: "unit \<Rightarrow> unit act" where
  "user_main2 p = Putchar 49 ()"

subsection \<open>Ping-pong\<close>

datatype pingpong =
    PP_start
  | PP_announce u64 u64 u64   \<comment> \<open>\<^verbatim>\<open>me\<close>, \<^verbatim>\<open>other\<close>, \<^verbatim>\<open>i\<close>\<close>
  | PP_first u64 u64 u64
  | PP_loop u64               \<comment> \<open>\<^verbatim>\<open>me\<close>\<close>
  | PP_recv u64
  | PP_got u64 u64 u64        \<comment> \<open>\<^verbatim>\<open>me\<close>, \<^verbatim>\<open>who\<close>, \<^verbatim>\<open>i\<close>\<close>
  | PP_end_got u64 u64 u64
  | PP_next u64 u64 u64
  | PP_send u64 u64 u64
  | PP_end_sent u64

definition send_text :: string where
  "send_text = [CHR 0x0A] @ ''@@@@@send %d from %x to %x'' @ [CHR 0x0A]"

fun user_main_pingpong :: "pingpong \<Rightarrow> pingpong act" where
  "user_main_pingpong PP_start = Getenvid (\<lambda>me. if me = 0x800 then PP_announce me 0x1001 0 else PP_loop me)"
| "user_main_pingpong (PP_announce me other i) =
     Printf send_text [VA_num i, VA_num me, VA_num other] (PP_first me other i)"
| "user_main_pingpong (PP_first me other i) = Ipc_send other i (PP_loop me)"
| "user_main_pingpong (PP_loop me) = Printf (''%x am waiting.....'' @ [CHR 0x0A]) [VA_num me] (PP_recv me)"
| "user_main_pingpong (PP_recv me) = Ipc_recv (\<lambda>who i. PP_got me who i)"
| "user_main_pingpong (PP_got me who i) =
     Printf (''%x got %d from %x'' @ [CHR 0x0A]) [VA_num me, VA_num i, VA_num who]
       (if i = 10 then PP_end_got me who i else PP_next me who (i + 1))"
| "user_main_pingpong (PP_end_got me who i) = Env_destroy me (PP_next me who (i + 1))"
| "user_main_pingpong (PP_next me who i) =
     Printf send_text [VA_num i, VA_num me, VA_num who] (PP_send me who i)"
| "user_main_pingpong (PP_send me who i) = Ipc_send who i (if i = 10 then PP_end_sent me else PP_loop me)"
| "user_main_pingpong (PP_end_sent me) = Env_destroy me (PP_loop me)"

subsection \<open>Programs together\<close>

text \<open>
  Environments by their identifiers, each running a program or destroyed, and the values delivered so far. The steps interleave in
  any order; a program that sends waits until its receiver has called \<^verbatim>\<open>ipc_recv\<close>, and a program that destroys itself does
  not go on.
\<close>

type_synonym 'p world = "(u64 \<Rightarrow> 'p option) \<times> u64 list"

inductive wstep :: "('p \<Rightarrow> 'p act) \<Rightarrow> 'p world \<Rightarrow> 'p world \<Rightarrow> bool" for P :: "'p \<Rightarrow> 'p act" where
  print: "ps e = Some p \<Longrightarrow> P p = Printf f a q \<Longrightarrow> wstep P (ps, vs) (ps(e \<mapsto> q), vs)"
| getenvid: "ps e = Some p \<Longrightarrow> P p = Getenvid k \<Longrightarrow> wstep P (ps, vs) (ps(e \<mapsto> k e), vs)"
| message: "ps e = Some p \<Longrightarrow> P p = Ipc_send w v q \<Longrightarrow> w \<noteq> e \<Longrightarrow> ps w = Some r \<Longrightarrow> P r = Ipc_recv k \<Longrightarrow>
    wstep P (ps, vs) (ps(e \<mapsto> q, w \<mapsto> k e v), vs @ [v])"
| destroy: "ps e = Some p \<Longrightarrow> P p = Env_destroy e q \<Longrightarrow> wstep P (ps, vs) (ps(e := None), vs)"

inductive_cases wstepE: "wstep P w w'"

inductive wreach :: "('p \<Rightarrow> 'p act) \<Rightarrow> 'p world \<Rightarrow> 'p world \<Rightarrow> bool" for P :: "'p \<Rightarrow> 'p act" and w0 :: "'p world" where
  start: "wreach P w0 w0"
| more: "wreach P w0 w \<Longrightarrow> wstep P w w' \<Longrightarrow> wreach P w0 w'"

subsection \<open>Where two players are\<close>

text \<open>
  Behind the delivery of the value \<open>n\<close>: the points of the player who sent it and of the one who got it.
\<close>

definition sent_points :: "u64 \<Rightarrow> nat \<Rightarrow> pingpong option set" where
  "sent_points me n = (if n = 10 then {Some (PP_end_sent me), None} else {Some (PP_loop me), Some (PP_recv me)})"

definition got_points :: "u64 \<Rightarrow> u64 \<Rightarrow> nat \<Rightarrow> pingpong option set" where
  "got_points me who n = (let v = word_of_nat n in insert (Some (PP_got me who v))
     (if n = 10 then {Some (PP_end_got me who v), None}
      else {Some (PP_next me who (v + 1)), Some (PP_send me who (v + 1))}))"

definition playing :: "u64 \<Rightarrow> u64 \<Rightarrow> nat \<Rightarrow> (u64 \<Rightarrow> pingpong option) \<Rightarrow> bool" where
  "playing a b n ps \<longleftrightarrow> n \<le> 10 \<and> a \<noteq> b \<and> (\<forall>e. e \<noteq> a \<longrightarrow> e \<noteq> b \<longrightarrow> ps e = None) \<and>
     ps a \<in> sent_points a n \<and> ps b \<in> got_points b a n"

text \<open>The steps a player can still make before a message.\<close>

fun point_rank :: "pingpong option \<Rightarrow> nat" where
  "point_rank (Some PP_start) = 2"
| "point_rank (Some (PP_announce _ _ _)) = 1"
| "point_rank (Some (PP_loop _)) = 1"
| "point_rank (Some (PP_got _ _ _)) = 2"
| "point_rank (Some (PP_end_got _ _ _)) = 1"
| "point_rank (Some (PP_next _ _ _)) = 1"
| "point_rank (Some (PP_end_sent _)) = 1"
| "point_rank _ = 0"

lemma small_value: "n \<le> 10 \<Longrightarrow> (word_of_nat n :: u64) = 10 \<longleftrightarrow> n = 10"
proof -
  assume "n \<le> 10"
  then have "unat (word_of_nat n :: u64) = n" by (simp add: unat_of_nat take_bit_nat_eq_self)
  then show ?thesis by (auto simp: word_unat_eq_iff)
qed

lemma sent_points_simps:
  "Some (PP_recv me) \<in> sent_points me n \<longleftrightarrow> n \<noteq> 10" "Some (PP_loop me) \<in> sent_points me n \<longleftrightarrow> n \<noteq> 10"
  "Some (PP_end_sent me) \<in> sent_points me n \<longleftrightarrow> n = 10" "None \<in> sent_points me n \<longleftrightarrow> n = 10"
  by (simp_all add: sent_points_def)

lemma got_points_simps:
  "Some (PP_got me who (word_of_nat n)) \<in> got_points me who n"
  "Some (PP_next me who (word_of_nat n + 1)) \<in> got_points me who n \<longleftrightarrow> n \<noteq> 10"
  "Some (PP_send me who (word_of_nat n + 1)) \<in> got_points me who n \<longleftrightarrow> n \<noteq> 10"
  "Some (PP_end_got me who (word_of_nat n)) \<in> got_points me who n \<longleftrightarrow> n = 10" "None \<in> got_points me who n \<longleftrightarrow> n = 10"
  by (simp_all add: got_points_def Let_def)

lemma sent_pointsE:
  assumes "Some p \<in> sent_points me n"
  obtains "n = 10" "p = PP_end_sent me" | "n \<noteq> 10" "p = PP_loop me" | "n \<noteq> 10" "p = PP_recv me"
  using assms by (auto simp: sent_points_def split: if_splits)

lemma got_pointsE:
  assumes "Some p \<in> got_points me who n"
  obtains "p = PP_got me who (word_of_nat n)" | "n = 10" "p = PP_end_got me who (word_of_nat n)"
    | "n \<noteq> 10" "p = PP_next me who (word_of_nat n + 1)" | "n \<noteq> 10" "p = PP_send me who (word_of_nat n + 1)"
  using assms by (auto simp: got_points_def Let_def split: if_splits)

text \<open>A step of the player who sent, of the one who got, and the next message.\<close>

lemma playing_step:
  assumes w: "wstep user_main_pingpong (ps, vs) (ps', vs')" and p: "playing a b n ps"
  shows "playing a b n ps' \<and> vs' = vs \<and> point_rank (ps' a) + point_rank (ps' b) < point_rank (ps a) + point_rank (ps b) \<or>
    n < 10 \<and> playing b a (Suc n) ps' \<and> vs' = vs @ [word_of_nat (Suc n)]"
proof -
  have n: "n \<le> 10" "a \<noteq> b" and o: "\<And>e. e \<noteq> a \<Longrightarrow> e \<noteq> b \<Longrightarrow> ps e = None"
    and pa: "ps a \<in> sent_points a n" and pb: "ps b \<in> got_points b a n" using p by (auto simp: playing_def)
  have e: "e = a \<and> Some q \<in> sent_points a n \<or> e = b \<and> Some q \<in> got_points b a n" if "ps e = Some q" for e q
    using o [of e] that pa pb by (cases "e = a"; cases "e = b") simp_all
  have v: "(word_of_nat n :: u64) = 10 \<longleftrightarrow> n = 10" "word_of_nat n + 1 = (word_of_nat (Suc n) :: u64)"
    "n \<noteq> 10 \<Longrightarrow> (word_of_nat (Suc n) :: u64) = 10 \<longleftrightarrow> Suc n = 10"
    using small_value [of n] small_value [of "Suc n"] n(1) by auto
  note points = sent_points_simps got_points_simps
  from w show ?thesis
  proof (cases rule: wstep.cases)
    case (print e p f t q)
    from e [OF print(3)] show ?thesis
    proof (elim disjE conjE)
      assume "e = a" "Some p \<in> sent_points a n"
      from this(2) show ?thesis
        by (cases rule: sent_pointsE) (use print n o pb \<open>e = a\<close> in \<open>auto simp: playing_def points\<close>)
    next
      assume "e = b" "Some p \<in> got_points b a n"
      from this(2) show ?thesis
        by (cases rule: got_pointsE) (use print n o pa \<open>e = b\<close> v in \<open>auto simp: playing_def points got_points_def Let_def\<close>)
    qed
  next
    case (getenvid e p k)
    from e [OF getenvid(3)] getenvid(4) show ?thesis by (auto elim!: sent_pointsE got_pointsE)
  next
    case (message e p d x q r k)
    then have b: "e = b" "n \<noteq> 10" "p = PP_send b a (word_of_nat n + 1)" using e [OF message(3)]
      by (auto elim!: sent_pointsE got_pointsE)
    then have d: "d = a" "x = word_of_nat (Suc n)" using message(4) v(2) by simp_all
    then have "r = PP_recv a" using e [OF message(6)] message(5,7) b(1) by (auto elim!: sent_pointsE)
    then show ?thesis using message b d n o v
      by (auto simp: playing_def sent_points_def got_points_def Let_def)
  next
    case (destroy e p q)
    from e [OF destroy(3)] show ?thesis
    proof (elim disjE conjE)
      assume "e = a" "Some p \<in> sent_points a n"
      from this(2) show ?thesis
        by (cases rule: sent_pointsE) (use destroy n o pb \<open>e = a\<close> in \<open>auto simp: playing_def points\<close>)
    next
      assume "e = b" "Some p \<in> got_points b a n"
      from this(2) show ?thesis
        by (cases rule: got_pointsE) (use destroy n o pa \<open>e = b\<close> v in \<open>auto simp: playing_def points got_points_def Let_def\<close>)
    qed
  qed
qed

subsection \<open>The whole game\<close>

text \<open>The identifiers of the environments 0 and 1 when they are the first two.\<close>

definition game_start :: "pingpong world" where
  "game_start = ((\<lambda>_. None)(0x800 \<mapsto> PP_start, 0x1001 \<mapsto> PP_start), [])"

definition pre_game :: "(u64 \<Rightarrow> pingpong option) \<Rightarrow> bool" where
  "pre_game ps \<longleftrightarrow> (\<forall>e. e \<noteq> 0x800 \<longrightarrow> e \<noteq> 0x1001 \<longrightarrow> ps e = None) \<and>
     ps 0x800 \<in> {Some PP_start, Some (PP_announce 0x800 0x1001 0), Some (PP_first 0x800 0x1001 0)} \<and>
     ps 0x1001 \<in> {Some PP_start, Some (PP_loop 0x1001), Some (PP_recv 0x1001)}"

definition players :: "nat \<Rightarrow> u64 \<times> u64" where
  "players n = (if even n then (0x800, 0x1001) else (0x1001, 0x800))"

definition game_ok :: "pingpong world \<Rightarrow> bool" where
  "game_ok w = (case w of (ps, vs) \<Rightarrow> vs = [] \<and> pre_game ps \<or>
     (\<exists>n. vs = map word_of_nat [0..<Suc n] \<and> (case players n of (a, b) \<Rightarrow> playing a b n ps)))"

definition game_rank :: "pingpong world \<Rightarrow> nat" where
  "game_rank w = (case w of (ps, vs) \<Rightarrow> 5 * (11 - length vs) + point_rank (ps 0x800) + point_rank (ps 0x1001))"

lemma pre_game_step:
  assumes w: "wstep user_main_pingpong (ps, []) (ps', vs')" and p: "pre_game ps"
  shows "pre_game ps' \<and> vs' = [] \<and>
      point_rank (ps' 0x800) + point_rank (ps' 0x1001) < point_rank (ps 0x800) + point_rank (ps 0x1001) \<or>
    playing 0x800 0x1001 0 ps' \<and> vs' = [0]"
proof -
  have e: "e = 0x800 \<or> e = 0x1001" if "ps e = Some q" for e q using p that by (auto simp: pre_game_def)
  from w show ?thesis
  proof (cases rule: wstep.cases)
    case (print e p f t q)
    then show ?thesis using e [OF print(3)] p by (auto simp: pre_game_def)
  next
    case (getenvid e p k)
    then show ?thesis using e [OF getenvid(3)] p by (auto simp: pre_game_def)
  next
    case (message e p d x q r k)
    then show ?thesis using e [OF message(3)] p
      by (auto simp: pre_game_def playing_def sent_points_def got_points_def)
  next
    case (destroy e p q)
    then show ?thesis using e [OF destroy(3)] p by (auto simp: pre_game_def)
  qed
qed

text \<open>A player who is not waiting for a message, or both together, can make a step.\<close>

fun can_move :: "u64 \<Rightarrow> 'p act \<Rightarrow> bool" where
  "can_move e (Printf _ _ _) = True"
| "can_move e (Getenvid _) = True"
| "can_move e (Env_destroy i _) = (i = e)"
| "can_move e _ = False"

lemma move: "ps e = Some p \<Longrightarrow> can_move e (P p) \<Longrightarrow> \<exists>w. wstep P (ps, vs) w"
  by (cases "P p") (auto intro: wstep.print wstep.getenvid wstep.destroy)

lemma playing_moves:
  assumes p: "playing a b n ps"
  shows "n = 10 \<and> ps a = None \<and> ps b = None \<or> (\<exists>w. wstep user_main_pingpong (ps, vs) w)"
proof -
  have pa: "ps a \<in> sent_points a n" and pb: "ps b \<in> got_points b a n" and d: "a \<noteq> b" using p by (auto simp: playing_def)
  have b: "(\<exists>w. wstep user_main_pingpong (ps, vs) w) \<or> ps b = None \<and> n = 10 \<or>
    n \<noteq> 10 \<and> ps b = Some (PP_send b a (word_of_nat n + 1))"
    using pb move [of ps b _ user_main_pingpong vs]
    by (auto simp: got_points_def Let_def split: if_splits simp del: split_paired_Ex)
  have a: "(\<exists>w. wstep user_main_pingpong (ps, vs) w) \<or> ps a = None \<and> n = 10 \<or> n \<noteq> 10 \<and> ps a = Some (PP_recv a)"
    using pa move [of ps a _ user_main_pingpong vs]
    by (auto simp: sent_points_def split: if_splits simp del: split_paired_Ex)
  have "\<exists>w. wstep user_main_pingpong (ps, vs) w" if "ps a = Some (PP_recv a)" "ps b = Some (PP_send b a x)" for x
    using that d wstep.message [of ps b "PP_send b a x" user_main_pingpong a x _ "PP_recv a" _ vs] by force
  then show ?thesis using a b by blast
qed

lemma pre_game_moves:
  assumes p: "pre_game ps"
  shows "\<exists>w. wstep user_main_pingpong (ps, vs) w"
proof -
  have a: "(\<exists>w. wstep user_main_pingpong (ps, vs) w) \<or> ps 0x800 = Some (PP_first 0x800 0x1001 0)"
    using p move [of ps "0x800" _ user_main_pingpong vs] by (auto simp: pre_game_def simp del: split_paired_Ex)
  have b: "(\<exists>w. wstep user_main_pingpong (ps, vs) w) \<or> ps 0x1001 = Some (PP_recv 0x1001)"
    using p move [of ps "0x1001" _ user_main_pingpong vs] by (auto simp: pre_game_def simp del: split_paired_Ex)
  have "\<exists>w. wstep user_main_pingpong (ps, vs) w" if "ps 0x800 = Some (PP_first 0x800 0x1001 0)" "ps 0x1001 = Some (PP_recv 0x1001)"
    using that wstep.message [of ps "0x800" "PP_first 0x800 0x1001 0" user_main_pingpong "0x1001" 0 _ "PP_recv 0x1001" _ vs] by force
  then show ?thesis using a b by blast
qed

lemma game_step:
  assumes "wstep user_main_pingpong w w'" and "game_ok w"
  shows "game_ok w' \<and> game_rank w' < game_rank w"
proof -
  obtain ps vs ps' vs' where w: "w = (ps, vs)" "w' = (ps', vs')" by (cases w, cases w')
  from assms(2) w consider (pre) "vs = []" "pre_game ps"
    | (play) n where "vs = map word_of_nat [0..<Suc n]" "case players n of (a, b) \<Rightarrow> playing a b n ps"
    by (auto simp: game_ok_def)
  then show ?thesis
  proof cases
    case pre
    have r: "point_rank (ps' 0x800) + point_rank (ps' 0x1001) \<le> 3" if "playing 0x800 0x1001 0 ps'"
      using that by (auto simp: playing_def sent_points_def got_points_def)
    from pre_game_step [of ps ps' vs'] assms(1) w pre r show ?thesis
      by (auto simp: game_ok_def game_rank_def players_def intro: exI [of _ 0])
  next
    case play
    obtain a b where ab: "players n = (a, b)" by (cases "players n")
    then have sw: "players (Suc n) = (b, a)" and s: "f (0x800 :: u64) + f 0x1001 = f a + f b" for f :: "u64 \<Rightarrow> nat"
      by (auto simp: players_def split: if_splits)
    have p: "playing a b n ps" using play(2) ab by simp
    have r: "point_rank (ps' b) + point_rank (ps' a) \<le> 3" if "playing b a (Suc n) ps'"
      using that by (auto simp: playing_def sent_points_def got_points_def Let_def split: if_splits)
    from playing_step [OF assms(1) [unfolded w] p] play(1) show ?thesis
    proof (elim disjE conjE)
      assume "playing b a (Suc n) ps'" "vs' = vs @ [word_of_nat (Suc n)]" "n < 10"
      then show ?thesis using play(1) sw r w s [of "\<lambda>e. point_rank (ps' e)"]
        by (auto simp: game_ok_def game_rank_def intro: exI [of _ "Suc n"])
    next
      assume k: "playing a b n ps'" "vs' = vs"
        "point_rank (ps' a) + point_rank (ps' b) < point_rank (ps a) + point_rank (ps b)"
      then have "game_ok w'" using play(1) ab w by (auto simp: game_ok_def)
      moreover have "game_rank w' < game_rank w"
        using k(2,3) w s [of "\<lambda>e. point_rank (ps' e)"] s [of "\<lambda>e. point_rank (ps e)"] by (simp add: game_rank_def)
      ultimately show ?thesis ..
    qed
  qed
qed

lemma game_reach: "wreach user_main_pingpong game_start w \<Longrightarrow> game_ok w"
proof (induction rule: wreach.induct)
  case start
  then show ?case by (simp add: game_start_def game_ok_def pre_game_def)
next
  case (more w w')
  then show ?case by (simp add: game_step)
qed

text \<open>C9: ping-pong. Two programs \<^verbatim>\<open>user_main_pingpong\<close> in the environments 0x800 and 0x1001, whatever the order of their steps, deliver
  the values 0, 1, 2, ... each once and in order, never get stuck, and come to an end: every step lowers a rank that starts at
  59, and where no step is left, both have destroyed themselves after the value 10.\<close>

theorem pingpong_ends:
  assumes "wreach user_main_pingpong game_start (ps, vs)"
  shows "vs = map word_of_nat [0..<length vs] \<and> length vs \<le> 11 \<and> game_rank game_start = 59 \<and>
    (\<forall>w. wstep user_main_pingpong (ps, vs) w \<longrightarrow> game_rank w < game_rank (ps, vs)) \<and>
    ((\<exists>w. wstep user_main_pingpong (ps, vs) w) \<or> ps = (\<lambda>_. None) \<and> length vs = 11)"
proof -
  note ok = game_reach [OF assms]
  have start: "game_rank game_start = 59" by (simp add: game_rank_def game_start_def)
  from ok consider (pre) "vs = []" "pre_game ps"
    | (play) n where "vs = map word_of_nat [0..<Suc n]" "case players n of (a, b) \<Rightarrow> playing a b n ps"
    by (auto simp: game_ok_def)
  then show ?thesis
  proof cases
    case pre
    then show ?thesis using pre_game_moves [of ps vs] game_step [OF _ ok] start by auto
  next
    case play
    obtain a b where "players n = (a, b)" by (cases "players n")
    then have p: "playing a b n ps" using play(2) by simp
    then have n: "n \<le> 10" "\<forall>e. e \<noteq> a \<longrightarrow> e \<noteq> b \<longrightarrow> ps e = None" by (auto simp: playing_def)
    have "n = 10 \<and> ps = (\<lambda>_. None) \<or> (\<exists>w. wstep user_main_pingpong (ps, vs) w)"
      using playing_moves [OF p, of vs] n(2) by (metis ext)
    moreover have "length vs = Suc n" "vs = map word_of_nat [0..<length vs]" using play(1) by simp_all
    ultimately show ?thesis using n(1) game_step [OF _ ok] start by auto
  qed
qed

lemma pingpong_ends_witness: "\<exists>w. wstep user_main_pingpong game_start w"
proof -
  have "wreach user_main_pingpong game_start (fst game_start, snd game_start)" by (simp add: wreach.start)
  from pingpong_ends [OF this] show ?thesis by (auto simp: game_start_def simp del: split_paired_Ex)
qed

text \<open>\<^verbatim>\<open>r\<close> is unsigned, so a failed \<^verbatim>\<open>fork\<close> is taken for the father's side: the test of an error is never true.\<close>

lemma fktest_failed_fork:
  assumes "user_main_fktest FK_start = Fork k" and "i < 0" "- 0x80000000 \<le> i"
  shows "\<exists>txt. user_main_fktest (k i) = Printf txt [VA_num (word_of_int i)] (FK_loop (''i am father'' @ [CHR 0x0A]))"
proof -
  have "i mod 2 ^ 64 = i + 2 ^ 64" using assms(2,3) mod_pos_pos_trivial [of "i + 2 ^ 64" "2 ^ 64"] by simp
  then have "uint (word_of_int i :: u64) \<noteq> 0" using assms(3) by (simp add: uint_word_of_int)
  then have "(word_of_int i :: u64) \<noteq> 0" by auto
  then show ?thesis using assms(1) by (auto simp: word_neq_0_conv)
qed

end
