(* ===== verification/Programs_On_Kernel.thy ===== *)
theory Programs_On_Kernel
  imports User_Programs Kernel_Inv
begin

text \<open>
  Programs_On_Kernel: the programs of \<open>User_Programs\<close> on the kernel. Where that theory takes a message for one step, here it is what the
  code does: the sender's loop of system calls and yields, the receiver's call, which takes it off the scheduling list, the
  delivery into \<^verbatim>\<open>struct Env\<close>, and the read of it when the scheduler comes back; with timer interrupts anywhere. A simulation
  takes every execution of this machine to one of \<open>User_Programs\<close>.
\<close>

subsection \<open>Simulation\<close>

text \<open>A machine refines another one when each of its steps is a step of the other or none, under an invariant.\<close>

locale simulation =
  fixes low :: "'m \<Rightarrow> 'm \<Rightarrow> bool" and high :: "'w \<Rightarrow> 'w \<Rightarrow> bool" and abs :: "'m \<Rightarrow> 'w" and inv :: "'m \<Rightarrow> bool"
  assumes keeps_inv: "inv m \<Longrightarrow> low m m' \<Longrightarrow> inv m'"
    and square: "inv m \<Longrightarrow> low m m' \<Longrightarrow> abs m' = abs m \<or> high (abs m) (abs m')"
begin

lemma run_inv: "low\<^sup>*\<^sup>* m m' \<Longrightarrow> inv m \<Longrightarrow> inv m'"
  by (induction rule: rtranclp_induct) (auto intro: keeps_inv)

lemma run: "low\<^sup>*\<^sup>* m m' \<Longrightarrow> inv m \<Longrightarrow> high\<^sup>*\<^sup>* (abs m) (abs m')"
proof (induction rule: rtranclp_induct)
  case (step y z)
  then have "inv y" using run_inv by blast
  with square [OF this step(2)] step show ?case by (metis rtranclp.rtrancl_into_rtrancl)
qed simp

end

lemma wreach_rtranclp: "(wstep P)\<^sup>*\<^sup>* w w' \<Longrightarrow> wreach P w w'"
  by (induction rule: rtranclp_induct) (auto intro: wreach.intros)

subsection \<open>The machine\<close>

text \<open>
  A program is at a point, in the loop of \<^verbatim>\<open>ipc_send\<close> behind a call that found no waiting receiver, or in the call of
  \<^verbatim>\<open>ipc_recv\<close>. The values are those delivered so far. \<open>pstep\<close> is what the running program does next, one system call at most;
  \<open>mstep\<close> adds its own computation, which may change any memory, and the timer.
\<close>

datatype 'p task = At 'p | Refused 'p | Receiving 'p

type_synonym 'p machine = "kstate \<times> (u64 \<Rightarrow> 'p task option) \<times> u64 list"

inductive pstep :: "('p \<Rightarrow> 'p act) \<Rightarrow> 'p machine \<Rightarrow> 'p machine \<Rightarrow> bool" for P :: "'p \<Rightarrow> 'p act" where
  print: "curenv s = Some c \<Longrightarrow> ts c = Some (At p) \<Longrightarrow> P p = Printf f a q \<Longrightarrow>
    pstep P (s, ts, vs) (kprintf f a s, ts(c \<mapsto> At q), vs)"
| getenvid: "curenv s = Some c \<Longrightarrow> ts c = Some (At p) \<Longrightarrow> P p = Getenvid k \<Longrightarrow>
    syscall_getenvid tf s = (Inr i, s') \<Longrightarrow> pstep P (s, ts, vs) (s', ts(c \<mapsto> At (k i)), vs)"
| send: "curenv s = Some c \<Longrightarrow> ts c = Some (At p) \<Longrightarrow> P p = Ipc_send w v q \<Longrightarrow>
    syscall_ipc_can_send tf w v 0 0 s = (Inr 0, s') \<Longrightarrow> pstep P (s, ts, vs) (s', ts(c \<mapsto> At q), vs @ [v])"
| refused: "curenv s = Some c \<Longrightarrow> ts c = Some (At p) \<Longrightarrow> P p = Ipc_send w v q \<Longrightarrow>
    syscall_ipc_can_send tf w v 0 0 s = (Inr (- E_IPC_NOT_RECV), s') \<Longrightarrow> pstep P (s, ts, vs) (s', ts(c \<mapsto> Refused p), vs)"
| again: "curenv s = Some c \<Longrightarrow> ts c = Some (Refused p) \<Longrightarrow>
    syscall_yield tf s = (Inl Enter_user, s') \<Longrightarrow> pstep P (s, ts, vs) (s', ts(c \<mapsto> At p), vs)"
| recv: "curenv s = Some c \<Longrightarrow> ts c = Some (At p) \<Longrightarrow> P p = Ipc_recv k \<Longrightarrow>
    ipc_recv tf 0 s = (Inl Enter_user, s') \<Longrightarrow> pstep P (s, ts, vs) (s', ts(c \<mapsto> Receiving p), vs)"
| received: "curenv s = Some c \<Longrightarrow> ts c = Some (Receiving p) \<Longrightarrow> P p = Ipc_recv k \<Longrightarrow>
    ipc_received s = (Inr (who, perm, v), s') \<Longrightarrow> pstep P (s, ts, vs) (s', ts(c \<mapsto> At (k who v)), vs)"
| destroy: "curenv s = Some c \<Longrightarrow> ts c = Some (At p) \<Longrightarrow> P p = Env_destroy i q \<Longrightarrow> i = env_id (envs s c) \<Longrightarrow>
    syscall_env_destroy tf i s = (Inl Enter_user, s') \<Longrightarrow> pstep P (s, ts, vs) (s', ts(c := None), vs)"

inductive mstep :: "('p \<Rightarrow> 'p act) \<Rightarrow> 'p machine \<Rightarrow> 'p machine \<Rightarrow> bool" for P :: "'p \<Rightarrow> 'p act" where
  program: "pstep P m m' \<Longrightarrow> mstep P m m'"
| compute: "mstep P (s, ts, vs) (s\<lparr>mem := m\<rparr>, ts, vs)"
| timer: "handle_irq (s\<lparr>timestack_tf := tf\<rparr>) = (Inl Enter_user, s') \<Longrightarrow> mstep P (s, ts, vs) (s', ts, vs)"

subsection \<open>Invariant and abstraction\<close>

text \<open>
  Each program has an environment, which runs, is runnable or waits for a message in \<^verbatim>\<open>ipc_recv\<close>; the runnable ones are the
  scheduling list, and no other environment is in use.
\<close>

fun task_ok :: "('p \<Rightarrow> 'p act) \<Rightarrow> kstate \<Rightarrow> u64 \<Rightarrow> 'p task \<Rightarrow> bool" where
  "task_ok P s e (At p) \<longleftrightarrow> env_status (envs s e) = ENV_RUNNABLE"
| "task_ok P s e (Refused p) \<longleftrightarrow> env_status (envs s e) = ENV_RUNNABLE \<and> (\<exists>w v q. P p = Ipc_send w v q)"
| "task_ok P s e (Receiving p) \<longleftrightarrow> (\<exists>k. P p = Ipc_recv k) \<and> (env_status (envs s e) = ENV_RUNNABLE \<or> waiting s e)"

definition tasks_ok :: "('p \<Rightarrow> 'p act) \<Rightarrow> kstate \<Rightarrow> (u64 \<Rightarrow> 'p task option) \<Rightarrow> bool" where
  "tasks_ok P s ts \<longleftrightarrow>
     (\<forall>e t. ts e = Some t \<longrightarrow> e < NENV \<and> ENVX (env_id (envs s e)) = e \<and> env_id (envs s e) \<noteq> 0 \<and> task_ok P s e t) \<and>
     (\<forall>e < NENV. ts e = None \<longrightarrow> env_status (envs s e) = ENV_FREE)"

definition sched_ok :: "kstate \<Rightarrow> (u64 \<Rightarrow> 'p task option) \<Rightarrow> bool" where
  "sched_ok s ts \<longleftrightarrow>
     (\<exists>ys. lst (sched_q s) (cur_sched s) ys \<and> set ys = {e. ts e \<noteq> None \<and> env_status (envs s e) = ENV_RUNNABLE})"

definition running_ok :: "kstate \<Rightarrow> (u64 \<Rightarrow> 'p task option) \<Rightarrow> bool" where
  "running_ok s ts \<longleftrightarrow> (\<exists>c. curenv s = Some c \<and> ts c \<noteq> None \<and> env_status (envs s c) = ENV_RUNNABLE)"

definition machine_ok :: "('p \<Rightarrow> 'p act) \<Rightarrow> 'p machine \<Rightarrow> bool" where
  "machine_ok P m = (case m of (s, ts, vs) \<Rightarrow> tasks_ok P s ts \<and> sched_ok s ts \<and> running_ok s ts)"

text \<open>The point of a program in \<open>User_Programs\<close>: one that has its message is behind the call already.\<close>

fun task_point :: "('p \<Rightarrow> 'p act) \<Rightarrow> kstate \<Rightarrow> u64 \<Rightarrow> 'p task \<Rightarrow> 'p" where
  "task_point P s e (At p) = p"
| "task_point P s e (Refused p) = p"
| "task_point P s e (Receiving p) = (if waiting s e then p else
     (case P p of Ipc_recv k \<Rightarrow> k (env_ipc_from (envs s e)) (env_ipc_value (envs s e)) | _ \<Rightarrow> p))"

definition world_of :: "('p \<Rightarrow> 'p act) \<Rightarrow> 'p machine \<Rightarrow> 'p world" where
  "world_of P m = (case m of (s, ts, vs) \<Rightarrow>
     (\<lambda>i. if env_id (envs s (ENVX i)) = i then map_option (task_point P s (ENVX i)) (ts (ENVX i)) else None, vs))"

text \<open>What the invariant and the abstraction read of an environment.\<close>

definition comm :: "env \<Rightarrow> u64 \<times> u64 \<times> u64 \<times> u64 \<times> u64" where
  "comm x = (env_id x, env_status x, env_ipc_recving x, env_ipc_from x, env_ipc_value x)"

definition same_comm :: "kstate \<Rightarrow> kstate \<Rightarrow> bool" where
  "same_comm s s' \<longleftrightarrow> (\<forall>e. comm (envs s' e) = comm (envs s e))"

lemma same_comm_fields:
  assumes "same_comm s s'"
  shows "env_id (envs s' e) = env_id (envs s e)" "env_status (envs s' e) = env_status (envs s e)"
    "waiting s' e = waiting s e" "task_ok P s' e t = task_ok P s e t" "task_point P s' e t = task_point P s e t"
proof -
  have "comm (envs s' e) = comm (envs s e)" using assms by (simp add: same_comm_def)
  then have f: "env_id (envs s' e) = env_id (envs s e)" "env_status (envs s' e) = env_status (envs s e)"
    "env_ipc_recving (envs s' e) = env_ipc_recving (envs s e)" "env_ipc_from (envs s' e) = env_ipc_from (envs s e)"
    "env_ipc_value (envs s' e) = env_ipc_value (envs s e)" by (simp_all add: comm_def)
  then show "env_id (envs s' e) = env_id (envs s e)" "env_status (envs s' e) = env_status (envs s e)"
    and w: "waiting s' e = waiting s e" by (simp_all add: waiting_def)
  show "task_ok P s' e t = task_ok P s e t" by (cases t) (simp_all add: f w)
  show "task_point P s' e t = task_point P s e t" by (cases t) (simp_all add: f w split: act.split)
qed

lemma same_comm_ok: "same_comm s s' \<Longrightarrow> tasks_ok P s ts \<Longrightarrow> tasks_ok P s' ts"
  by (simp add: tasks_ok_def same_comm_fields)

lemma same_comm_sched: "same_comm s s' \<Longrightarrow> sched_q s' = sched_q s \<Longrightarrow> cur_sched s' = cur_sched s \<Longrightarrow> sched_ok s ts \<Longrightarrow> sched_ok s' ts"
  by (simp add: sched_ok_def same_comm_fields)

lemma same_comm_world: "same_comm s s' \<Longrightarrow> world_of P (s', ts, vs) = world_of P (s, ts, vs)"
proof -
  assume c: "same_comm s s'"
  then have p: "task_point P s' = task_point P s" by (intro ext) (rule same_comm_fields)
  show ?thesis unfolding world_of_def by (simp only: prod.case same_comm_fields(1) [OF c] p)
qed

text \<open>Changes of one program.\<close>

lemma world_upd:
  assumes e: "ENVX (env_id (envs s e)) = e"
    and id: "\<And>x. env_id (envs s' x) = env_id (envs s x)"
    and o: "\<And>x t. x \<noteq> e \<Longrightarrow> ts x = Some t \<Longrightarrow> task_point P s' x t = task_point P s x t"
  shows "fst (world_of P (s', ts(e := t), vs)) =
    (fst (world_of P (s, ts, vs)))(env_id (envs s e) := map_option (task_point P s' e) t)"
proof
  fix i
  show "fst (world_of P (s', ts(e := t), vs)) i = ((fst (world_of P (s, ts, vs)))(env_id (envs s e) := map_option (task_point P s' e) t)) i"
    using e o id by (cases "ENVX i = e"; cases "ts (ENVX i)") (auto simp: world_of_def)
qed

lemma world_pair: "world_of P (s, ts, vs') = (fst (world_of P (s, ts, vs)), vs')"
  by (simp add: world_of_def)

lemma world_snd: "snd (world_of P (s, ts, vs)) = vs"
  by (simp add: world_of_def)

lemma world_own:
  "tasks_ok P s ts \<Longrightarrow> ts e = Some t \<Longrightarrow> fst (world_of P (s, ts, vs)) (env_id (envs s e)) = Some (task_point P s e t)"
  by (simp add: world_of_def tasks_ok_def)

subsection \<open>The kernel's functions\<close>

lemma env_run_comm: "same_comm s (snd (env_run e s))"
  by (auto simp: same_comm_def comm_def env_run_eq(4) Let_def)

text \<open>A switch changes the running environment only, and chooses a runnable one.\<close>

lemma sched_yield_switch:
  assumes "sched_yield s = (r, s')" and "r = Inl Enter_user"
  shows "same_comm s s'" "sched_q s' = sched_q s" "cur_sched s' = cur_sched s"
    "\<exists>q < NENV. curenv s' = Some q \<and> env_status (envs s q) = ENV_RUNNABLE"
proof -
  from assms obtain p where p: "sched_search (envs s) (sched_pos s) = Some p"
    and s': "env_run (word_of_int p) (s\<lparr>sched_pos := p\<rparr>) = (r, s')"
    by (auto simp: sched_yield_def split: option.splits)
  have e: "s' = snd (env_run (word_of_int p) (s\<lparr>sched_pos := p\<rparr>))" using s' by (metis snd_conv)
  from sched_search_Some [OF p] have p': "0 \<le> p" "p < 1024" "runnable (envs s) p" by auto
  show "same_comm s s'" using env_run_comm [of "s\<lparr>sched_pos := p\<rparr>" "word_of_int p"] by (simp add: e same_comm_def)
  show "sched_q s' = sched_q s" "cur_sched s' = cur_sched s" by (simp_all add: e env_run_frame)
  show "\<exists>q < NENV. curenv s' = Some q \<and> env_status (envs s q) = ENV_RUNNABLE"
    using word_pos_less [OF p'(1,2)] p'(3) by (auto simp: e env_run_eq(2) runnable_def)
qed

text \<open>So it keeps the invariant and stays in place.\<close>

lemma switch_ok:
  assumes y: "sched_yield s0 = (Inl Enter_user, s')" and t: "tasks_ok P s0 ts" "sched_ok s0 ts"
  shows "machine_ok P (s', ts, vs)" "world_of P (s', ts, vs) = world_of P (s0, ts, vs)"
proof -
  note sw = sched_yield_switch [OF y refl]
  from sw(4) obtain q where q: "q < NENV" "curenv s' = Some q" "env_status (envs s0 q) = ENV_RUNNABLE" by blast
  have "ts q \<noteq> None" using t(1) q(1,3) by (fastforce simp: tasks_ok_def ENV_RUNNABLE_def ENV_FREE_def)
  then have "running_ok s' ts" using q sw(1) by (simp add: running_ok_def same_comm_fields)
  then show "machine_ok P (s', ts, vs)"
    by (simp add: machine_ok_def same_comm_ok [OF sw(1) t(1)] same_comm_sched [OF sw(1,2,3) t(2)])
  show "world_of P (s', ts, vs) = world_of P (s0, ts, vs)" by (rule same_comm_world [OF sw(1)])
qed

text \<open>The send call without a page: no receiver, one that does not wait, or delivery.\<close>

lemma can_send_zero:
  assumes c: "curenv s = Some c" "\<not> waiting s c"
  shows "sys_ipc_can_send w v 0 perm s =
    (if w \<noteq> 0 \<and> (env_status (envs s (ENVX w)) = ENV_FREE \<or> env_id (envs s (ENVX w)) \<noteq> w)
     then (Inr (- E_BAD_ENV), kprintf (''ipc_send:dstenv is invalid'' @ [CHR 0x0A]) [] s)
     else if w \<noteq> 0 \<and> waiting s (ENVX w) then ipc_deliver (ENVX w) v perm s else (Inr (- E_IPC_NOT_RECV), s))"
proof -
  have u: "\<not> UTOP \<le> 0" by (simp add: UTOP_def)
  show ?thesis using c u
    by (auto simp: sys_ipc_can_send_def envid2env_def Let_def waiting_def E_BAD_ENV_def kbind_def)
qed

lemma ipc_deliver_eq:
  "curenv s = Some c \<Longrightarrow> ipc_deliver e v perm s = (Inr 0, s\<lparr>envs := (envs s)(e := (envs s e)\<lparr>env_ipc_value := v,
     env_ipc_from := env_id (envs s c), env_ipc_perm := perm, env_ipc_recving := 0, env_status := ENV_RUNNABLE\<rparr>),
     sched_q := LIST_INSERT_HEAD (sched_q s) (cur_sched s) e\<rparr>)"
  by (simp add: ipc_deliver_def Let_def env_upd_def)

lemma can_send_cases:
  assumes c: "curenv s = Some c" "\<not> waiting s c"
  shows "syscall_ipc_can_send tf w v 0 0 s = (Inr 0, s') \<longleftrightarrow> w \<noteq> 0 \<and> env_id (envs s (ENVX w)) = w \<and> waiting s (ENVX w) \<and>
      s' = s\<lparr>kernel_tf := tf, envs := (envs s)(ENVX w := (envs s (ENVX w))\<lparr>env_ipc_value := v,
        env_ipc_from := env_id (envs s c), env_ipc_perm := 0, env_ipc_recving := 0, env_status := ENV_RUNNABLE\<rparr>),
        sched_q := LIST_INSERT_HEAD (sched_q s) (cur_sched s) (ENVX w)\<rparr>"
    "syscall_ipc_can_send tf w v 0 0 s = (Inr (- E_IPC_NOT_RECV), s') \<longleftrightarrow>
      (w \<noteq> 0 \<longrightarrow> env_status (envs s (ENVX w)) \<noteq> ENV_FREE \<and> env_id (envs s (ENVX w)) = w \<and> \<not> waiting s (ENVX w)) \<and>
      s' = s\<lparr>kernel_tf := tf\<rparr>"
proof -
  let ?t = "s\<lparr>kernel_tf := tf\<rparr>"
  have t: "curenv ?t = Some c" "\<not> waiting ?t c" using c by (simp_all add: waiting_def)
  note z = can_send_zero [OF t, of w v 0]
  have st: "syscall_ipc_can_send tf w v 0 0 s = sys_ipc_can_send w v 0 0 ?t"
  proof -
    obtain k u where k: "sys_ipc_can_send w v 0 0 ?t = (Inr k, u)" "k \<in> {- E_BAD_ENV, - E_IPC_NOT_RECV, 0}"
      using z ipc_deliver_eq [OF t(1), of "ENVX w" v 0] by (cases "w = 0") (auto split: if_splits)
    then have "- 0x80000000 \<le> k" "k < 0x80000000" by (auto simp: E_BAD_ENV_def E_IPC_NOT_RECV_def)
    from can_send_stub [OF k(1) this] k(1) show ?thesis by simp
  qed
  show "syscall_ipc_can_send tf w v 0 0 s = (Inr 0, s') \<longleftrightarrow> w \<noteq> 0 \<and> env_id (envs s (ENVX w)) = w \<and> waiting s (ENVX w) \<and>
      s' = s\<lparr>kernel_tf := tf, envs := (envs s)(ENVX w := (envs s (ENVX w))\<lparr>env_ipc_value := v,
        env_ipc_from := env_id (envs s c), env_ipc_perm := 0, env_ipc_recving := 0, env_status := ENV_RUNNABLE\<rparr>),
        sched_q := LIST_INSERT_HEAD (sched_q s) (cur_sched s) (ENVX w)\<rparr>"
    by (auto simp: st z ipc_deliver_eq [OF t(1)] err_codes waiting_def ENV_FREE_def ENV_NOT_RUNNABLE_def)
  show "syscall_ipc_can_send tf w v 0 0 s = (Inr (- E_IPC_NOT_RECV), s') \<longleftrightarrow>
      (w \<noteq> 0 \<longrightarrow> env_status (envs s (ENVX w)) \<noteq> ENV_FREE \<and> env_id (envs s (ENVX w)) = w \<and> \<not> waiting s (ENVX w)) \<and>
      s' = s\<lparr>kernel_tf := tf\<rparr>"
    by (auto simp: st z ipc_deliver_eq [OF t(1)] err_codes waiting_def)
qed

lemma yield_eq: "syscall_yield tf s = sched_yield (s\<lparr>kernel_tf := tf, timestack_tf := tf\<rparr>)"
  by (simp add: yield_stub sys_yield_def)

text \<open>A round of the loop of \<^verbatim>\<open>ipc_send\<close> in \<open>User_Calls\<close> is one of these steps or two.\<close>

lemma send_round_steps:
  assumes "curenv s = Some c" "ts c = Some (At p)" "P p = Ipc_send w v q"
  shows "ipc_send_round tf w v 0 0 s = (Inr True, s') \<Longrightarrow> pstep P (s, ts, vs) (s', ts(c \<mapsto> At q), vs @ [v])"
    "ipc_send_round tf w v 0 0 s = (Inl Enter_user, s') \<Longrightarrow> syscall_ipc_can_send tf w v 0 0 s = (Inr (- E_IPC_NOT_RECV), s1) \<Longrightarrow>
      curenv s1 = Some c \<Longrightarrow> (pstep P ^^ 2) (s, ts, vs) (s', ts, vs)"
proof -
  show "ipc_send_round tf w v 0 0 s = (Inr True, s') \<Longrightarrow> pstep P (s, ts, vs) (s', ts(c \<mapsto> At q), vs @ [v])"
    by (rule pstep.send [where c = c and p = p and P = P and w = w and v = v and q = q and s = s and ts = ts and tf = tf, OF assms])
      (auto simp: ipc_send_round_def kbind_def kpanic_def split: prod.splits sum.splits if_splits)
  assume r: "ipc_send_round tf w v 0 0 s = (Inl Enter_user, s')"
    and 1: "syscall_ipc_can_send tf w v 0 0 s = (Inr (- E_IPC_NOT_RECV), s1)" "curenv s1 = Some c"
  then have "syscall_yield tf s1 = (Inl Enter_user, s')"
    by (auto simp: ipc_send_round_def kbind_def split: prod.splits sum.splits)
  from pstep.again [where ts = "ts(c \<mapsto> Refused p)" and P = P and p = p and vs = vs, OF 1(2) _ this]
  have "pstep P (s1, ts(c \<mapsto> Refused p), vs) (s', ts, vs)" using assms(2) by (simp add: fun_upd_idem)
  then show "(pstep P ^^ 2) (s, ts, vs) (s', ts, vs)"
    using pstep.refused [where c = c and ts = ts and P = P and p = p and vs = vs, OF assms 1(1)] by (auto simp: numeral_2_eq_2)
qed

text \<open>Freeing an address space enters no program.\<close>

definition stays :: "'a kresult \<Rightarrow> bool" where
  "stays r \<longleftrightarrow> fst r \<noteq> Inl Enter_user"

named_theorems stay \<open>rules for functions that enter no program\<close>

lemma stays_results [stay]:
  "stays (Inr x, s)" "stays (kret x s)" "stays (kpanic f a s)" "stays (Inl Null_deref, s)"
  by (simp_all add: stays_def kpanic_def)

lemma stays_kbind: "stays (m s) \<Longrightarrow> (\<And>x t. stays (g x t)) \<Longrightarrow> stays (kbind m g s)"
  by (auto simp: stays_def kbind_def split: prod.split sum.split)

lemma stays_control [stay]:
  "(b \<Longrightarrow> stays x) \<Longrightarrow> (\<not> b \<Longrightarrow> stays y) \<Longrightarrow> stays (if b then x else y)"
  "(b \<Longrightarrow> stays (f1 s)) \<Longrightarrow> (\<not> b \<Longrightarrow> stays (g1 s)) \<Longrightarrow> stays ((if b then f1 else g1) s)"
  "stays n \<Longrightarrow> (\<And>v. stays (h v)) \<Longrightarrow> stays (case z of None \<Rightarrow> n | Some v \<Rightarrow> h v)"
  "(\<And>a b. stays (k a b)) \<Longrightarrow> stays (case p of (a, b) \<Rightarrow> k a b)"
  "(\<And>a b. stays (l a b s)) \<Longrightarrow> stays ((case p of (a, b) \<Rightarrow> l a b) s)"
  "stays (q a) \<Longrightarrow> stays (let x = a in q x)"
  by (cases z; cases p; simp)+

lemma stays_kfor [stay]: "(\<And>i t. stays (f i t)) \<Longrightarrow> stays (kfor is f s)"
  by (induction "is" arbitrary: s) (simp_all add: stays_def stays_kbind [unfolded stays_def])

lemma stays_page_remove [stay]: "stays (page_remove pud va s)"
proof -
  have [stay]: "stays (walk_level t i False s)" for t i s by (simp add: stays_def walk_level_def Let_def)
  have [stay]: "stays (pgdir_walk pud va False s)" for s
    unfolding pgdir_walk_def by (intro stay stays_kbind)
  have [stay]: "stays (pa2page a s)" for a s unfolding pa2page_def by (intro stay)
  have [stay]: "stays (page_lookup pud va s)" for s
    unfolding page_lookup_def by (intro stay stays_kbind)
  have [stay]: "stays (page_free a s)" for a s unfolding page_free_def by (intro stay)
  show ?thesis unfolding page_remove_def by (intro stay stays_kbind)
qed

lemma stays_free_puds: "stays (free_puds e s)"
  unfolding free_puds_def free_pmds_def free_ptes_def by (intro stay stays_kbind)

lemma getenvid_stub: "syscall_getenvid tf s = sys_getenvid (s\<lparr>kernel_tf := tf\<rparr>)"
  using msyscall_fun [where k = 1] by (simp add: syscall_getenvid_def SYS_defs sys_call_table_def)

lemma recv_stub: "ipc_recv tf va s = kbind (sys_ipc_recv va) (\<lambda>_. ipc_received) (s\<lparr>kernel_tf := tf\<rparr>)"
proof -
  have "syscall_ipc_recv tf va s = sys_ipc_recv va (s\<lparr>kernel_tf := tf\<rparr>)" for s
    using msyscall_fun [where k = 13] by (simp add: syscall_ipc_recv_def SYS_defs sys_call_table_def as_void_ret_void)
  then show ?thesis by (simp add: ipc_recv_def kbind_def)
qed

lemma destroy_stub: "syscall_env_destroy tf i s = kbind (sys_env_destroy i) (\<lambda>_. kret ()) (s\<lparr>kernel_tf := tf\<rparr>)"
  using msyscall_fun [where k = 3] by (simp add: syscall_env_destroy_def SYS_defs sys_call_table_def as_void_ret_int)

text \<open>Waiting for a message: off the list, then a switch.\<close>

lemma recv_leaves:
  assumes c: "curenv s = Some c" and r: "ipc_recv tf 0 s = (Inl Enter_user, s')"
  shows "\<exists>s0 q. sched_yield s0 = (Inl Enter_user, s') \<and> LIST_REMOVE (sched_q s) c = Some q \<and> sched_q s0 = q \<and>
    cur_sched s0 = cur_sched s \<and> envs s0 = (envs s)(c := (envs s c)\<lparr>env_status := ENV_NOT_RUNNABLE, env_ipc_recving := 1, env_ipc_dstva := 0\<rparr>)"
proof -
  have u: "\<not> UTOP \<le> 0" by (simp add: UTOP_def)
  have n: "fst (sched_yield t) \<noteq> Inr x" for t x
    by (cases "sched_search (envs t) (sched_pos t)") (simp_all add: sched_yield_def env_run_def Let_def)
  have "fst (sys_ipc_recv 0 (s\<lparr>kernel_tf := tf\<rparr>)) \<noteq> Inr x" for x
    using u by (simp add: sys_ipc_recv_def Let_def n split: option.split)
  then have "sys_ipc_recv 0 (s\<lparr>kernel_tf := tf\<rparr>) = (Inl Enter_user, s')"
    using r by (auto simp: recv_stub kbind_def split: prod.splits sum.splits)
  then obtain q where q: "LIST_REMOVE (sched_q s) c = Some q"
    and y: "sched_yield ((env_upd c (\<lambda>x. x\<lparr>env_status := ENV_NOT_RUNNABLE, env_ipc_recving := 1, env_ipc_dstva := 0\<rparr>) (s\<lparr>kernel_tf := tf\<rparr>))
      \<lparr>sched_q := q, remaining_time := 0, timestack_tf := tf\<rparr>) = (Inl Enter_user, s')"
    using c u by (auto simp: sys_ipc_recv_def Let_def env_upd_def split: option.splits)
  show ?thesis by (intro exI conjI, rule y, rule q) (simp_all add: env_upd_def)
qed

text \<open>An environment that destroys itself: its slot is free, and it is off the list.\<close>

lemma destroy_leaves:
  assumes c: "curenv s = Some c" "ENVX (env_id (envs s c)) = c" "env_id (envs s c) \<noteq> 0" "env_status (envs s c) \<noteq> ENV_FREE"
    and r: "syscall_env_destroy tf (env_id (envs s c)) s = (Inl Enter_user, s')"
  shows "\<exists>s0 q. sched_yield s0 = (Inl Enter_user, s') \<and> LIST_REMOVE (sched_q s) c = Some q \<and> sched_q s0 = q \<and>
    cur_sched s0 = cur_sched s \<and> envs s0 = (envs s)(c := (envs s c)\<lparr>env_pgdir := 0, env_status := ENV_FREE\<rparr>)"
proof -
  let ?t = "s\<lparr>kernel_tf := tf\<rparr>"
  let ?u = "kprintf (''[%08x] free env %08x'' @ [CHR 0x0A]) [VA_num (env_id (envs s c)), VA_num (env_id (envs s c))]
    (kprintf (''[%08x] destroying %08x'' @ [CHR 0x0A]) [VA_num (env_id (envs s c)), VA_num (env_id (envs s c))] ?t)"
  have "envid2env (env_id (envs s c)) True ?t = (Inr (0, Some c), ?t)" using c by (simp add: envid2env_def)
  then have "kbind (env_destroy c) (\<lambda>_. kret 0)
      (kprintf (''[%08x] destroying %08x'' @ [CHR 0x0A]) [VA_num (env_id (envs s c)), VA_num (env_id (envs s c))] ?t) = (Inl Enter_user, s')"
    using r c(1) by (auto simp: destroy_stub sys_env_destroy_def kbind_def split: prod.splits sum.splits)
  then have d: "env_destroy c (kprintf (''[%08x] destroying %08x'' @ [CHR 0x0A])
      [VA_num (env_id (envs s c)), VA_num (env_id (envs s c))] ?t) = (Inl Enter_user, s')"
    by (auto simp: kbind_def split: prod.splits sum.splits)
  obtain x u where u: "free_puds c ?u = (x, u)" by (cases "free_puds c ?u")
  have x: "x \<noteq> Inl Enter_user" using stays_free_puds [of c ?u] u by (simp add: stays_def)
  have "rest u = rest ?u" using rest_free_puds [of c ?u] u by simp
  then have "rest u = rest ?t" by (simp add: kprintf_eq)
  note f = rest_fields [OF this]
  obtain q where q: "LIST_REMOVE (sched_q s) c = Some q"
    and y: "sched_yield (kprintf (''i am killed ... '' @ [CHR 0x0A]) []
      ((env_upd c (\<lambda>x. x\<lparr>env_pgdir := 0, env_status := ENV_FREE\<rparr>) u)\<lparr>env_q := LIST_INSERT_HEAD (env_q u) () c, sched_q := q,
        curenv := None, timestack_tf := kernel_tf u\<rparr>)\<lparr>remaining_time := 0\<rparr>) = (Inl Enter_user, s')"
    using d u x c(1) f
    by (auto simp: env_destroy_def env_free_def kbind_def Let_def env_upd_def kprintf_eq split: option.splits sum.splits)
  show ?thesis by (intro exI conjI, rule y, rule q) (simp_all add: env_upd_def kprintf_eq f)
qed

subsection \<open>The simulation\<close>

lemma task_local:
  "envs s' e = envs s e \<Longrightarrow> task_ok P s' e t = task_ok P s e t"
  "envs s' e = envs s e \<Longrightarrow> task_point P s' e t = task_point P s e t"
  by (cases t; simp add: waiting_def split: act.split)+

lemma tasksD:
  assumes "tasks_ok P s ts" and "ts e = Some t"
  shows "e < NENV" "ENVX (env_id (envs s e)) = e" "env_id (envs s e) \<noteq> 0" "task_ok P s e t"
  using assms by (simp_all add: tasks_ok_def)

lemma running_not_waiting: "env_status (envs s c) = ENV_RUNNABLE \<Longrightarrow> \<not> waiting s c"
  by (simp add: waiting_def ENV_RUNNABLE_def ENV_NOT_RUNNABLE_def)

text \<open>One environment changes its status: leaving the list, and coming back to it.\<close>

lemma tasks_upd:
  assumes ok: "tasks_ok P s ts" and e: "envs s' = (envs s)(e := x)" "env_id x = env_id (envs s e)" "ts e \<noteq> None"
    and t: "t = None \<Longrightarrow> env_status x = ENV_FREE" "\<And>u. t = Some u \<Longrightarrow> task_ok P s' e u"
  shows "tasks_ok P s' (ts(e := t))"
proof -
  have "envs s' y = envs s y" if "y \<noteq> e" for y using that e(1) by simp
  then have o: "task_ok P s' y u = task_ok P s y u" if "y \<noteq> e" for y u using that by (intro task_local)
  show ?thesis using ok e t o unfolding tasks_ok_def by (auto split: if_splits)
qed

lemma off_list:
  assumes ok: "sched_ok s ts" and c: "ts c \<noteq> None" "env_status (envs s c) = ENV_RUNNABLE" "LIST_REMOVE (sched_q s) c = Some q"
    and s0: "sched_q s0 = q" "cur_sched s0 = cur_sched s" "envs s0 = (envs s)(c := x)" "env_status x \<noteq> ENV_RUNNABLE"
  shows "sched_ok s0 (ts(c := t))"
proof -
  from ok obtain ys where ys: "lst (sched_q s) (cur_sched s) ys" "set ys = {e. ts e \<noteq> None \<and> env_status (envs s e) = ENV_RUNNABLE}"
    by (auto simp: sched_ok_def)
  then have "c \<in> set ys" using c(1,2) by simp
  from il.rep_remove1 [OF ys(1) this] c(3) s0(1,2) have "lst (sched_q s0) (cur_sched s0) (remove1 c ys)" by auto
  moreover have "set (remove1 c ys) = {e. (ts(c := t)) e \<noteq> None \<and> env_status (envs s0 e) = ENV_RUNNABLE}"
    using lst_distinct [OF ys(1)] ys(2) s0(3,4) by auto
  ultimately show ?thesis unfolding sched_ok_def by blast
qed

lemma on_list:
  assumes ok: "sched_ok s ts" and d: "ts d \<noteq> None" "env_status (envs s d) \<noteq> ENV_RUNNABLE"
    and s': "sched_q s' = LIST_INSERT_HEAD (sched_q s) (cur_sched s) d" "cur_sched s' = cur_sched s"
      "envs s' = (envs s)(d := x)" "env_status x = ENV_RUNNABLE"
  shows "sched_ok s' ts"
proof -
  from ok obtain ys where ys: "lst (sched_q s) (cur_sched s) ys" "set ys = {e. ts e \<noteq> None \<and> env_status (envs s e) = ENV_RUNNABLE}"
    by (auto simp: sched_ok_def)
  then have "d \<notin> set ys" using d(2) by simp
  from lst_insert_head [OF ys(1) this] have "lst (sched_q s') (cur_sched s') (d # ys)" using s'(1,2) by simp
  moreover have "set (d # ys) = {e. ts e \<noteq> None \<and> env_status (envs s' e) = ENV_RUNNABLE}"
    using ys(2) d(1) s'(3,4) by auto
  ultimately show ?thesis unfolding sched_ok_def by blast
qed

text \<open>The program of the running environment moves on, without the kernel.\<close>

lemma local_ok:
  assumes ok: "machine_ok P (s, ts, vs)" and c: "curenv s = Some c" "ts c = Some u" and u': "task_ok P s c u'"
    and s': "envs s' = envs s" "sched_q s' = sched_q s" "cur_sched s' = cur_sched s" "curenv s' = curenv s"
  shows "machine_ok P (s', ts(c \<mapsto> u'), vs')"
    "world_of P (s', ts(c \<mapsto> u'), vs') = ((fst (world_of P (s, ts, vs)))(env_id (envs s c) \<mapsto> task_point P s c u'), vs')"
proof -
  from ok c have st: "env_status (envs s c) = ENV_RUNNABLE" by (auto simp: machine_ok_def running_ok_def)
  have t: "tasks_ok P s ts" using ok by (simp add: machine_ok_def)
  have e: "envs s' x = envs s x" for x using s'(1) by simp
  note l = task_local [OF e]
  have o: "task_ok P s' c u'" using u' by (simp only: l(1))
  have "tasks_ok P s' (ts(c \<mapsto> u'))"
    by (rule tasks_upd [OF t, where x = "envs s c"]) (use o in \<open>simp_all add: s' c\<close>)
  moreover have "{e. (ts(c \<mapsto> u')) e \<noteq> None \<and> env_status (envs s' e) = ENV_RUNNABLE} =
      {e. ts e \<noteq> None \<and> env_status (envs s e) = ENV_RUNNABLE}" using c e by auto
  then have "sched_ok s' (ts(c \<mapsto> u'))" using ok s'(2,3) unfolding machine_ok_def sched_ok_def by simp
  moreover have "running_ok s' (ts(c \<mapsto> u'))" using c st s' by (simp add: running_ok_def)
  ultimately show "machine_ok P (s', ts(c \<mapsto> u'), vs')" by (simp add: machine_ok_def)
  have "fst (world_of P (s', ts(c \<mapsto> u'), vs)) =
      (fst (world_of P (s, ts, vs)))(env_id (envs s c) := map_option (task_point P s' c) (Some u'))"
  proof (rule world_upd)
    show "ENVX (env_id (envs s c)) = c" by (rule tasksD(2) [OF t c(2)])
    show "env_id (envs s' x) = env_id (envs s x)" for x by (simp only: e)
    show "task_point P s' x u = task_point P s x u" for x u by (rule l(2))
  qed
  then show "world_of P (s', ts(c \<mapsto> u'), vs') = ((fst (world_of P (s, ts, vs)))(env_id (envs s c) \<mapsto> task_point P s c u'), vs')"
    by (simp only: world_pair [of P s' "ts(c \<mapsto> u')" vs' vs] option.map l(2))
qed

lemma move_ok:
  assumes ok: "machine_ok P (s, ts, vs)" and c: "curenv s = Some c" "ts c = Some u"
    and s': "envs s' = envs s" "sched_q s' = sched_q s" "cur_sched s' = cur_sched s" "curenv s' = curenv s"
  shows "machine_ok P (s', ts(c \<mapsto> At q), vs')"
    "world_of P (s', ts(c \<mapsto> At q), vs') = ((fst (world_of P (s, ts, vs)))(env_id (envs s c) \<mapsto> q), vs')"
proof -
  have "task_ok P s c (At q)" using ok c by (auto simp: machine_ok_def running_ok_def)
  from local_ok [OF ok c this s', of vs'] show "machine_ok P (s', ts(c \<mapsto> At q), vs')"
    "world_of P (s', ts(c \<mapsto> At q), vs') = ((fst (world_of P (s, ts, vs)))(env_id (envs s c) \<mapsto> q), vs')" by simp_all
qed

text \<open>And one that stays at its point changes nothing of the abstraction.\<close>

lemma stay_ok:
  assumes ok: "machine_ok P (s, ts, vs)" and c: "curenv s = Some c" "ts c = Some u" and u': "task_ok P s c u'"
    and p: "task_point P s c u' = task_point P s c u"
    and s': "envs s' = envs s" "sched_q s' = sched_q s" "cur_sched s' = cur_sched s" "curenv s' = curenv s"
  shows "machine_ok P (s', ts(c \<mapsto> u'), vs)" "world_of P (s', ts(c \<mapsto> u'), vs) = world_of P (s, ts, vs)"
proof -
  have t: "tasks_ok P s ts" using ok by (simp add: machine_ok_def)
  note l = local_ok [OF ok c u' s', of vs]
  show "machine_ok P (s', ts(c \<mapsto> u'), vs)" by (rule l(1))
  show "world_of P (s', ts(c \<mapsto> u'), vs) = world_of P (s, ts, vs)"
    unfolding l(2) using world_own [OF t c(2)] p by (intro prod_eqI) (simp_all add: fun_upd_idem world_snd)
qed

text \<open>A message: the receiver's point and the sender's change together.\<close>

lemma send_ok:
  assumes ok: "machine_ok P (s, ts, vs)" and c: "curenv s = Some c" "ts c = Some (At p)" "P p = Ipc_send w v q"
    and r: "syscall_ipc_can_send tf w v 0 0 s = (Inr 0, s')"
  shows "machine_ok P (s', ts(c \<mapsto> At q), vs @ [v])"
    "wstep P (world_of P (s, ts, vs)) (world_of P (s', ts(c \<mapsto> At q), vs @ [v]))"
proof -
  have t: "tasks_ok P s ts" and st: "env_status (envs s c) = ENV_RUNNABLE"
    using ok c by (auto simp: machine_ok_def running_ok_def)
  let ?d = "ENVX w"
  let ?x = "(envs s ?d)\<lparr>env_ipc_value := v, env_ipc_from := env_id (envs s c), env_ipc_perm := 0, env_ipc_recving := 0,
    env_status := ENV_RUNNABLE\<rparr>"
  from r [unfolded can_send_cases(1) [OF c(1) running_not_waiting [OF st]]]
  have w: "w \<noteq> 0" "env_id (envs s ?d) = w" "waiting s ?d"
    and s': "s' = s\<lparr>kernel_tf := tf, envs := (envs s)(?d := ?x), sched_q := LIST_INSERT_HEAD (sched_q s) (cur_sched s) ?d\<rparr>" by blast+
  have dc: "?d \<noteq> c" using w(3) running_not_waiting [OF st] by auto
  have wd: "env_status (envs s ?d) \<noteq> ENV_FREE" "env_status (envs s ?d) \<noteq> ENV_RUNNABLE"
    using w(3) by (auto simp: waiting_def ENV_FREE_def ENV_NOT_RUNNABLE_def ENV_RUNNABLE_def)
  then obtain u where u: "ts ?d = Some u" using t ENVX_less [of w] by (fastforce simp: tasks_ok_def)
  from tasksD(4) [OF t u] wd(2) obtain p2 k where p2: "u = Receiving p2" "P p2 = Ipc_recv k" by (cases u) auto
  have e': "envs s' = (envs s)(?d := ?x)" "curenv s' = Some c" "sched_q s' = LIST_INSERT_HEAD (sched_q s) (cur_sched s) ?d"
    "cur_sched s' = cur_sched s" using s' c(1) by simp_all
  have nw: "\<not> waiting s' ?d" by (simp add: waiting_def e' ENV_RUNNABLE_def ENV_NOT_RUNNABLE_def)
  have "tasks_ok P s' (ts(?d := ts ?d))"
    by (rule tasks_upd [OF t e'(1)]) (simp_all add: u p2 e')
  then have t': "tasks_ok P s' ts" by simp
  have "sched_ok s' ts"
    by (rule on_list [OF _ _ wd(2) e'(3,4,1)]) (use ok u in \<open>simp_all add: machine_ok_def\<close>)
  moreover have "running_ok s' ts" using c st dc e' by (simp add: running_ok_def)
  ultimately have m: "machine_ok P (s', ts, vs)" using t' by (simp add: machine_ok_def)
  from move_ok [OF m e'(2) c(2), of s' q "vs @ [v]"]
  show "machine_ok P (s', ts(c \<mapsto> At q), vs @ [v])" by simp
  have "fst (world_of P (s', ts(?d := ts ?d), vs)) =
      (fst (world_of P (s, ts, vs)))(env_id (envs s ?d) := map_option (task_point P s' ?d) (ts ?d))"
  proof (rule world_upd)
    show "ENVX (env_id (envs s ?d)) = ?d" by (simp add: w(2))
    show "env_id (envs s' x) = env_id (envs s x)" for x by (simp add: e')
    show "x \<noteq> ?d \<Longrightarrow> task_point P s' x y = task_point P s x y" for x y by (rule task_local) (simp add: e')
  qed
  then have 1: "fst (world_of P (s', ts, vs)) = (fst (world_of P (s, ts, vs)))(w \<mapsto> k (env_id (envs s c)) v)"
    using u p2 nw w(2) unfolding fun_upd_triv by (simp add: e')
  have "env_id (envs s' c) = env_id (envs s c)" using dc by (simp add: e')
  with move_ok(2) [OF m e'(2) c(2), of s' q "vs @ [v]"] 1
  have 2: "world_of P (s', ts(c \<mapsto> At q), vs @ [v]) =
      ((fst (world_of P (s, ts, vs)))(w \<mapsto> k (env_id (envs s c)) v, env_id (envs s c) \<mapsto> q), vs @ [v])" by simp
  have ne: "w \<noteq> env_id (envs s c)" using dc tasksD(2) [OF t c(2)] by auto
  have own: "fst (world_of P (s, ts, vs)) (env_id (envs s c)) = Some p" "fst (world_of P (s, ts, vs)) w = Some p2"
    using world_own [OF t c(2)] world_own [OF t u] w(2,3) p2 by simp_all
  have "world_of P (s, ts, vs) = (fst (world_of P (s, ts, vs)), vs)" by (simp add: world_of_def)
  then show "wstep P (world_of P (s, ts, vs)) (world_of P (s', ts(c \<mapsto> At q), vs @ [v]))"
    unfolding 2 using wstep.message [OF own(1) c(3) ne own(2) p2(2), of vs] fun_upd_twist [OF ne] by metis
qed

text \<open>Waiting: the point stays where it is.\<close>

lemma recv_ok:
  assumes ok: "machine_ok P (s, ts, vs)" and c: "curenv s = Some c" "ts c = Some (At p)" "P p = Ipc_recv k"
    and r: "ipc_recv tf 0 s = (Inl Enter_user, s')"
  shows "machine_ok P (s', ts(c \<mapsto> Receiving p), vs)" "world_of P (s', ts(c \<mapsto> Receiving p), vs) = world_of P (s, ts, vs)"
proof -
  have t: "tasks_ok P s ts" and st: "env_status (envs s c) = ENV_RUNNABLE"
    using ok c by (auto simp: machine_ok_def running_ok_def)
  from recv_leaves [OF c(1) r] obtain s0 q where y: "sched_yield s0 = (Inl Enter_user, s')" and q: "LIST_REMOVE (sched_q s) c = Some q"
    "sched_q s0 = q" "cur_sched s0 = cur_sched s"
    and e: "envs s0 = (envs s)(c := (envs s c)\<lparr>env_status := ENV_NOT_RUNNABLE, env_ipc_recving := 1, env_ipc_dstva := 0\<rparr>)" by blast
  have wt: "waiting s0 c" by (simp add: e waiting_def)
  have t0: "tasks_ok P s0 (ts(c \<mapsto> Receiving p))" by (rule tasks_upd [OF t e]) (simp_all add: c wt)
  have "sched_ok s0 (ts(c \<mapsto> Receiving p))"
    by (rule off_list [OF _ _ st q(1,2,3) e]) (use ok c in \<open>simp_all add: machine_ok_def ENV_RUNNABLE_def ENV_NOT_RUNNABLE_def\<close>)
  note sw = switch_ok [OF y t0 this, of vs]
  show "machine_ok P (s', ts(c \<mapsto> Receiving p), vs)" by (rule sw(1))
  have "fst (world_of P (s0, ts(c \<mapsto> Receiving p), vs)) =
      (fst (world_of P (s, ts, vs)))(env_id (envs s c) := map_option (task_point P s0 c) (Some (Receiving p)))"
  proof (rule world_upd)
    show "ENVX (env_id (envs s c)) = c" by (rule tasksD(2) [OF t c(2)])
    show "env_id (envs s0 x) = env_id (envs s x)" for x by (simp add: e)
    show "x \<noteq> c \<Longrightarrow> task_point P s0 x y = task_point P s x y" for x y by (rule task_local) (simp add: e)
  qed
  moreover have "fst (world_of P (s, ts, vs)) (env_id (envs s c)) = Some p"
    using world_own [OF t c(2)] by simp
  ultimately have "fst (world_of P (s0, ts(c \<mapsto> Receiving p), vs)) = fst (world_of P (s, ts, vs))" using wt by (simp add: fun_upd_idem)
  then show "world_of P (s', ts(c \<mapsto> Receiving p), vs) = world_of P (s, ts, vs)" unfolding sw(2) by (simp add: world_of_def)
qed

lemma destroy_ok:
  assumes ok: "machine_ok P (s, ts, vs)" and c: "curenv s = Some c" "ts c = Some (At p)" "P p = Env_destroy (env_id (envs s c)) q"
    and r: "syscall_env_destroy tf (env_id (envs s c)) s = (Inl Enter_user, s')"
  shows "machine_ok P (s', ts(c := None), vs)" "wstep P (world_of P (s, ts, vs)) (world_of P (s', ts(c := None), vs))"
proof -
  have t: "tasks_ok P s ts" and st: "env_status (envs s c) = ENV_RUNNABLE"
    using ok c by (auto simp: machine_ok_def running_ok_def)
  have nf: "env_status (envs s c) \<noteq> ENV_FREE" using st by (simp add: ENV_RUNNABLE_def ENV_FREE_def)
  from destroy_leaves [OF c(1) tasksD(2,3) [OF t c(2)] nf r] obtain s0 q where y: "sched_yield s0 = (Inl Enter_user, s')"
    and q: "LIST_REMOVE (sched_q s) c = Some q" "sched_q s0 = q" "cur_sched s0 = cur_sched s"
    and e: "envs s0 = (envs s)(c := (envs s c)\<lparr>env_pgdir := 0, env_status := ENV_FREE\<rparr>)" by blast
  have t0: "tasks_ok P s0 (ts(c := None))" by (rule tasks_upd [OF t e]) (simp_all add: c)
  have "sched_ok s0 (ts(c := None))"
    by (rule off_list [OF _ _ st q(1,2,3) e]) (use ok c in \<open>simp_all add: machine_ok_def ENV_RUNNABLE_def ENV_FREE_def\<close>)
  note sw = switch_ok [OF y t0 this, of vs]
  show "machine_ok P (s', ts(c := None), vs)" by (rule sw(1))
  have "fst (world_of P (s0, ts(c := None), vs)) =
      (fst (world_of P (s, ts, vs)))(env_id (envs s c) := map_option (task_point P s0 c) None)"
  proof (rule world_upd)
    show "ENVX (env_id (envs s c)) = c" by (rule tasksD(2) [OF t c(2)])
    show "env_id (envs s0 x) = env_id (envs s x)" for x by (simp add: e)
    show "x \<noteq> c \<Longrightarrow> task_point P s0 x y = task_point P s x y" for x y by (rule task_local) (simp add: e)
  qed
  then have 1: "world_of P (s', ts(c := None), vs) = ((fst (world_of P (s, ts, vs)))(env_id (envs s c) := None), vs)"
    unfolding sw(2) by (intro prod_eqI) (simp_all add: world_snd)
  have own: "fst (world_of P (s, ts, vs)) (env_id (envs s c)) = Some p" using world_own [OF t c(2)] by simp
  have "wstep P (fst (world_of P (s, ts, vs)), vs) ((fst (world_of P (s, ts, vs)))(env_id (envs s c) := None), vs)"
    using own c(3) by (rule wstep.destroy)
  then show "wstep P (world_of P (s, ts, vs)) (world_of P (s', ts(c := None), vs))"
    by (simp only: 1 world_pair [of P s ts vs vs, symmetric])
qed

text \<open>A switch of a state that differs from \<open>s\<close> only where programs do not look.\<close>

lemma away_ok:
  assumes ok: "machine_ok P (s, ts, vs)" and y: "sched_yield s0 = (Inl Enter_user, s')"
    and s0: "envs s0 = envs s" "sched_q s0 = sched_q s" "cur_sched s0 = cur_sched s"
  shows "machine_ok P (s', ts, vs)" "world_of P (s', ts, vs) = world_of P (s, ts, vs)"
proof -
  have c: "same_comm s s0" by (simp add: same_comm_def s0(1))
  have "tasks_ok P s0 ts" "sched_ok s0 ts"
    using ok same_comm_ok [OF c, of P ts] same_comm_sched [OF c s0(2,3), of ts] by (simp_all add: machine_ok_def)
  from switch_ok [OF y this, of vs]
  show "machine_ok P (s', ts, vs)" "world_of P (s', ts, vs) = world_of P (s, ts, vs)"
    using same_comm_world [OF c, of P ts vs] by simp_all
qed

lemma pstep_ok:
  assumes "pstep P m m'" and "machine_ok P m"
  shows "machine_ok P m' \<and> (world_of P m' = world_of P m \<or> wstep P (world_of P m) (world_of P m'))"
  using assms(1)
proof (cases rule: pstep.cases)
  case (print s c ts p f a q vs)
  have ok: "machine_ok P (s, ts, vs)" and t: "tasks_ok P s ts" using assms(2) print(1) by (simp_all add: machine_ok_def)
  have "fst (world_of P m) (env_id (envs s c)) = Some p" using world_own [OF t print(4)] print(1) by simp
  then have "wstep P (fst (world_of P m), vs) ((fst (world_of P m))(env_id (envs s c) \<mapsto> q), vs)"
    using print(5) by (rule wstep.print)
  then show ?thesis using move_ok [OF ok print(3,4), of "kprintf f a s" q vs] print(1,2)
    by (simp add: kprintf_eq world_pair [of P s ts vs vs, symmetric])
next
  case (getenvid s c ts p k tf i s' vs)
  have ok: "machine_ok P (s, ts, vs)" and t: "tasks_ok P s ts" using assms(2) getenvid(1) by (simp_all add: machine_ok_def)
  have i: "i = env_id (envs s c)" "s' = s\<lparr>kernel_tf := tf\<rparr>" using getenvid(3,6) by (simp_all add: getenvid_stub sys_getenvid_def)
  have "fst (world_of P m) i = Some p" using world_own [OF t getenvid(4)] getenvid(1) i by simp
  then have "wstep P (fst (world_of P m), vs) ((fst (world_of P m))(i \<mapsto> k i), vs)"
    using getenvid(5) by (rule wstep.getenvid)
  then show ?thesis using move_ok [OF ok getenvid(3,4), of s' "k i" vs] getenvid(1,2) i by (simp add: world_pair [of P s ts vs vs, symmetric])
next
  case (send s c ts p w v q tf s' vs)
  then show ?thesis using send_ok [of P s ts vs c p w v q tf s'] assms(2) by simp
next
  case (refused s c ts p w v q tf s' vs)
  then have ok: "machine_ok P (s, ts, vs)" and st: "env_status (envs s c) = ENV_RUNNABLE"
    using assms(2) by (auto simp: machine_ok_def running_ok_def)
  from refused(6) have s': "s' = s\<lparr>kernel_tf := tf\<rparr>"
    unfolding can_send_cases(2) [OF refused(3) running_not_waiting [OF st]] by blast
  show ?thesis using stay_ok [OF ok refused(3,4), of "Refused p" s'] refused(1,2,5) st s' by simp
next
  case (again s c ts p tf s' vs)
  then have ok: "machine_ok P (s, ts, vs)" and st: "env_status (envs s c) = ENV_RUNNABLE"
    using assms(2) by (auto simp: machine_ok_def running_ok_def)
  from stay_ok [OF ok again(3,4), of "At p" s] st
  have k: "machine_ok P (s, ts(c \<mapsto> At p), vs)" "world_of P (s, ts(c \<mapsto> At p), vs) = world_of P (s, ts, vs)" by simp_all
  show ?thesis using away_ok [OF k(1) again(5) [unfolded yield_eq]] k(2) again(1,2) by simp
next
  case (recv s c ts p k tf s' vs)
  then show ?thesis using recv_ok [of P s ts vs c p k tf s'] assms(2) by simp
next
  case (received s c ts p k who perm v s' vs)
  then have ok: "machine_ok P (s, ts, vs)" and t: "tasks_ok P s ts" and "env_status (envs s c) = ENV_RUNNABLE"
    using assms(2) by (auto simp: machine_ok_def running_ok_def)
  then have nw: "\<not> waiting s c" by (intro running_not_waiting)
  have v: "who = env_ipc_from (envs s c)" "v = env_ipc_value (envs s c)" "s' = s"
    using received(3,6) by (auto simp: ipc_received_def)
  have "fst (world_of P m) (env_id (envs s c)) = Some (k who v)"
    using world_own [OF t received(4)] received(1,5) nw v by simp
  then show ?thesis using move_ok [OF ok received(3,4), of s' "k who v" vs] received(1,2) v
    by (simp add: fun_upd_idem world_pair [of P s ts vs vs, symmetric])
next
  case (destroy s c ts p i q tf s' vs)
  then show ?thesis using destroy_ok [of P s ts vs c p q tf s'] assms(2) by simp
qed

lemma mstep_ok:
  assumes "mstep P m m'" and "machine_ok P m"
  shows "machine_ok P m' \<and> (world_of P m' = world_of P m \<or> wstep P (world_of P m) (world_of P m'))"
  using assms(1)
proof (cases rule: mstep.cases)
  case program
  then show ?thesis using pstep_ok assms(2) by blast
next
  case (compute s ts vs mm)
  have c: "same_comm s (s\<lparr>mem := mm\<rparr>)" by (simp add: same_comm_def)
  have "machine_ok P m'"
    using assms(2) same_comm_ok [OF c, of P ts] same_comm_sched [OF c, of ts] unfolding compute
    by (simp add: machine_ok_def running_ok_def)
  then show ?thesis using same_comm_world [OF c, of P ts vs] compute by simp
next
  case (timer tf s s' ts vs)
  then show ?thesis using away_ok [of P s ts vs "log Ev_timer (s\<lparr>timestack_tf := tf\<rparr>)" s'] assms(2)
    by (simp add: handle_irq_def)
qed

interpretation programs: simulation "mstep P" "wstep P" "world_of P" "machine_ok P" for P :: "'p \<Rightarrow> 'p act"
  by unfold_locales (use mstep_ok in blast)+


text \<open>C5: the programs on the kernel refine the programs of \<open>User_Programs\<close>. From a machine in order, whatever the programs do, wherever the
  timer interrupts, and with the scheduler, the loop of \<^verbatim>\<open>ipc_send\<close>, \<^verbatim>\<open>ipc_recv\<close> and
  \<^verbatim>\<open>syscall_env_destroy\<close> as the code has them, the machine stays in order, and what the programs have done and received is an
  execution in which a message is one step.\<close>

theorem programs_refine:
  assumes "machine_ok P m0" and "(mstep P)\<^sup>*\<^sup>* m0 m"
  shows "machine_ok P m \<and> wreach P (world_of P m0) (world_of P m)"
  using programs.run_inv [OF assms(2,1)] wreach_rtranclp [OF programs.run [OF assms(2,1)]] by blast

text \<open>The environments 0 and 1 at the start of ping-pong; 0 runs.\<close>

definition game_state :: kstate where
  "game_state = reset_state\<lparr>curenv := Some 0, sched_q := LIST_INSERT_HEAD (LIST_INSERT_HEAD no_lists 0 0) 0 1,
     envs := (envs reset_state)(0 := reset_env\<lparr>env_id := 0x800, env_status := 1\<rparr>, 1 := reset_env\<lparr>env_id := 0x1001, env_status := 1\<rparr>)\<rparr>"

definition game_tasks :: "u64 \<Rightarrow> pingpong task option" where
  "game_tasks = (\<lambda>_. None)(0 \<mapsto> At PP_start, 1 \<mapsto> At PP_start)"

lemma game_machine:
  "machine_ok user_main_pingpong (game_state, game_tasks, [])" "world_of user_main_pingpong (game_state, game_tasks, []) = game_start"
  "curenv game_state = Some 0" "game_tasks 0 = Some (At PP_start)" "env_id (envs game_state 0) = 0x800"
proof -
  have e: "env_id (envs game_state e) = (if e = 1 then 0x1001 else if e = 0 then 0x800 else 0)"
    "env_status (envs game_state e) = (if e = 0 \<or> e = 1 then 1 else 0)" for e
    by (simp_all add: game_state_def reset_state_def reset_env_def)
  have q: "lst (sched_q game_state) (cur_sched game_state) [1, 0]"
    using lst_insert_head [OF lst_insert_head [of no_lists 0 "[]" "0 :: u64"], of 1] by (simp add: game_state_def reset_state_def)
  show c: "curenv game_state = Some 0" "game_tasks 0 = Some (At PP_start)" "env_id (envs game_state 0) = 0x800"
    by (simp_all add: game_state_def game_tasks_def)
  have "{e. game_tasks e \<noteq> None \<and> env_status (envs game_state e) = ENV_RUNNABLE} = set [1, 0]"
    by (auto simp: game_tasks_def e ENV_RUNNABLE_def split: if_splits)
  then have "sched_ok game_state game_tasks" using q unfolding sched_ok_def by metis
  moreover have "tasks_ok user_main_pingpong game_state game_tasks"
    by (auto simp: tasks_ok_def game_tasks_def e ENV_RUNNABLE_def ENV_FREE_def NENV_def ENVX_def)
  moreover have "running_ok game_state game_tasks" using c by (simp add: running_ok_def e ENV_RUNNABLE_def)
  ultimately show "machine_ok user_main_pingpong (game_state, game_tasks, [])" by (simp add: machine_ok_def)
  have x: "ENVX 0x800 = 0" "ENVX 0x1001 = 1" by (simp_all add: ENVX_def NENV_def)
  have "fst (world_of user_main_pingpong (game_state, game_tasks, [])) i = fst game_start i" for i
    by (cases "i = 0x800"; cases "i = 0x1001") (simp_all add: world_of_def game_start_def game_tasks_def e x)
  then show "world_of user_main_pingpong (game_state, game_tasks, []) = game_start"
    by (intro prod_eqI ext) (simp_all add: world_snd game_start_def)
qed

lemma programs_refine_witness:
  "wreach user_main_pingpong game_start
    (world_of user_main_pingpong (game_state\<lparr>kernel_tf := reset_tf\<rparr>, game_tasks(0 \<mapsto> At (PP_announce 0x800 0x1001 0)), []))"
proof -
  have "pstep user_main_pingpong (game_state, game_tasks, [])
      (game_state\<lparr>kernel_tf := reset_tf\<rparr>, game_tasks(0 \<mapsto> At ((\<lambda>me. if me = 0x800 then PP_announce me 0x1001 0 else PP_loop me) 0x800)), [])"
    by (rule pstep.getenvid [where c = 0 and ts = game_tasks and p = PP_start and tf = reset_tf, OF game_machine(3,4)])
      (simp_all add: getenvid_stub sys_getenvid_def game_machine(3,5))
  then have "(mstep user_main_pingpong)\<^sup>*\<^sup>* (game_state, game_tasks, [])
      (game_state\<lparr>kernel_tf := reset_tf\<rparr>, game_tasks(0 \<mapsto> At (PP_announce 0x800 0x1001 0)), [])"
    by (intro r_into_rtranclp mstep.program) simp
  from programs_refine [OF game_machine(1) this] show ?thesis by (simp add: game_machine(2))
qed

subsection \<open>Progress\<close>

text \<open>What a player does next in a reachable game: its receiver exists, and while one waits the other does not.\<close>

fun next_ok :: "pingpong world \<Rightarrow> u64 \<Rightarrow> pingpong act \<Rightarrow> bool" where
  "next_ok w e (Printf _ _ _) = True"
| "next_ok w e (Getenvid _) = True"
| "next_ok w e (Ipc_send d v q) = (d \<noteq> 0 \<and> fst w d \<noteq> None)"
| "next_ok w e (Ipc_recv k) = (\<exists>d p. d \<noteq> e \<and> fst w d = Some p \<and> (\<forall>l. user_main_pingpong p \<noteq> Ipc_recv l))"
| "next_ok w e (Env_destroy i q) = (i = e \<and> length (snd w) = 11)"
| "next_ok w e _ = False"

lemma next_ok_sent:
  assumes "playing a b n (fst w)" and "fst w a = Some p" and "length (snd w) = Suc n"
  shows "next_ok w a (user_main_pingpong p)"
proof -
  have d: "a \<noteq> b" "Some p \<in> sent_points a n" "fst w b \<in> got_points b a n" using assms by (auto simp: playing_def)
  have "\<exists>q. fst w b = Some q \<and> (\<forall>l. user_main_pingpong q \<noteq> Ipc_recv l)" if "n \<noteq> 10"
    using d(3) that by (auto simp: got_points_def Let_def)
  then show ?thesis using d(1) assms(3) by (cases rule: sent_pointsE [OF d(2)]) (auto simp: eq_commute [of a b])
qed

lemma next_ok_got:
  assumes "playing a b n (fst w)" and "fst w b = Some p" and "length (snd w) = Suc n" and "a \<noteq> 0"
  shows "next_ok w b (user_main_pingpong p)"
proof -
  have d: "Some p \<in> got_points b a n" "fst w a \<in> sent_points a n" using assms by (auto simp: playing_def)
  have "fst w a \<noteq> None" if "n \<noteq> 10" using d(2) that by (auto simp: sent_points_def)
  then show ?thesis using assms(3,4) by (cases rule: got_pointsE [OF d(1)]) auto
qed

lemma game_next:
  assumes "game_ok w" and "fst w e = Some p"
  shows "next_ok w e (user_main_pingpong p)"
proof -
  obtain ps vs where w: "w = (ps, vs)" by (cases w)
  from assms(1) w consider (pre) "vs = []" "pre_game ps"
    | (play) n where "vs = map word_of_nat [0..<Suc n]" "case players n of (a, b) \<Rightarrow> playing a b n ps"
    by (auto simp: game_ok_def)
  then show ?thesis
  proof cases
    case pre
    then have "e = 0x800 \<or> e = 0x1001" using assms(2) w by (auto simp: pre_game_def)
    moreover have "next_ok w 0x1001 (Ipc_recv k)" for k
    proof -
      have "\<exists>q. ps 0x800 = Some q \<and> (\<forall>l. user_main_pingpong q \<noteq> Ipc_recv l)" using pre(2) by (auto simp: pre_game_def)
      then show ?thesis using w by (simp, intro exI [of _ "0x800"]) simp
    qed
    ultimately show ?thesis using assms(2) pre(2) w by (auto simp: pre_game_def simp del: next_ok.simps(4))
  next
    case play
    have "fst (players n) \<noteq> 0" by (simp add: players_def)
    then obtain a b where ab: "players n = (a, b)" "a \<noteq> 0" by (cases "players n") simp
    then have p: "playing a b n (fst w)" and l: "length (snd w) = Suc n" using play w by simp_all
    have "e = a \<or> e = b" using p assms(2) by (auto simp: playing_def)
    then show ?thesis using next_ok_sent [OF p _ l] next_ok_got [OF p _ l ab(2)] assms(2) by blast
  qed
qed

text \<open>Calls that return to a program.\<close>

lemma yield_proceeds:
  assumes "c < NENV" and "env_status (envs s c) = ENV_RUNNABLE"
  shows "\<exists>s'. sched_yield s = (Inl Enter_user, s')"
proof -
  have "runnable (envs s) (uint c)" using assms(2) by (simp add: runnable_def)
  moreover have "uint c < 1024" using assms(1) by (simp add: word_less_alt NENV_def)
  ultimately show ?thesis using sched_yield_runs [of s "uint c"] by (metis uint_ge_0)
qed

lemma recv_proceeds:
  assumes c: "curenv s = Some c" "LIST_REMOVE (sched_q s) c = Some q" and d: "d \<noteq> c" "d < NENV" "env_status (envs s d) = ENV_RUNNABLE"
  shows "\<exists>s'. ipc_recv tf 0 s = (Inl Enter_user, s')"
proof -
  let ?t = "(env_upd c (\<lambda>x. x\<lparr>env_status := ENV_NOT_RUNNABLE, env_ipc_recving := 1, env_ipc_dstva := 0\<rparr>) (s\<lparr>kernel_tf := tf\<rparr>))
      \<lparr>sched_q := q, remaining_time := 0, timestack_tf := tf\<rparr>"
  have u: "\<not> UTOP \<le> 0" by (simp add: UTOP_def)
  have "env_status (envs ?t d) = ENV_RUNNABLE" using d by (simp add: env_upd_def)
  from yield_proceeds [OF d(2) this] obtain s' where y: "sched_yield ?t = (Inl Enter_user, s')" by blast
  have "sys_ipc_recv 0 (s\<lparr>kernel_tf := tf\<rparr>) = sched_yield ?t"
    using c u by (simp add: sys_ipc_recv_def Let_def env_upd_def)
  then show ?thesis using y by (simp add: recv_stub kbind_def)
qed

lemma task_not_free: "tasks_ok P s ts \<Longrightarrow> ts e \<noteq> None \<Longrightarrow> env_status (envs s e) \<noteq> ENV_FREE"
proof -
  assume t: "tasks_ok P s ts" and "ts e \<noteq> None"
  then obtain u where u: "ts e = Some u" by auto
  show ?thesis using tasksD(4) [OF t u]
    by (cases u) (auto simp: waiting_def ENV_FREE_def ENV_RUNNABLE_def ENV_NOT_RUNNABLE_def)
qed

lemma point_runnable:
  assumes "task_ok P s e u" and "\<forall>k. P (task_point P s e u) \<noteq> Ipc_recv k"
  shows "env_status (envs s e) = ENV_RUNNABLE"
  using assms by (cases u) (auto split: if_splits)

text \<open>Of programs: a send to one that exists, and a receive while another one is not waiting.\<close>

lemma send_returns:
  assumes ok: "machine_ok P (s, ts, vs)" and c: "curenv s = Some c" and w: "w \<noteq> 0" "fst (world_of P (s, ts, vs)) w \<noteq> None"
  shows "\<exists>s'. syscall_ipc_can_send tf w v 0 0 s = (Inr 0, s') \<or> syscall_ipc_can_send tf w v 0 0 s = (Inr (- E_IPC_NOT_RECV), s')"
proof -
  have t: "tasks_ok P s ts" and st: "env_status (envs s c) = ENV_RUNNABLE"
    using ok c by (auto simp: machine_ok_def running_ok_def)
  have i: "env_id (envs s (ENVX w)) = w" "ts (ENVX w) \<noteq> None" using w(2) by (auto simp: world_of_def split: if_splits)
  show ?thesis unfolding can_send_cases [OF c running_not_waiting [OF st]] using w(1) i task_not_free [OF t i(2)] by blast
qed

lemma recv_waits:
  assumes ok: "machine_ok P (s, ts, vs)" and c: "curenv s = Some c"
    and d: "d \<noteq> env_id (envs s c)" "fst (world_of P (s, ts, vs)) d = Some p" "\<forall>l. P p \<noteq> Ipc_recv l"
  shows "\<exists>s'. ipc_recv tf 0 s = (Inl Enter_user, s')"
proof -
  have t: "tasks_ok P s ts" and st: "ts c \<noteq> None" "env_status (envs s c) = ENV_RUNNABLE"
    using ok c by (auto simp: machine_ok_def running_ok_def)
  from d(2) obtain u where u: "env_id (envs s (ENVX d)) = d" "ts (ENVX d) = Some u" "task_point P s (ENVX d) u = p"
    by (auto simp: world_of_def split: if_splits)
  have r: "env_status (envs s (ENVX d)) = ENV_RUNNABLE"
    by (rule point_runnable [OF tasksD(4) [OF t u(2)]]) (use u(3) d(3) in blast)
  from ok obtain ys where ys: "lst (sched_q s) (cur_sched s) ys" "set ys = {e. ts e \<noteq> None \<and> env_status (envs s e) = ENV_RUNNABLE}"
    unfolding machine_ok_def prod.case sched_ok_def by blast
  then have "c \<in> set ys" using st by simp
  from il.rep_remove1 [OF ys(1) this] obtain q where "LIST_REMOVE (sched_q s) c = Some q" by blast
  moreover have "ENVX d \<noteq> c" using u(1) d(1) by auto
  ultimately show ?thesis using recv_proceeds [OF c] r ENVX_less by blast
qed

text \<open>The running program makes a step when its next action is possible and does not end it.\<close>

lemma pstep_proceeds:
  assumes ok: "machine_ok user_main_pingpong (s, ts, vs)" and c: "curenv s = Some c" "ts c = Some t"
    and n: "next_ok (world_of user_main_pingpong (s, ts, vs)) (env_id (envs s c)) (user_main_pingpong (task_point user_main_pingpong s c t))"
    and e: "length vs \<noteq> 11"
  shows "\<exists>m'. pstep user_main_pingpong (s, ts, vs) m'"
proof -
  let ?P = user_main_pingpong and ?w = "world_of user_main_pingpong (s, ts, vs)"
  have t: "tasks_ok ?P s ts" and st: "env_status (envs s c) = ENV_RUNNABLE"
    using ok c by (auto simp: machine_ok_def running_ok_def)
  note ps = pstep.intros [where P = ?P and c = c and ts = ts, OF c(1)]
  show ?thesis
  proof (cases t)
    case (Receiving p)
    then obtain k where "?P p = Ipc_recv k" using tasksD(4) [OF t c(2)] by auto
    then show ?thesis using ps(7) [of p] c Receiving by (force simp: ipc_received_def)
  next
    case (Refused p)
    from yield_proceeds [OF tasksD(1) [OF t c(2)], of "s\<lparr>kernel_tf := reset_tf, timestack_tf := reset_tf\<rparr>"] st
    obtain s' where "syscall_yield reset_tf s = (Inl Enter_user, s')" by (auto simp: yield_eq)
    then show ?thesis using ps(5) [of p] c Refused by blast
  next
    case (At p)
    have n': "next_ok ?w (env_id (envs s c)) (?P p)" using n At by simp
    show ?thesis
    proof (cases "?P p")
      case (Printf f a q)
      then show ?thesis using ps(1) [of p] c At by blast
    next
      case (Getenvid k)
      have "syscall_getenvid reset_tf s = (Inr (env_id (envs s c)), s\<lparr>kernel_tf := reset_tf\<rparr>)"
        using c by (simp add: getenvid_stub sys_getenvid_def)
      then show ?thesis using ps(2) [OF _ Getenvid] c At by blast
    next
      case (Ipc_send w v q)
      then have "w \<noteq> 0" "fst ?w w \<noteq> None" using n' by simp_all
      from send_returns [OF ok c(1) this] show ?thesis
        using c At ps(3) [OF _ Ipc_send] ps(4) [OF _ Ipc_send] by blast
    next
      case (Ipc_recv k)
      then have "\<exists>s'. ipc_recv reset_tf 0 s = (Inl Enter_user, s')" using n' recv_waits [OF ok c(1)] by auto
      then show ?thesis using ps(6) [OF _ Ipc_recv] c At by blast
    qed (use n' e in \<open>simp_all add: world_snd\<close>)
  qed
qed

text \<open>C4: ping-pong on the kernel. From a machine in order with \<^verbatim>\<open>user_main_pingpong\<close> at its start in the environments 0x800
  and 0x1001, wherever the timer interrupts, the values delivered by the system calls are 0, 1, 2, ... in order and at most
  eleven; and until the last one is delivered the running program can always make its next step: no call panics, and
  the scheduler always has a program to run.\<close>

theorem pingpong_on_kernel:
  assumes ok: "machine_ok user_main_pingpong m0" and start: "world_of user_main_pingpong m0 = game_start"
    and run: "(mstep user_main_pingpong)\<^sup>*\<^sup>* m0 (s, ts, vs)"
  shows "vs = map word_of_nat [0..<length vs] \<and> length vs \<le> 11 \<and>
    (length vs < 11 \<longrightarrow> (\<exists>m'. pstep user_main_pingpong (s, ts, vs) m'))"
proof -
  have m: "machine_ok user_main_pingpong (s, ts, vs)" by (rule programs.run_inv [OF run ok])
  have g: "game_ok (world_of user_main_pingpong (s, ts, vs))"
    using wreach_rtranclp [OF programs.run [OF run ok]] game_reach start by simp
  then have "vs = map word_of_nat [0..<length vs]" "length vs \<le> 11"
    by (auto simp: game_ok_def world_of_def playing_def)
  moreover have "\<exists>m'. pstep user_main_pingpong (s, ts, vs) m'" if "length vs < 11"
  proof -
    from m obtain c t where c: "curenv s = Some c" "ts c = Some t" "tasks_ok user_main_pingpong s ts"
      by (auto simp: machine_ok_def running_ok_def)
    show ?thesis using pstep_proceeds [OF m c(1,2) game_next [OF g world_own [OF c(3,2)]]] that by simp
  qed
  ultimately show ?thesis by blast
qed

lemma pingpong_on_kernel_witness: "\<exists>m'. pstep user_main_pingpong (game_state, game_tasks, []) m'"
  using pingpong_on_kernel [OF game_machine(1,2) rtranclp.rtrancl_refl] by simp

end
