(* ===== verification/Spec2Isabelle.thy ===== *)
theory Spec2Isabelle
  imports Self_Tests Exceptions Syscall_Results Machine_Setup Programs_On_Kernel
begin

text \<open>
  A model of the RaspberryPi 3 kernel of this repository (AArch64, bare metal, in C), and what makes it
  correct. All paths are relative to \<^verbatim>\<open>src/\<close>.

  \<^bold>\<open>The program.\<close> \<^verbatim>\<open>boot/start.S\<close> enters \<^verbatim>\<open>main\<close> (\<^verbatim>\<open>init/main.c\<close>) in EL1. \<^verbatim>\<open>main\<close> sets up the serial line, builds page
  tables that map the machine one to one (\<^verbatim>\<open>boot_mmu_setup\<close>, \<^verbatim>\<open>init/mmu.c\<close>), allocates and maps the arrays \<^verbatim>\<open>pages\<close>
  and \<^verbatim>\<open>envs\<close> (\<^verbatim>\<open>aarch64_vm_init\<close>, \<^verbatim>\<open>mm/pmap.c\<close>), puts the free pages and environments into intrusive lists
  (\<^verbatim>\<open>page_init\<close>, \<^verbatim>\<open>env_init\<close>), creates the first environment and starts the timer. From then on the kernel only
  runs in exceptions: the timer calls the round-robin scheduler (\<^verbatim>\<open>lib/handleirq.c\<close>, \<^verbatim>\<open>lib/sched.c\<close>), the \<^verbatim>\<open>svc\<close>
  instruction the system calls (\<^verbatim>\<open>lib/entry.S\<close>, \<^verbatim>\<open>lib/syscall_all.c\<close>), which allocate and share pages, fork
  environments and pass messages between them. The programs reach the calls through the stubs of \<^verbatim>\<open>user/\<close>.

  \<^bold>\<open>Theories\<close>, in the order of their imports:

  \<^item> \<open>Kernel_Prelude\<close>: C integer types as words, collections of rules, generic facts on words.
  \<^item> \<open>C_Memory\<close>: the byte-addressed memory, its 64-bit accesses, \<open>bcopy\<close> and \<open>bzero\<close> (\<^verbatim>\<open>lib/helpfunct.c\<close>): loops by
    words, then bytes, that return and copy or clear exactly the block unless the range wraps round.
  \<^item> \<open>Mmu_Defs\<close>: the constants and macros of \<^verbatim>\<open>include/mmu.h\<close>, \<^verbatim>\<open>include/types.h\<close> and \<^verbatim>\<open>include/pmap.h\<close>, and their
    algebra (an address is its three indices and its offset). The locales \<open>entry_store\<close> and \<open>table_store\<close> say what
    the page-table code needs of the memory, and are interpreted on \<open>load64\<close> and \<open>store64\<close>.
  \<^item> \<open>Sys_Queue\<close>: the list macros of \<^verbatim>\<open>include/queue.h\<close> on explicit links, with \<^verbatim>\<open>le_prev\<close> pointing at a link field. They
    refine operations on the sequence a traversal visits: the locale \<open>intrusive_lists\<close>.
  \<^item> \<open>Lp_Print\<close>: \<^verbatim>\<open>lib/print.c\<close>. \<open>PrintNum\<close>, which writes backwards and reverses in place, equals a direct
    rendering; a conversion in a text prints text, number and the rest; what overflows the buffer is undefined.
  \<^item> \<open>Kernel_State\<close>: the record \<open>kstate\<close> of everything the kernel's functions share, results, and sequencing.
  \<^item> \<open>Page_Alloc\<close>, \<open>Page_Table\<close>, \<open>Page_Frame\<close>: the physical pages and the three-level page tables of \<^verbatim>\<open>mm/pmap.c\<close>. \<open>vm_ok\<close>
    says that the tables form a tree and that the free pages are no tables of it; \<open>page_insert\<close>, \<open>page_remove\<close> and
    \<open>pgdir_walk\<close> keep it and are characterised by \<open>pt_view\<close>, the leaf descriptor at each slot. \<open>tables_missing\<close> counts the tables
    an address still needs: a mapping succeeds exactly when the free list has as many pages. The locale \<open>page_pool\<close> is
    the contract of the allocator. \<open>rest\<close> collects what these functions leave alone.
  \<^item> \<open>Env_Mgmt\<close>: \<^verbatim>\<open>lib/env.c\<close>, \<^verbatim>\<open>lib/sched.c\<close> and \<^verbatim>\<open>lib/handleirq.c\<close>: identifiers, creation, destruction, switching, and
    the fairness of the scheduler.
  \<^item> \<open>Syscalls\<close>, \<open>Env_Create\<close>, \<open>Ipc\<close>: the system calls and their dispatch, new environments and \<^verbatim>\<open>fork\<close>, messages.
  \<^item> \<open>Kernel_Inv\<close>: the kernel as a transition system (\<open>kstep\<close>: a program changes memory, a system call, a timer
    interrupt) and an invariant of its reachable states, by verification conditions for each function.
  \<^item> \<open>Boot\<close>, \<open>Boot_Segment\<close>, \<open>Kernel_Main\<close>: the first page tables, the mappings made before the page lists exist, and \<^verbatim>\<open>main\<close>
    from its first line to the first program in user mode.
  \<^item> \<open>User_Calls\<close>, \<open>Syscall_Results\<close>: the stubs of \<^verbatim>\<open>user/syscall_lib.c\<close>, \<^verbatim>\<open>user/ipc.c\<close> and \<^verbatim>\<open>user/fork.c\<close>, and the
    values the calls return.
  \<^item> \<open>User_Programs\<close>: the programs of \<^verbatim>\<open>user/userfunct.c\<close> as functions on their points, and ping-pong between two of them,
    where a message is one step.
  \<^item> \<open>Programs_On_Kernel\<close>: the same programs on the model of the kernel, system call by system call and with timer interrupts
    between them (\<open>mstep\<close>). The locale \<open>simulation\<close>, interpreted on the two machines, takes every execution to one of
    \<open>User_Programs\<close>; what is proved there holds on the kernel, and the system calls that a game makes never fail.
  \<^item> \<open>Uart\<close>, \<open>Exceptions\<close>: the driver \<^verbatim>\<open>drivers/rpi3/uart_boot.c\<close>, \<^verbatim>\<open>printf\<close> and \<^verbatim>\<open>panic\<close> (\<^verbatim>\<open>lib/printf.c\<close>), the vector
    table, and the report of an unexpected exception (\<^verbatim>\<open>lib/unimplement.c\<close>) on the serial line.
  \<^item> \<open>Exception_Entry\<close>, \<open>Machine_Setup\<close>: the assembly, as lists of instructions with an executable semantics. Saving and restoring
    the registers (\<^verbatim>\<open>lib/entry.S\<close>, \<^verbatim>\<open>lib/irq.S\<close>) around a kernel function: what a program finds in its registers after a
    call, and after others have run. The functions that write system and device registers only.
  \<^item> \<open>Self_Tests\<close>: \<^verbatim>\<open>env_check\<close> and \<^verbatim>\<open>page_check\<close> on the state \<^verbatim>\<open>main\<close> reaches.

  \<^bold>\<open>State.\<close> \<open>mem\<close> is the physical memory, reached by the kernel at equal virtual addresses (\<open>boot_identity\<close> proves
  this of the tables in force). Page directories, page contents and the stack pages that \<^verbatim>\<open>fork\<close> copies live in it. The arrays
  \<^verbatim>\<open>pages\<close> and \<^verbatim>\<open>envs\<close> are kept typed, one function per field, and apart from \<open>mem\<close>: a \<^verbatim>\<open>struct Page *\<close> is its page
  number, a \<^verbatim>\<open>struct Env *\<close> its index, NULL is \<open>None\<close>. The trap frames on top of the two kernel stacks are fields of
  the state. When \<^verbatim>\<open>aarch64_vm_init\<close> makes fresh memory one of the arrays or stacks, these fields take the values that
  memory holds (\<open>page_array\<close>, \<open>env_array\<close>, \<open>trapframe_at\<close>); they are zero because \<open>boot_alloc\<close> has cleared it. A function returns a value or stops: \<open>Panicked\<close>, \<open>Hang\<close> (a loop that never ends), \<open>Null_deref\<close>, \<open>Data_abort\<close>,
  \<open>Wild_jump\<close>, or \<open>Enter_user\<close> (\<^verbatim>\<open>eret\<close> into another environment). Output and TLB maintenance are events of a trace, which
  \<open>Exceptions\<close> turns into characters on the line.

  \<^bold>\<open>Machine integers\<close> keep their width: addresses and descriptors are 64-bit words, \<^verbatim>\<open>pp_ref\<close> has 16 bits, \<^verbatim>\<open>perm\<close> of
  \<^verbatim>\<open>page_insert\<close> 32. \<^verbatim>\<open>int\<close> results are integers; where they pass through registers or a narrower type
  the conversion is written out.

  \<^bold>\<open>Loops.\<close> Loops over a range are folds or recursion with a measure. Those that may not end are \<open>partial_function (option)\<close>
  with \<open>None\<close> for not returning, and each has a theorem when it returns: \<open>bcopy\<close> and \<open>bzero\<close> on ranges that do not wrap, the digit
  loop of \<open>PrintNum\<close> for every base from 2 on, \<open>sched_search\<close> exactly when an environment is runnable, \<open>poll\<close> exactly when
  the device becomes ready. There is no fuel. \<open>yields\<close> and \<open>alloc_many\<close> count iterations and \<open>fold\<close>s run over the
  loop's own counter.

  \<^bold>\<open>Parameters and hypotheses.\<close> The hardware behind the serial line is a record of read and write functions; \<open>pl011\<close> states
  what its manual promises. The linker's symbols, the exception level, the registers a program leaves in a trap frame and the
  device's answers are arguments. \<open>boot_ram\<close> asks that the memory of the first directory's entries that
  \<^verbatim>\<open>boot_mmu_setup\<close> does not write is zero, as the code does; the bounds of \<open>kernel_boots\<close> put the image below 512 MiB.

  \<^bold>\<open>Not modelled.\<close> \<^verbatim>\<open>boot/start.S\<close>, which brings the processor to EL1 and clears the variables; the barriers of
  \<^verbatim>\<open>mm/tlb_asm.S\<close>, which are one event.
  \<^verbatim>\<open>load_icode\<close> and \<^verbatim>\<open>load_icode_mapper\<close> are commented out in the source. User programs are taken
  not to write the kernel's arrays and variables, although the mappings allow it: the tables give every page to EL0, and the code has
  nothing that would prevent it. \<^verbatim>\<open>fork\<close> is no step of \<open>Programs_On_Kernel\<close>. A timer interrupt inside a handler is not modelled: exceptions are entered with interrupts
  masked, and the handlers do not unmask them.
\<close>

end
